(* ===== verification/Prelude.thy ===== *)
theory Prelude
  imports Main "HOL-Library.Word"
begin

text \<open>
  What every other theory of the development shares.

  \<^item> The C integer types the kernel uses, as words of their width
    (\<open>kernel/types.h\<close>).
  \<^item> \<open>error\<close>: a call of \<open>panic(s)\<close> ends the kernel, so an operation that may
    panic has a value of the sum type \<open>error + 'a\<close>, with \<open>Inl (Panic s)\<close> for
    the panic. \<open>bindR\<close> runs one such operation after another and stops at the first
    panic, as the machine does.
  \<^item> The development's collections of facts and generic lemmas on lists, functions
    and words.
\<close>

unbundle bit_operations_syntax

named_theorems panic_simps \<open>equations of the result type\<close>
named_theorems mem_simps \<open>reads of an updated memory\<close>

section \<open>Types\<close>

type_synonym byte = "8 word"
type_synonym u16 = "16 word"
type_synonym u32 = "32 word"
type_synonym u64 = "64 word"

text \<open>The ends of a call that does not return to its caller: \<open>panic\<close>, a call of
  \<open>sleep\<close> on the named condition (the model of an uninterrupted run stops there), a
  search of a cyclic list that does not end, and an access outside the named C array, whose
  effect C leaves undefined.\<close>

datatype error = Panic string | Sleeps string | Diverges | Undefined string

type_synonym 'a res = "error + 'a"

section \<open>Sequencing of operations that may panic\<close>

definition bindR :: "'a res \<Rightarrow> ('a \<Rightarrow> 'b res) \<Rightarrow> 'b res" where
  "bindR m f = (case m of Inl e \<Rightarrow> Inl e | Inr x \<Rightarrow> f x)"

definition guardR :: "bool \<Rightarrow> string \<Rightarrow> unit res" where
  "guardR ok msg = (if ok then Inr () else Inl (Panic msg))"

lemma bindR_simps [simp, panic_simps]:
  "bindR (Inl e) f = Inl e"
  "bindR (Inr x) f = f x"
  by (simp_all add: bindR_def)

lemma bindR_eq_Inr [simp]: "bindR m f = Inr y \<longleftrightarrow> (\<exists>x. m = Inr x \<and> f x = Inr y)"
  by (cases m) (auto simp: bindR_def)

lemma bindR_eq_Inl: "bindR m f = Inl e \<longleftrightarrow> m = Inl e \<or> (\<exists>x. m = Inr x \<and> f x = Inl e)"
  by (cases m) (auto simp: bindR_def)

lemma bindR_assoc: "bindR (bindR m f) g = bindR m (\<lambda>x. bindR (f x) g)"
  by (cases m) simp_all

lemma bindR_return [simp]: "bindR m Inr = m"
  by (cases m) simp_all

lemma bindR_cong [fundef_cong]:
  "m = m' \<Longrightarrow> (\<And>x. m' = Inr x \<Longrightarrow> f x = g x) \<Longrightarrow> bindR m f = bindR m' g"
  by (cases m') (auto simp: bindR_def)

lemma guardR_simps [simp, panic_simps]:
  "guardR True msg = Inr ()"
  "guardR False msg = Inl (Panic msg)"
  by (simp_all add: guardR_def)

lemma guardR_eq_Inr [simp]: "guardR ok msg = Inr u \<longleftrightarrow> ok"
  by (simp add: guardR_def)

section \<open>Words\<close>

lemma unat_of_nat_le: "n < 2 ^ LENGTH('a) \<Longrightarrow> unat (of_nat n :: 'a::len word) = n"
  by (simp add: unat_of_nat take_bit_nat_eq_self)

lemma unat_ucast_up:
  "LENGTH('a) \<le> LENGTH('b) \<Longrightarrow> unat (ucast (x :: 'a::len word) :: 'b::len word) = unat x"
proof -
  assume le: "LENGTH('a) \<le> LENGTH('b)"
  have "unat x < 2 ^ LENGTH('a)" by (rule unsigned_less)
  also have "\<dots> \<le> 2 ^ LENGTH('b)" using le by (simp add: power_increasing)
  finally show ?thesis by (simp add: unsigned_ucast_eq take_bit_nat_eq_self)
qed

lemma unat_u64_lt: "unat (x :: u64) < 18446744073709551616"
  by (rule order_less_le_trans [OF unsigned_less]) simp

lemma unat_u32_lt: "unat (x :: u32) < 4294967296"
  by (rule order_less_le_trans [OF unsigned_less]) simp

lemma unat_byte_lt: "unat (x :: byte) < 256"
  by (rule order_less_le_trans [OF unsigned_less]) simp

lemma unat_add_no_wrap:
  "unat x + unat y < 2 ^ LENGTH('a) \<Longrightarrow> unat (x + y) = unat x + unat (y :: 'a::len word)"
  by (simp add: unat_word_ariths)

lemma unat_sub_le: "y \<le> x \<Longrightarrow> unat (x - y) = unat x - unat (y :: 'a::len word)"
  by (rule unat_sub)

text \<open>\<open>a - b\<close> is the offset of \<open>a\<close> from \<open>b\<close>: a word is in a run of \<open>n\<close> from
  \<open>b\<close> exactly when this offset is below \<open>n\<close>.\<close>

lemma offset_add [simp]: "(b + x) - b = (x :: 'a::len word)"
  by simp

lemma add_of_nat_offset: "b + of_nat (unat (a - b)) = (a :: 'a::len word)"
  by simp

section \<open>Lists and functions\<close>

lemma list_update_same_index [simp]: "xs[i := x, i := y] = xs[i := y]"
  by simp

lemma nth_list_update_if:
  "i < length xs \<Longrightarrow> xs[j := v] ! i = (if i = j then v else xs ! i)"
  by (simp add: nth_list_update)

text \<open>The first index of a list from \<open>i\<close> on that satisfies a predicate: the shape of the
  kernel's searches through its fixed tables.\<close>

fun find_from :: "('a \<Rightarrow> bool) \<Rightarrow> nat \<Rightarrow> 'a list \<Rightarrow> nat option" where
  "find_from P i [] = None"
| "find_from P i (x # xs) = (if P x then Some i else find_from P (Suc i) xs)"

lemma find_from_None_iff: "find_from P i xs = None \<longleftrightarrow> (\<forall>x\<in>set xs. \<not> P x)"
  by (induction xs arbitrary: i) auto

lemma find_from_SomeD:
  "find_from P i xs = Some j \<Longrightarrow>
   i \<le> j \<and> j < i + length xs \<and> P (xs ! (j - i)) \<and> (\<forall>k<j - i. \<not> P (xs ! k))"
proof (induction xs arbitrary: i)
  case Nil
  then show ?case by simp
next
  case (Cons x xs)
  show ?case
  proof (cases "P x")
    case True
    with Cons.prems show ?thesis by simp
  next
    case False
    with Cons.prems have "find_from P (Suc i) xs = Some j" by simp
    from Cons.IH [OF this] False show ?thesis
      by (auto simp: nth_Cons' less_Suc_eq_0_disj)
  qed
qed

lemma find_from_zeroD:
  assumes "find_from P 0 xs = Some j"
  shows "j < length xs" and "P (xs ! j)" and "\<And>k. k < j \<Longrightarrow> \<not> P (xs ! k)"
  using find_from_SomeD [OF assms] by auto

lemma find_from_exists:
  "i < length xs \<Longrightarrow> P (xs ! i) \<Longrightarrow> \<exists>j\<le>i. find_from P 0 xs = Some j"
proof -
  assume a: "i < length xs" "P (xs ! i)"
  then have "find_from P 0 xs \<noteq> None"
    by (auto simp: find_from_None_iff)
  then obtain j where j: "find_from P 0 xs = Some j" by blast
  with a(2) find_from_zeroD(3) [OF j, of i] show ?thesis
    by (metis not_less)
qed

lemma distinct_map_nth_inj:
  "distinct (map f xs) \<Longrightarrow> i < length xs \<Longrightarrow> j < length xs \<Longrightarrow> f (xs ! i) = f (xs ! j) \<Longrightarrow> i = j"
  by (metis distinct_conv_nth length_map nth_map)

end
