(* ===== verification/Memory.thy ===== *)
theory Memory
  imports Prelude
begin

text \<open>
  Byte-addressed memory, as the RISC-V kernel sees it: a total map from 64-bit addresses to
  bytes. 64-bit and 32-bit loads and stores are little endian. Everything the kernel keeps
  in pages it hands out at run time (free-list links, page-table entries, user data) lives
  in this memory, so aliasing is explicit.
\<close>

section \<open>Little-endian words\<close>

fun word_of_bytes :: "byte list \<Rightarrow> 'a::len word" where
  "word_of_bytes [] = 0"
| "word_of_bytes (b # bs) = ucast b OR push_bit 8 (word_of_bytes bs)"

definition bytes_of_word :: "nat \<Rightarrow> 'a::len word \<Rightarrow> byte list" where
  "bytes_of_word n w = map (\<lambda>i. ucast (drop_bit (8 * i) w)) [0..<n]"

lemma length_bytes_of_word [simp]: "length (bytes_of_word n w) = n"
  by (simp add: bytes_of_word_def)

lemma nth_bytes_of_word [simp]:
  "i < n \<Longrightarrow> bytes_of_word n w ! i = ucast (drop_bit (8 * i) w)"
  by (simp add: bytes_of_word_def)

lemma bit_word_of_bytes:
  "bit (word_of_bytes bs :: 'a::len word) n \<longleftrightarrow>
     n < LENGTH('a) \<and> n div 8 < length bs \<and> bit (bs ! (n div 8)) (n mod 8)"
proof (induction bs arbitrary: n)
  case Nil
  then show ?case by simp
next
  case (Cons b bs)
  show ?case
  proof (cases "n < 8")
    case True
    then show ?thesis by (auto simp: bit_simps)
  next
    case False
    then obtain k where n: "n = 8 + k" by (metis le_add_diff_inverse not_less)
    then have "\<not> bit b n" by (auto dest: bit_imp_le_length)
    moreover have "(8 + k) div 8 = Suc (k div 8)" by simp
    ultimately show ?thesis using n Cons.IH [of k]
      by (auto simp: bit_simps dest: bit_imp_le_length)
  qed
qed

lemma word_of_bytes_of_word:
  "LENGTH('a) \<le> 8 * n \<Longrightarrow> word_of_bytes (bytes_of_word n w) = (w :: 'a::len word)"
proof (rule bit_word_eqI, goal_cases)
  case (1 i)
  then have "i div 8 < n" by auto
  with 1 show ?case
    by (auto simp: bit_word_of_bytes bit_simps)
qed

lemma bytes_of_word_of_bytes:
  assumes "8 * length bs \<le> LENGTH('a)"
  shows "bytes_of_word (length bs) (word_of_bytes bs :: 'a::len word) = bs"
proof (rule nth_equalityI, simp, rule bit_word_eqI, goal_cases)
  case (1 i n)
  then have "(8 * i + n) div 8 = i" "(8 * i + n) mod 8 = n" "8 * i + n < LENGTH('a)"
    using assms by auto
  with 1 show ?case
    by (auto simp: bit_word_of_bytes bit_simps)
qed

section \<open>Loads and stores\<close>

type_synonym mem = "u64 \<Rightarrow> byte"

text \<open>The bytes of a run of memory, and a run of memory overwritten by a list of bytes.\<close>

definition bytes_at :: "mem \<Rightarrow> u64 \<Rightarrow> nat \<Rightarrow> byte list" where
  "bytes_at m a n = map (\<lambda>i. m (a + of_nat i)) [0..<n]"

definition store_bytes :: "mem \<Rightarrow> u64 \<Rightarrow> byte list \<Rightarrow> mem" where
  "store_bytes m a bs =
     (\<lambda>x. if unat (x - a) < length bs then bs ! unat (x - a) else m x)"

definition load64 :: "mem \<Rightarrow> u64 \<Rightarrow> u64" where
  "load64 m a = word_of_bytes (bytes_at m a 8)"

definition store64 :: "mem \<Rightarrow> u64 \<Rightarrow> u64 \<Rightarrow> mem" where
  "store64 m a v = store_bytes m a (bytes_of_word 8 v)"

definition load32 :: "mem \<Rightarrow> u64 \<Rightarrow> u32" where
  "load32 m a = word_of_bytes (bytes_at m a 4)"

definition store32 :: "mem \<Rightarrow> u64 \<Rightarrow> u32 \<Rightarrow> mem" where
  "store32 m a v = store_bytes m a (bytes_of_word 4 v)"

section \<open>Reading back what was stored\<close>

lemma length_bytes_at [simp]: "length (bytes_at m a n) = n"
  by (simp add: bytes_at_def)

lemma nth_bytes_at [simp]: "i < n \<Longrightarrow> bytes_at m a n ! i = m (a + of_nat i)"
  by (simp add: bytes_at_def)

lemma bytes_at_0 [simp]: "bytes_at m a 0 = []"
  by (simp add: bytes_at_def)

lemma bytes_at_eqI:
  "length bs = n \<Longrightarrow> (\<And>i. i < n \<Longrightarrow> m (a + of_nat i) = bs ! i) \<Longrightarrow> bytes_at m a n = bs"
  by (rule nth_equalityI) simp_all

lemma bytes_at_cong:
  "(\<And>i. i < n \<Longrightarrow> m (a + of_nat i) = m' (a + of_nat i)) \<Longrightarrow> bytes_at m a n = bytes_at m' a n"
  by (simp add: bytes_at_def)

lemma bytes_at_append: "bytes_at m a (n + k) = bytes_at m a n @ bytes_at m (a + of_nat n) k"
  by (rule nth_equalityI) (auto simp: nth_append algebra_simps)

lemma store_bytes_Nil [simp]: "store_bytes m a [] = m"
  by (simp add: store_bytes_def)

lemma store_bytes_in:
  "i < length bs \<Longrightarrow> length bs \<le> 2 ^ 64 \<Longrightarrow> store_bytes m a bs (a + of_nat i) = bs ! i"
  by (simp add: store_bytes_def unat_of_nat_le)

lemma store_bytes_out: "length bs \<le> unat (x - a) \<Longrightarrow> store_bytes m a bs x = m x"
  by (simp add: store_bytes_def)

lemma bytes_at_store_bytes [simp]:
  "length bs \<le> 2 ^ 64 \<Longrightarrow> bytes_at (store_bytes m a bs) a (length bs) = bs"
  by (rule bytes_at_eqI) (simp_all add: store_bytes_in)

lemma store_bytes_same [simp]:
  "length bs = length cs \<Longrightarrow> store_bytes (store_bytes m a bs) a cs = store_bytes m a cs"
  by (auto simp: store_bytes_def)

text \<open>Two runs of memory are disjoint when neither starts inside the other.\<close>

definition disjoint_runs :: "u64 \<Rightarrow> nat \<Rightarrow> u64 \<Rightarrow> nat \<Rightarrow> bool" where
  "disjoint_runs a n b k \<longleftrightarrow> (\<forall>i<n. k \<le> unat (a + of_nat i - b))"

lemma disjoint_runs_unat:
  assumes "unat a + n \<le> 2 ^ 64" and "unat b + k \<le> 2 ^ 64"
    and "unat a + n \<le> unat b \<or> unat b + k \<le> unat a"
  shows "disjoint_runs a n b k"
  unfolding disjoint_runs_def
proof (intro allI impI)
  fix i
  assume i: "i < n"
  then have ai: "unat (a + of_nat i) = unat a + i"
    using assms(1) by (simp add: unat_word_ariths unat_of_nat_le)
  show "k \<le> unat (a + of_nat i - b)"
  proof (cases "b \<le> a + of_nat i")
    case True
    then show ?thesis
      using assms(3) i ai by (auto simp: unat_sub word_le_nat_alt)
  next
    case False
    then have "unat (a + of_nat i - b) = 2 ^ 64 + (unat a + i) - unat b"
      using ai unat_sub_if' [of "a + of_nat i" b] by (simp add: word_le_nat_alt)
    then show ?thesis using assms(2) by simp
  qed
qed

lemma bytes_at_store_other:
  "disjoint_runs a n b (length bs) \<Longrightarrow> bytes_at (store_bytes m b bs) a n = bytes_at m a n"
  by (rule bytes_at_cong) (simp add: disjoint_runs_def store_bytes_out)

lemma load64_store64 [simp, mem_simps]: "load64 (store64 m a v) a = v"
  using bytes_at_store_bytes [of "bytes_of_word 8 v" m a]
  by (simp add: load64_def store64_def word_of_bytes_of_word)

lemma load32_store32 [simp, mem_simps]: "load32 (store32 m a v) a = v"
  using bytes_at_store_bytes [of "bytes_of_word 4 v" m a]
  by (simp add: load32_def store32_def word_of_bytes_of_word)

lemma load64_store_other:
  "disjoint_runs a 8 b (length bs) \<Longrightarrow> load64 (store_bytes m b bs) a = load64 m a"
  by (simp add: load64_def bytes_at_store_other)

lemma load64_store64_other:
  "disjoint_runs a 8 b 8 \<Longrightarrow> load64 (store64 m b v) a = load64 m a"
  by (simp add: store64_def load64_store_other)

lemma load64_cong:
  "(\<And>i. i < 8 \<Longrightarrow> m (a + of_nat i) = m' (a + of_nat i)) \<Longrightarrow> load64 m a = load64 m' a"
  by (simp add: load64_def cong: bytes_at_cong)

lemma store64_other: "8 \<le> unat (x - a) \<Longrightarrow> store64 m a v x = m x"
  by (simp add: store64_def store_bytes_out)

lemma store64_store64 [simp, mem_simps]: "store64 (store64 m a v) a w = store64 m a w"
  by (simp add: store64_def)

lemma word_of_bytes_zero: "word_of_bytes (replicate n 0) = 0"
  by (induction n) simp_all

lemma load_zero [simp]: "load64 (\<lambda>_. 0) a = 0" "load32 (\<lambda>_. 0) a = 0"
  by (simp_all add: load64_def load32_def bytes_at_def map_replicate_const word_of_bytes_zero
      del: upt_Suc upt_0)

end
