(* ===== verification/CString.thy ===== *)
theory CString
  imports Memory
begin

text \<open>
  \<open>kernel/string.c\<close>. \<open>memset\<close>, \<open>memmove\<close> and \<open>memcpy\<close> work on the
  byte memory, where source and destination may overlap. The functions that only read their
  arguments, and \<open>strncpy\<close> and \<open>safestrcpy\<close>, whose callers pass distinct arrays,
  take a C array as its contents from the pointer on, a function from the offset to the byte.
\<close>

section \<open>Definitions\<close>

type_synonym carray = "nat \<Rightarrow> byte"

definition array_at :: "mem \<Rightarrow> u64 \<Rightarrow> carray" where
  "array_at m a = (\<lambda>i. m (a + of_nat i))"

definition array_of :: "byte list \<Rightarrow> carray" where
  "array_of bs = (\<lambda>i. if i < length bs then bs ! i else 0)"

function memset_loop :: "mem \<Rightarrow> u64 \<Rightarrow> byte \<Rightarrow> nat \<Rightarrow> nat \<Rightarrow> mem" where
  "memset_loop m cdst c i n =
     (if i < n then memset_loop (m(cdst + of_nat i := c)) cdst c (Suc i) n else m)"
  by pat_completeness auto
termination
  by (relation "measure (\<lambda>(m, cdst, c, i, n). n - i)") auto

declare memset_loop.simps [simp del]

definition memset :: "mem \<Rightarrow> u64 \<Rightarrow> u32 \<Rightarrow> u32 \<Rightarrow> mem" where
  "memset m dst c n = memset_loop m dst (ucast c) 0 (unat n)"

fun memcmp_loop :: "carray \<Rightarrow> carray \<Rightarrow> nat \<Rightarrow> nat \<Rightarrow> int" where
  "memcmp_loop s1 s2 i 0 = 0"
| "memcmp_loop s1 s2 i (Suc n) =
     (if s1 i \<noteq> s2 i then uint (s1 i) - uint (s2 i) else memcmp_loop s1 s2 (Suc i) n)"

definition memcmp :: "carray \<Rightarrow> carray \<Rightarrow> u32 \<Rightarrow> int" where
  "memcmp v1 v2 n = memcmp_loop v1 v2 0 (unat n)"

text \<open>\<open>while(n-- > 0) *--d = *--s;\<close> and \<open>while(n-- > 0) *d++ = *s++;\<close>\<close>

fun copy_backward :: "mem \<Rightarrow> u64 \<Rightarrow> u64 \<Rightarrow> nat \<Rightarrow> mem" where
  "copy_backward m d s 0 = m"
| "copy_backward m d s (Suc n) = copy_backward (m(d - 1 := m (s - 1))) (d - 1) (s - 1) n"

fun copy_forward :: "mem \<Rightarrow> u64 \<Rightarrow> u64 \<Rightarrow> nat \<Rightarrow> mem" where
  "copy_forward m d s 0 = m"
| "copy_forward m d s (Suc n) = copy_forward (m(d := m s)) (d + 1) (s + 1) n"

definition memmove :: "mem \<Rightarrow> u64 \<Rightarrow> u64 \<Rightarrow> u32 \<Rightarrow> mem" where
  "memmove m dst src n =
     (if src < dst \<and> dst < src + ucast n
      then copy_backward m (dst + ucast n) (src + ucast n) (unat n)
      else copy_forward m dst src (unat n))"

definition memcpy :: "mem \<Rightarrow> u64 \<Rightarrow> u64 \<Rightarrow> u32 \<Rightarrow> mem" where
  "memcpy m dst src n = memmove m dst src n"

fun strncmp_loop :: "carray \<Rightarrow> carray \<Rightarrow> nat \<Rightarrow> nat \<Rightarrow> int" where
  "strncmp_loop p q i 0 = 0"
| "strncmp_loop p q i (Suc n) =
     (if p i \<noteq> 0 \<and> p i = q i then strncmp_loop p q (Suc i) n
      else uint (p i) - uint (q i))"

definition strncmp :: "carray \<Rightarrow> carray \<Rightarrow> u32 \<Rightarrow> int" where
  "strncmp p q n = strncmp_loop p q 0 (unat n)"

text \<open>The two loops of \<open>strncpy\<close>: the first returns the array, the position and what
  is left of \<open>n\<close>.\<close>

fun strncpy_copy :: "carray \<Rightarrow> carray \<Rightarrow> nat \<Rightarrow> nat \<Rightarrow> carray \<times> nat \<times> nat" where
  "strncpy_copy s t i 0 = (s, i, 0)"
| "strncpy_copy s t i (Suc n) =
     (if t i \<noteq> 0 then strncpy_copy (s(i := t i)) t (Suc i) n else (s(i := t i), Suc i, n))"

fun strncpy_pad :: "carray \<Rightarrow> nat \<Rightarrow> nat \<Rightarrow> carray" where
  "strncpy_pad s i 0 = s"
| "strncpy_pad s i (Suc n) = strncpy_pad (s(i := 0)) (Suc i) n"

definition strncpy :: "carray \<Rightarrow> carray \<Rightarrow> int \<Rightarrow> carray" where
  "strncpy s t n = (let (s', i, k) = strncpy_copy s t 0 (nat n) in strncpy_pad s' i k)"

text \<open>\<open>while(--n > 0 && (*s++ = *t++) != 0)\<close>, then \<open>*s = 0\<close>. The argument
  \<open>n\<close> of the loop is the value after \<open>--n\<close>.\<close>

fun safestrcpy_copy :: "carray \<Rightarrow> carray \<Rightarrow> nat \<Rightarrow> nat \<Rightarrow> carray \<times> nat" where
  "safestrcpy_copy s t i 0 = (s, i)"
| "safestrcpy_copy s t i (Suc n) =
     (if t i \<noteq> 0 then safestrcpy_copy (s(i := t i)) t (Suc i) n else (s(i := t i), Suc i))"

definition safestrcpy :: "carray \<Rightarrow> carray \<Rightarrow> int \<Rightarrow> carray" where
  "safestrcpy s t n =
     (if n \<le> 0 then s
      else let (s', i) = safestrcpy_copy s t 0 (nat (n - 1)) in s'(i := 0))"

text \<open>The scan for the terminating NUL ends only if there is one.\<close>

partial_function (option) strlen_loop :: "carray \<Rightarrow> nat \<Rightarrow> nat option" where
  "strlen_loop s n = (if s n \<noteq> 0 then strlen_loop s (Suc n) else Some n)"

definition strlen :: "carray \<Rightarrow> nat option" where
  "strlen s = strlen_loop s 0"

text \<open>The abstract value of a C array of at most \<open>n\<close> bytes: the bytes before the first
  NUL.\<close>

definition cstr :: "nat \<Rightarrow> carray \<Rightarrow> byte list" where
  "cstr n s = takeWhile (\<lambda>c. c \<noteq> 0) (map s [0..<n])"

section \<open>\<open>memset\<close>\<close>

lemma memset_loop_eq:
  "n \<le> 2 ^ 64 \<Longrightarrow> memset_loop m cdst c i n =
     (\<lambda>a. if i \<le> unat (a - cdst) \<and> unat (a - cdst) < n then c else m a)"
proof (induction m cdst c i n rule: memset_loop.induct)
  case (1 m cdst c i n)
  show ?case
  proof (cases "i < n")
    case True
    have "memset_loop m cdst c i n = memset_loop (m(cdst + of_nat i := c)) cdst c (Suc i) n"
      using True by (simp add: memset_loop.simps [of m cdst c i n])
    also have "\<dots> = (\<lambda>a. if Suc i \<le> unat (a - cdst) \<and> unat (a - cdst) < n then c
        else (m(cdst + of_nat i := c)) a)"
      by (rule "1.IH" [OF True "1.prems"])
    also have "\<dots> = (\<lambda>a. if i \<le> unat (a - cdst) \<and> unat (a - cdst) < n then c else m a)"
    proof
      fix a
      have "a = cdst + of_nat i \<longleftrightarrow> unat (a - cdst) = i"
        using True "1.prems" by (auto simp: unat_of_nat_le)
      then show "(if Suc i \<le> unat (a - cdst) \<and> unat (a - cdst) < n then c
          else (m(cdst + of_nat i := c)) a) =
          (if i \<le> unat (a - cdst) \<and> unat (a - cdst) < n then c else m a)"
        using True by auto
    qed
    finally show ?thesis .
  next
    case False
    then show ?thesis by (auto simp: memset_loop.simps [of m cdst c i n] fun_eq_iff)
  qed
qed

lemma memset_eq:
  "memset m dst c n = (\<lambda>a. if unat (a - dst) < unat n then ucast c else m a)"
  using memset_loop_eq [of "unat n" m dst "ucast c" 0] unat_u32_lt [of n]
  by (simp add: memset_def)

lemma memset_eq_store_bytes:
  "memset m dst c n = store_bytes m dst (replicate (unat n) (ucast c))"
  by (auto simp: memset_eq store_bytes_def)

section \<open>\<open>memmove\<close>\<close>

text \<open>The specification: the destination holds what the source held before the call.\<close>

definition copied :: "mem \<Rightarrow> u64 \<Rightarrow> u64 \<Rightarrow> nat \<Rightarrow> mem" where
  "copied m dst src n = store_bytes m dst (bytes_at m src n)"

lemma copied_apply:
  "copied m dst src n a = (if unat (a - dst) < n then m (src + (a - dst)) else m a)"
  by (simp add: copied_def store_bytes_def)

lemma copy_forward_copied:
  assumes "n < 2 ^ 64"
    and "\<And>i j. i < j \<Longrightarrow> j < n \<Longrightarrow> s + of_nat j \<noteq> d + of_nat i"
  shows "copy_forward m d s n = copied m d s n"
  using assms
proof (induction n arbitrary: m d s)
  case 0
  then show ?case by (simp add: copied_def)
next
  case (Suc n)
  let ?m = "m(d := m s)"
  have "copy_forward ?m (d + 1) (s + 1) n = copied ?m (d + 1) (s + 1) n"
  proof (rule Suc.IH)
    show "n < 2 ^ 64" using Suc.prems(1) by simp
    fix i j :: nat
    assume "i < j" "j < n"
    then have "s + of_nat (Suc j) \<noteq> d + of_nat (Suc i)" by (intro Suc.prems(2)) auto
    then show "s + 1 + of_nat j \<noteq> d + 1 + of_nat i" by (simp add: algebra_simps)
  qed
  also have "\<dots> = copied m d s (Suc n)"
  proof
    fix a
    show "copied ?m (d + 1) (s + 1) n a = copied m d s (Suc n) a"
    proof (cases "a = d")
      case True
      have "unat (- 1 :: u64) = 2 ^ 64 - 1"
        by (simp add: unsigned_minus_1_eq_mask mask_eq_exp_minus_1)
      with True Suc.prems(1) show ?thesis by (simp add: copied_apply)
    next
      case False
      then have off: "unat (a - d) = Suc (unat (a - (d + 1)))"
        using unat_minus_one [of "a - d"] by (simp add: algebra_simps)
          (metis Suc_pred right_minus_eq unat_gt_0)
      have "s + (a - d) \<noteq> d" if "unat (a - d) < Suc n"
        using Suc.prems(2) [of 0 "unat (a - d)"] that off by simp
      with False off show ?thesis by (auto simp: copied_apply algebra_simps)
    qed
  qed
  finally show ?case by simp
qed

lemma copy_backward_copied:
  assumes "n < 2 ^ 64"
    and "\<And>i j. i < j \<Longrightarrow> j < n \<Longrightarrow> s + of_nat i \<noteq> d + of_nat j"
  shows "copy_backward m (d + of_nat n) (s + of_nat n) n = copied m d s n"
  using assms
proof (induction n arbitrary: m)
  case 0
  then show ?case by (simp add: copied_def)
next
  case (Suc n)
  let ?m = "m(d + of_nat n := m (s + of_nat n))"
  have "copy_backward ?m (d + of_nat n) (s + of_nat n) n = copied ?m d s n"
    using Suc.prems by (intro Suc.IH) auto
  also have "\<dots> = copied m d s (Suc n)"
  proof
    fix a
    have at: "a = d + of_nat n \<longleftrightarrow> unat (a - d) = n"
      using Suc.prems(1) by (auto simp: unat_of_nat_le)
    have "s + (a - d) \<noteq> d + of_nat n" if "unat (a - d) < n"
      using Suc.prems(2) [of "unat (a - d)" n] that by simp
    with at show "copied ?m d s n a = copied m d s (Suc n) a"
      by (auto simp: copied_apply less_Suc_eq)
  qed
  finally show ?case by simp
qed

lemma memmove_copied:
  assumes "unat src + unat n < 2 ^ 64" and "unat dst + unat n \<le> 2 ^ 64"
  shows "memmove m dst src n = copied m dst src (unat n)"
proof -
  have n: "unat n < 2 ^ 64" using unat_u32_lt [of n] by simp
  have un: "unat (ucast n :: u64) = unat n"
    by (simp add: unat_ucast_up)
  have off: "unat (a + of_nat i) = unat a + i"
    if "i < unat n" "unat a + unat n \<le> 2 ^ 64" for a :: u64 and i
    using that n by (simp add: unat_word_ariths unat_of_nat_le)
  show ?thesis
  proof (cases "src < dst \<and> dst < src + ucast n")
    case True
    have "copy_backward m (dst + of_nat (unat n)) (src + of_nat (unat n)) (unat n)
        = copied m dst src (unat n)"
    proof (rule copy_backward_copied [OF n])
      fix i j
      assume ij: "i < j" "j < unat n"
      from True have "unat src < unat dst" by (simp add: word_less_nat_alt)
      then have "unat (src + of_nat i) \<noteq> unat (dst + of_nat j)"
        using ij assms by (simp add: off)
      then show "src + of_nat i \<noteq> dst + of_nat j" by metis
    qed
    with True show ?thesis by (simp add: memmove_def)
  next
    case False
    have "unat (src + ucast n) = unat src + unat n"
      using assms(1) by (simp add: unat_add_no_wrap un)
    with False have far: "unat dst \<le> unat src \<or> unat src + unat n \<le> unat dst"
      by (auto simp: word_less_nat_alt)
    have "copy_forward m dst src (unat n) = copied m dst src (unat n)"
    proof (rule copy_forward_copied [OF n])
      fix i j
      assume ij: "i < j" "j < unat n"
      then have "unat (src + of_nat j) \<noteq> unat (dst + of_nat i)"
        using far assms by (auto simp: off)
      then show "src + of_nat j \<noteq> dst + of_nat i" by metis
    qed
    with False show ?thesis by (auto simp: memmove_def)
  qed
qed

section \<open>\<open>memcmp\<close> and \<open>strncmp\<close>\<close>

lemma memcmp_loop_zero_iff:
  "memcmp_loop s1 s2 i n = 0 \<longleftrightarrow> (\<forall>k<n. s1 (i + k) = s2 (i + k))"
proof (induction n arbitrary: i)
  case 0
  then show ?case by simp
next
  case (Suc n)
  show ?case
    using Suc.IH [of "Suc i"] by (simp add: All_less_Suc2 word_uint_eq_iff [symmetric])
qed

lemma cstr_Suc:
  "takeWhile (\<lambda>c. c \<noteq> 0) (map s [i..<i + Suc n]) =
     (if s i \<noteq> 0 then s i # takeWhile (\<lambda>c. c \<noteq> 0) (map s [Suc i..<Suc i + n]) else [])"
  by (subst upt_conv_Cons) auto

lemma strncmp_loop_zero_iff:
  "strncmp_loop p q i n = 0 \<longleftrightarrow>
     takeWhile (\<lambda>c. c \<noteq> 0) (map p [i..<i + n]) = takeWhile (\<lambda>c. c \<noteq> 0) (map q [i..<i + n])"
proof (induction n arbitrary: i)
  case 0
  then show ?case by simp
next
  case (Suc n)
  show ?case
  proof (cases "p i = q i")
    case True
    then show ?thesis
      unfolding cstr_Suc strncmp_loop.simps using Suc.IH [of "Suc i"] by simp
  next
    case False
    then have "uint (p i) \<noteq> uint (q i)" by (metis word_uint_eqI)
    with False show ?thesis
      unfolding cstr_Suc strncmp_loop.simps by auto
  qed
qed

lemma strncmp_zero_iff: "strncmp p q n = 0 \<longleftrightarrow> cstr (unat n) p = cstr (unat n) q"
  using strncmp_loop_zero_iff [of p q 0 "unat n"] by (simp add: strncmp_def cstr_def)

section \<open>\<open>strncpy\<close>, \<open>safestrcpy\<close>, \<open>strlen\<close>\<close>

lemma strncpy_pad_eq: "strncpy_pad s i n j = (if i \<le> j \<and> j < i + n then 0 else s j)"
  by (induction n arbitrary: s i) auto

definition strncpy_run :: "carray \<Rightarrow> carray \<Rightarrow> nat \<Rightarrow> nat \<Rightarrow> carray" where
  "strncpy_run s t i n = (let (s', j, k) = strncpy_copy s t i n in strncpy_pad s' j k)"

lemma strncpy_run_Suc:
  "strncpy_run s t i (Suc n) =
     (if t i = 0 then strncpy_pad (s(i := 0)) (Suc i) n else strncpy_run (s(i := t i)) t (Suc i) n)"
  by (simp add: strncpy_run_def)

lemma strncpy_run_eq:
  "strncpy_run s t i n x =
     (if i \<le> x \<and> x < i + n then (if \<exists>k\<ge>i. k \<le> x \<and> t k = 0 then 0 else t x) else s x)"
proof (induction n arbitrary: s i)
  case 0
  then show ?case by (auto simp: strncpy_run_def)
next
  case (Suc n)
  show ?case
  proof (cases "t i = 0")
    case True
    then show ?thesis by (auto simp: strncpy_run_Suc strncpy_pad_eq)
  next
    case False
    have "(\<exists>k\<ge>Suc i. k \<le> x \<and> t k = 0) \<longleftrightarrow> (\<exists>k\<ge>i. k \<le> x \<and> t k = 0)"
      using False by (metis Suc_leD le_antisym not_less_eq_eq)
    with False show ?thesis by (simp add: strncpy_run_Suc Suc.IH) auto
  qed
qed

text \<open>The contents of the destination afterwards: \<open>t\<close> up to its NUL, zeros up to
  \<open>n\<close>, the old bytes after that.\<close>

lemma strncpy_eq:
  "strncpy s t n x =
     (if int x < n then (if \<exists>k\<le>x. t k = 0 then 0 else t x) else s x)"
  using strncpy_run_eq [of s t 0 "nat n" x]
  by (simp add: strncpy_def strncpy_run_def zless_nat_eq_int_zless)

lemma cstr_cong: "(\<And>i. i < n \<Longrightarrow> (\<forall>j<i. t j \<noteq> 0) \<Longrightarrow> s i = t i) \<Longrightarrow> cstr n s = cstr n t"
proof (induction n)
  case 0
  then show ?case by (simp add: cstr_def)
next
  case (Suc n)
  then have IH: "cstr n s = cstr n t" by simp
  show ?case
  proof (cases "\<forall>j<n. t j \<noteq> 0")
    case True
    then have "\<forall>i\<le>n. s i = t i" using Suc.prems by simp
    then have "map s [0..<Suc n] = map t [0..<Suc n]" by (auto simp: less_Suc_eq_le)
    then show ?thesis by (simp only: cstr_def)
  next
    case False
    then have "\<exists>c\<in>set (map t [0..<n]). c = 0" by auto
    moreover have "\<exists>c\<in>set (map s [0..<n]). c = 0"
    proof -
      from False obtain j where j: "j < n" "t j = 0" "\<forall>k<j. t k \<noteq> 0"
        using exists_least_iff [of "\<lambda>j. j < n \<and> t j = 0"] by (metis less_trans)
      then have "s j = 0" using Suc.prems by simp
      with j show ?thesis by force
    qed
    ultimately show ?thesis using IH by (auto simp: cstr_def takeWhile_append1)
  qed
qed

lemma cstr_strncpy: "cstr (nat n) (strncpy s t n) = cstr (nat n) t"
  by (rule cstr_cong) (auto simp: strncpy_eq le_eq_less_or_eq)

lemma safestrcpy_copy_pos: "safestrcpy_copy s t i n = (s', j) \<Longrightarrow> i \<le> j \<and> j \<le> i + n"
  by (induction n arbitrary: s i) (force split: if_splits)+

lemma safestrcpy_copy_frame:
  "safestrcpy_copy s t i n = (s', j) \<Longrightarrow> x < i \<or> j \<le> x \<Longrightarrow> s' x = s x"
proof (induction n arbitrary: s i)
  case 0
  then show ?case by simp
next
  case (Suc n)
  show ?case
  proof (cases "t i = 0")
    case True
    with Suc.prems show ?thesis by auto
  next
    case False
    with Suc.prems have c: "safestrcpy_copy (s(i := t i)) t (Suc i) n = (s', j)" by simp
    from Suc.IH [OF this] Suc.prems(2) safestrcpy_copy_pos [OF c] show ?thesis by auto
  qed
qed

lemma safestrcpy_copy_result:
  "safestrcpy_copy s t i n = (s', j) \<Longrightarrow>
   \<exists>k\<ge>i. k \<le> j \<and> (\<forall>x. i \<le> x \<and> x < k \<longrightarrow> s' x = t x \<and> t x \<noteq> 0) \<and>
     (k = j \<and> k = i + n \<or> j = Suc k \<and> s' k = 0 \<and> t k = 0)"
proof (induction n arbitrary: s i)
  case 0
  then show ?case by auto
next
  case (Suc n)
  show ?case
  proof (cases "t i = 0")
    case True
    with Suc.prems show ?thesis by (intro exI [of _ i]) auto
  next
    case False
    with Suc.prems have c: "safestrcpy_copy (s(i := t i)) t (Suc i) n = (s', j)" by simp
    from Suc.IH [OF this] obtain k where k: "Suc i \<le> k" "k \<le> j"
      "\<forall>x. Suc i \<le> x \<and> x < k \<longrightarrow> s' x = t x \<and> t x \<noteq> 0"
      "k = j \<and> k = Suc i + n \<or> j = Suc k \<and> s' k = 0 \<and> t k = 0" by blast
    have "s' i = t i" using safestrcpy_copy_frame [OF c, of i] by simp
    with k False have "\<forall>x. i \<le> x \<and> x < k \<longrightarrow> s' x = t x \<and> t x \<noteq> 0"
      by (metis Suc_leI le_neq_implies_less)
    with k show ?thesis by (intro exI [of _ k]) auto
  qed
qed

lemma safestrcpy_result:
  assumes "0 < n"
  shows "\<exists>k. int k < n \<and> safestrcpy s t n k = 0 \<and> (int k = n - 1 \<or> t k = 0) \<and>
    (\<forall>x<k. safestrcpy s t n x = t x \<and> t x \<noteq> 0)"
proof -
  obtain s' j where c: "safestrcpy_copy s t 0 (nat (n - 1)) = (s', j)" by fastforce
  from safestrcpy_copy_result [OF this] obtain k where k: "k \<le> j"
    "\<forall>x<k. s' x = t x \<and> t x \<noteq> 0"
    "k = j \<and> k = nat (n - 1) \<or> j = Suc k \<and> s' k = 0 \<and> t k = 0" by auto
  moreover have "j \<le> nat (n - 1)" using safestrcpy_copy_pos [OF c] by simp
  moreover have "safestrcpy s t n = s'(j := 0)" using assms c by (simp add: safestrcpy_def)
  ultimately show ?thesis using assms by (intro exI [of _ k]) auto
qed

lemma safestrcpy_frame:
  assumes "n \<le> int x"
  shows "safestrcpy s t n x = s x"
proof -
  obtain s' j where c: "safestrcpy_copy s t 0 (nat (n - 1)) = (s', j)" by fastforce
  with safestrcpy_copy_pos [OF c] safestrcpy_copy_frame [OF c, of x] assms
  show ?thesis by (auto simp: safestrcpy_def)
qed

lemma strlen_loop_stops:
  "s (n + k) = 0 \<Longrightarrow> (\<And>i. i < k \<Longrightarrow> s (n + i) \<noteq> 0) \<Longrightarrow> strlen_loop s n = Some (n + k)"
proof (induction k arbitrary: n)
  case 0
  then show ?case by (simp add: strlen_loop.simps)
next
  case (Suc k)
  from Suc.prems(2) [of 0] have "s n \<noteq> 0" by simp
  moreover have "strlen_loop s (Suc n) = Some (Suc n + k)"
    using Suc.prems(1) Suc.prems(2) [of "Suc i" for i] by (intro Suc.IH) auto
  ultimately show ?case by (simp add: strlen_loop.simps)
qed

lemma strlen_Some: "s k = 0 \<Longrightarrow> (\<And>i. i < k \<Longrightarrow> s i \<noteq> 0) \<Longrightarrow> strlen s = Some k"
  using strlen_loop_stops [of s 0 k] by (simp add: strlen_def)

section \<open>Properties\<close>

text \<open>Property C27. \<open>memmove\<close> is correct for overlapping arguments: whatever the position of
  the two runs, the destination ends up holding the bytes the source held before the call,
  and no other byte of memory changes.\<close>

theorem memmove_correct:
  assumes "unat src + unat n < 2 ^ 64" and "unat dst + unat n \<le> 2 ^ 64"
  shows "memmove m dst src n a =
    (if unat (a - dst) < unat n then m (src + (a - dst)) else m a)"
  by (simp add: memmove_copied [OF assms] copied_apply)

theorem memmove_correct_witness:
  "memmove (\<lambda>a. ucast a) 102 100 4 104 = 102 \<and> memmove (\<lambda>a. ucast a) 102 100 4 106 = 106"
  using memmove_correct [of 100 4 102 "\<lambda>a. ucast a" 104]
    memmove_correct [of 100 4 102 "\<lambda>a. ucast a" 106] by simp

text \<open>\<open>strncmp\<close> returns zero exactly when the two arguments hold the same C
  string, cut at \<open>n\<close> bytes.\<close>

theorem strncmp_correct: "strncmp p q n = 0 \<longleftrightarrow> cstr (unat n) p = cstr (unat n) q"
  by (rule strncmp_zero_iff)

text \<open>\<open>safestrcpy\<close> always leaves a NUL-terminated string in the buffer: the
  result is a prefix of the source string, cut to fit \<open>n - 1\<close> bytes, and nothing past the
  first \<open>n\<close> bytes is written.\<close>

theorem safestrcpy_correct:
  assumes "0 < n"
  shows "\<exists>k. int k < n \<and> safestrcpy s t n k = 0 \<and> (int k = n - 1 \<or> t k = 0) \<and>
    (\<forall>x. x < k \<longrightarrow> safestrcpy s t n x = t x \<and> t x \<noteq> 0) \<and>
    (\<forall>x. n \<le> int x \<longrightarrow> safestrcpy s t n x = s x)"
  using safestrcpy_result [OF assms, of s t] safestrcpy_frame [of n _ s t] by fast

theorem safestrcpy_correct_witness:
  "\<exists>k. int k < 3 \<and> safestrcpy (\<lambda>_. 9) (\<lambda>i. of_nat (i + 1)) 3 k = 0 \<and>
    safestrcpy (\<lambda>_. 9) (\<lambda>i. of_nat (i + 1)) 3 5 = 9"
proof -
  obtain k where "int k < 3 \<and> safestrcpy (\<lambda>_. 9) (\<lambda>i. of_nat (i + 1)) 3 k = 0 \<and>
    (\<forall>x. 3 \<le> int x \<longrightarrow> safestrcpy (\<lambda>_. 9) (\<lambda>i. of_nat (i + 1)) 3 x = 9)"
    using safestrcpy_correct [of 3 "\<lambda>_. 9" "\<lambda>i. of_nat (i + 1)"] by auto
  then show ?thesis by (intro exI [of _ k]) auto
qed

end
