(* ===== verification/Riscv.thy ===== *)
theory Riscv
  imports Prelude
begin

text \<open>
  The constants and macros of \<open>kernel/riscv.h\<close> (Sv39 page tables, page rounding, the
  \<open>sstatus\<close> bits) and \<open>kernel/memlayout.h\<close> (the physical and virtual memory
  layout), with what they compute on the unsigned value of an address.
\<close>

section \<open>Definitions\<close>

abbreviation (input) PGSIZE :: u64 where "PGSIZE \<equiv> 4096"
abbreviation (input) PGSHIFT :: nat where "PGSHIFT \<equiv> 12"

definition PGROUNDUP :: "u64 \<Rightarrow> u64" where
  "PGROUNDUP sz = (sz + PGSIZE - 1) AND NOT (PGSIZE - 1)"

definition PGROUNDDOWN :: "u64 \<Rightarrow> u64" where
  "PGROUNDDOWN a = a AND NOT (PGSIZE - 1)"

abbreviation (input) PTE_V :: u64 where "PTE_V \<equiv> 1"
abbreviation (input) PTE_R :: u64 where "PTE_R \<equiv> 2"
abbreviation (input) PTE_W :: u64 where "PTE_W \<equiv> 4"
abbreviation (input) PTE_X :: u64 where "PTE_X \<equiv> 8"
abbreviation (input) PTE_U :: u64 where "PTE_U \<equiv> 16"

definition PA2PTE :: "u64 \<Rightarrow> u64" where
  "PA2PTE pa = push_bit 10 (drop_bit 12 pa)"

definition PTE2PA :: "u64 \<Rightarrow> u64" where
  "PTE2PA pte = push_bit 12 (drop_bit 10 pte)"

definition PTE_FLAGS :: "u64 \<Rightarrow> u64" where
  "PTE_FLAGS pte = pte AND 0x3FF"

definition PXSHIFT :: "nat \<Rightarrow> nat" where
  "PXSHIFT level = PGSHIFT + 9 * level"

definition PX :: "nat \<Rightarrow> u64 \<Rightarrow> u64" where
  "PX level va = drop_bit (PXSHIFT level) va AND 0x1FF"

abbreviation (input) MAXVA :: u64 where "MAXVA \<equiv> 0x4000000000"

definition MAKE_SATP :: "u64 \<Rightarrow> u64" where
  "MAKE_SATP pagetable = push_bit 60 8 OR drop_bit 12 pagetable"

abbreviation (input) SSTATUS_SPP :: u64 where "SSTATUS_SPP \<equiv> 0x100"
abbreviation (input) SSTATUS_SPIE :: u64 where "SSTATUS_SPIE \<equiv> 0x20"
abbreviation (input) SSTATUS_SIE :: u64 where "SSTATUS_SIE \<equiv> 2"

abbreviation (input) UART0 :: u64 where "UART0 \<equiv> 0x10000000"
abbreviation (input) UART0_IRQ :: u32 where "UART0_IRQ \<equiv> 10"
abbreviation (input) VIRTIO0 :: u64 where "VIRTIO0 \<equiv> 0x10001000"
abbreviation (input) VIRTIO0_IRQ :: u32 where "VIRTIO0_IRQ \<equiv> 1"
abbreviation (input) CLINT :: u64 where "CLINT \<equiv> 0x2000000"
abbreviation (input) PLIC :: u64 where "PLIC \<equiv> 0x0c000000"
abbreviation (input) KERNBASE :: u64 where "KERNBASE \<equiv> 0x80000000"
abbreviation (input) PHYSTOP :: u64 where "PHYSTOP \<equiv> 0x88000000"
abbreviation (input) TRAMPOLINE :: u64 where "TRAMPOLINE \<equiv> MAXVA - PGSIZE"
abbreviation (input) TRAPFRAME :: u64 where "TRAPFRAME \<equiv> TRAMPOLINE - PGSIZE"

definition KSTACK :: "nat \<Rightarrow> u64" where
  "KSTACK p = TRAMPOLINE - of_nat (p + 1) * 2 * PGSIZE"

definition page_aligned :: "u64 \<Rightarrow> bool" where
  "page_aligned a \<longleftrightarrow> a mod PGSIZE = 0"

section \<open>Masks and shifts as arithmetic\<close>

lemma unat_and_mask: "unat (a AND mask n :: 'a::len word) = unat a mod 2 ^ n"
  by (simp only: take_bit_eq_mask [symmetric] unsigned_take_bit_eq) (simp add: take_bit_eq_mod)

lemma and_not_eq_minus: "a AND NOT b = a - (a AND (b :: 'a::len word))"
proof -
  have "(a AND NOT b) AND (a AND b) = 0"
    by (rule bit_word_eqI) (auto simp: bit_simps)
  then have "(a AND NOT b) + (a AND b) = (a AND NOT b) OR (a AND b)"
    by (rule disjunctive_add_eq_or)
  also have "\<dots> = a" by (rule bit_word_eqI) (auto simp: bit_simps)
  finally show ?thesis by (simp add: algebra_simps)
qed

lemma unat_and_not_mask:
  "unat (a AND NOT (mask n) :: 'a::len word) = unat a - unat a mod 2 ^ n"
proof -
  have "a AND mask n \<le> a" by (rule word_and_le2)
  then show ?thesis by (simp add: and_not_eq_minus unat_sub unat_and_mask)
qed

lemma unat_push_drop:
  assumes "m \<le> n"
  shows "unat (push_bit m (drop_bit n (a :: 'a::len word))) = unat a div 2 ^ n * 2 ^ m"
proof -
  have "unat a div 2 ^ n * 2 ^ m \<le> unat a div 2 ^ n * 2 ^ n"
    using assms by (simp add: power_increasing)
  also have "\<dots> \<le> unat a" by simp
  also have "\<dots> < 2 ^ LENGTH('a)" by (rule unsigned_less)
  finally have "unat a div 2 ^ n * 2 ^ m < 2 ^ LENGTH('a)" .
  moreover have "take_bit LENGTH('a) (unat a) = unat a"
    by (simp add: take_bit_nat_eq_self unsigned_less)
  ultimately show ?thesis
    by (simp only: unsigned_push_bit_eq unsigned_drop_bit_eq)
      (simp add: drop_bit_eq_div push_bit_eq_mult take_bit_nat_eq_self)
qed

lemma unat_drop: "unat (drop_bit n (a :: 'a::len word)) = unat a div 2 ^ n"
  using unat_push_drop [of 0 n a] by simp

lemma mask_numerals:
  "(4095 :: u64) = mask 12" "(511 :: u64) = mask 9" "(1023 :: u64) = mask 10"
  by (simp_all add: mask_eq_exp_minus_1)

section \<open>Page rounding\<close>

lemma page_aligned_unat: "page_aligned a \<longleftrightarrow> unat a mod 4096 = 0"
  by (simp add: page_aligned_def unat_mod unat_eq_zero [symmetric] del: unat_eq_zero)

lemma unat_PGROUNDDOWN: "unat (PGROUNDDOWN a) = unat a - unat a mod 4096"
  unfolding PGROUNDDOWN_def using unat_and_not_mask [of a 12] by (simp add: mask_numerals)

lemma unat_PGROUNDUP:
  assumes "unat sz + 4095 < 2 ^ 64"
  shows "unat (PGROUNDUP sz) = (unat sz + 4095) div 4096 * 4096"
proof -
  have "unat (sz + 4095) = unat sz + 4095"
    using assms unat_add_no_wrap [of sz 4095] by simp
  then have "unat ((sz + 4095) AND NOT (mask 12)) = (unat sz + 4095) div 4096 * 4096"
    by (simp add: unat_and_not_mask minus_mod_eq_div_mult)
  then show ?thesis
    by (simp add: PGROUNDUP_def mask_numerals algebra_simps)
qed

lemma page_aligned_PGROUNDDOWN [simp]: "page_aligned (PGROUNDDOWN a)"
  by (simp add: page_aligned_unat unat_PGROUNDDOWN minus_mod_eq_div_mult)

lemma PGROUNDDOWN_aligned: "page_aligned a \<Longrightarrow> PGROUNDDOWN a = a"
  by (simp add: word_unat_eq_iff page_aligned_unat unat_PGROUNDDOWN)

lemma PGROUNDDOWN_le: "PGROUNDDOWN a \<le> a"
  by (simp add: word_le_nat_alt unat_PGROUNDDOWN)

lemma unat_page_offset: "unat (a - PGROUNDDOWN a) = unat a mod 4096"
  using unat_sub [OF PGROUNDDOWN_le [of a]] by (simp add: unat_PGROUNDDOWN)

lemma page_aligned_PGROUNDUP:
  "unat sz + 4095 < 2 ^ 64 \<Longrightarrow> page_aligned (PGROUNDUP sz)"
  by (simp add: page_aligned_unat unat_PGROUNDUP)

section \<open>Page-table entries\<close>

lemma bit_less_exp:
  assumes "unat (f :: 'a::len word) < 2 ^ n" and "bit f k"
  shows "k < n"
proof -
  have "unat (take_bit n f) = unat f"
    using assms(1) by (simp only: unsigned_take_bit_eq take_bit_nat_eq_self)
  then have "take_bit n f = f" by (simp only: word_unat_eq_iff)
  with assms(2) show ?thesis by (metis bit_take_bit_iff)
qed

lemma unat_PA2PTE: "unat (PA2PTE pa) = unat pa div 4096 * 1024"
  using unat_push_drop [of 10 12 pa] by (simp add: PA2PTE_def)

lemma unat_PA2PTE_or:
  assumes "f < 1024"
  shows "unat (PA2PTE pa OR f) = unat pa div 4096 * 1024 + unat f"
proof -
  have "unat f < 2 ^ 10" using assms by (simp add: word_less_nat_alt)
  note low = bit_less_exp [OF this]
  have "PA2PTE pa AND f = 0"
    by (rule bit_word_eqI) (auto simp: PA2PTE_def bit_simps dest: low)
  then have "PA2PTE pa OR f = PA2PTE pa + f"
    by (simp add: disjunctive_add_eq_or)
  moreover have "unat pa div 4096 * 1024 + unat f < 2 ^ 64"
    using \<open>unat f < 2 ^ 10\<close> unat_u64_lt [of pa] by simp
  ultimately show ?thesis by (simp add: unat_add_no_wrap unat_PA2PTE)
qed

lemma PTE2PA_PA2PTE:
  assumes "page_aligned pa" and "f < 1024"
  shows "PTE2PA (PA2PTE pa OR f) = pa"
proof -
  have "unat f < 1024" using assms(2) by (simp add: word_less_nat_alt)
  then have "unat (drop_bit 10 (PA2PTE pa OR f)) = unat pa div 4096"
    by (simp only: unat_drop unat_PA2PTE_or [OF assms(2)]) simp
  then have "drop_bit 10 (PA2PTE pa OR f) = drop_bit 12 pa"
    by (simp only: word_unat_eq_iff unat_drop) simp
  then have "unat (PTE2PA (PA2PTE pa OR f)) = unat pa div 4096 * 4096"
    using unat_push_drop [of 12 12 pa] by (simp add: PTE2PA_def)
  with assms(1) show ?thesis
    by (simp add: word_unat_eq_iff page_aligned_unat mod_0_imp_dvd)
qed

lemma PTE_FLAGS_PA2PTE:
  assumes "f < 1024"
  shows "PTE_FLAGS (PA2PTE pa OR f) = f"
proof -
  have "unat f < 1024" using assms by (simp add: word_less_nat_alt)
  moreover have "PTE_FLAGS (PA2PTE pa OR f) = (PA2PTE pa OR f) AND mask 10"
    by (simp add: PTE_FLAGS_def mask_numerals)
  ultimately have "unat (PTE_FLAGS (PA2PTE pa OR f)) = unat f"
    by (simp only: unat_and_mask) (simp add: unat_PA2PTE_or [OF assms])
  then show ?thesis by (simp add: word_unat_eq_iff)
qed

lemma page_aligned_PTE2PA [simp]: "page_aligned (PTE2PA pte)"
proof -
  have "unat (push_bit 12 (drop_bit 10 pte)) =
      unat (drop_bit 10 pte) * 4096 mod 18446744073709551616"
    by (simp only: unsigned_push_bit_eq) (simp add: take_bit_eq_mod push_bit_eq_mult)
  then show ?thesis by (simp add: page_aligned_unat PTE2PA_def mod_mod_cancel)
qed

section \<open>Page-table indices\<close>

lemma unat_PX: "unat (PX level va) = unat va div 2 ^ (12 + 9 * level) mod 512"
  using unat_and_mask [of "drop_bit (PXSHIFT level) va" 9]
  by (simp add: PX_def mask_numerals PXSHIFT_def unat_drop)

lemma PX_bound: "unat (PX level va) < 512"
  by (simp add: unat_PX)

lemma unat_PX_page: "unat (PX level va) = unat va div 4096 div 2 ^ (9 * level) mod 512"
  by (simp add: unat_PX power_add div_mult2_eq)

text \<open>Below \<open>MAXVA\<close> the three indices determine the page.\<close>

lemma unat_va_decomp:
  assumes "va < MAXVA"
  shows "unat va = unat (PX 2 va) * 1073741824 + unat (PX 1 va) * 2097152 +
     unat (PX 0 va) * 4096 + unat va mod 4096"
proof -
  let ?p = "unat va div 4096"
  have "?p < 67108864" using assms by (simp add: word_less_nat_alt)
  then have "?p div 512 div 512 < 512" by simp
  moreover have "unat (PX 0 va) = ?p mod 512" "unat (PX 1 va) = ?p div 512 mod 512"
    "unat (PX 2 va) = ?p div 512 div 512 mod 512"
    by (simp_all add: unat_PX div_mult2_eq [symmetric])
  moreover have "unat va = ?p * 4096 + unat va mod 4096" by simp
  moreover have "?p = ?p div 512 * 512 + ?p mod 512" by simp
  moreover have "?p div 512 = ?p div 512 div 512 * 512 + ?p div 512 mod 512" by simp
  ultimately show ?thesis by (simp only: mod_less)
qed

lemma PX_inject:
  assumes "va < MAXVA" and "va' < MAXVA" and "PX 2 va = PX 2 va'" and "PX 1 va = PX 1 va'"
    and "PX 0 va = PX 0 va'" and "page_aligned va" and "page_aligned va'"
  shows "va = va'"
  using unat_va_decomp [OF assms(1)] unat_va_decomp [OF assms(2)] assms(3-7)
  by (simp add: word_unat_eq_iff page_aligned_unat)

section \<open>Properties\<close>

text \<open>Building a page-table entry from a page-aligned physical address and flag
  bits loses nothing: \<open>PTE2PA\<close> gives the address back and \<open>PTE_FLAGS\<close> the
  flags.\<close>

theorem pte_round_trip:
  assumes "page_aligned pa" and "f < 1024" and "pa < 2 ^ 56"
  shows "PTE2PA (PA2PTE pa OR f) = pa \<and> PTE_FLAGS (PA2PTE pa OR f) = f"
  by (simp add: PTE2PA_PA2PTE PTE_FLAGS_PA2PTE assms)

theorem pte_round_trip_witness:
  "PTE2PA (PA2PTE 0x80001000 OR 15) = 0x80001000 \<and> PTE_FLAGS (PA2PTE 0x80001000 OR 15) = 15"
  using pte_round_trip [of "0x80001000" 15] by (simp add: page_aligned_def)

end
