(* ===== verification/Kalloc.thy ===== *)
theory Kalloc
  imports CString Riscv
begin

text \<open>
  \<open>kernel/kalloc.c\<close>, the physical page allocator. The free list is threaded through the
  free pages themselves (\<open>struct run\<close>), so the state is the byte memory and the head of
  the list. \<open>kend\<close> is the linker's symbol \<open>end\<close>, the first address after the
  kernel. \<open>kmem.lock\<close> makes each of \<open>kfree\<close> and \<open>kalloc\<close> one atomic
  step, so the model of each is a function of the state.
\<close>

section \<open>Definitions\<close>

record kmem =
  pmem :: mem
  freelist :: u64
  kend :: u64

definition kfree :: "u64 \<Rightarrow> 'z kmem_scheme \<Rightarrow> 'z kmem_scheme res" where
  "kfree pa s =
     (if pa mod PGSIZE \<noteq> 0 \<or> pa < kend s \<or> PHYSTOP \<le> pa then Inl (Panic ''kfree'')
      else let m = memset (pmem s) pa 1 (ucast PGSIZE)
           in Inr (s\<lparr>pmem := store64 m pa (freelist s), freelist := pa\<rparr>))"

definition kalloc :: "'z kmem_scheme \<Rightarrow> u64 \<times> 'z kmem_scheme" where
  "kalloc s =
     (let r = freelist s;
          s1 = (if r \<noteq> 0 then s\<lparr>freelist := load64 (pmem s) r\<rparr> else s);
          s2 = (if r \<noteq> 0 then s1\<lparr>pmem := memset (pmem s1) r 5 (ucast PGSIZE)\<rparr> else s1)
      in (r, s2))"

text \<open>The loop of \<open>freerange\<close>; the pointer sum \<open>p + PGSIZE\<close> does not wrap, so
  the comparison is made on the unsigned values.\<close>

function freerange_loop :: "u64 \<Rightarrow> u64 \<Rightarrow> 'z kmem_scheme \<Rightarrow> 'z kmem_scheme res" where
  "freerange_loop p pa_end s =
     (if unat p + 4096 \<le> unat pa_end
      then bindR (kfree p s) (\<lambda>s'. freerange_loop (p + PGSIZE) pa_end s')
      else Inr s)"
  by pat_completeness auto
termination
proof (relation "measure (\<lambda>(p, pa_end, s). unat pa_end - unat p)", goal_cases)
  case (2 p pa_end s)
  then have "unat (p + 4096) = unat p + 4096"
    using unat_u64_lt [of pa_end] unat_add_no_wrap [of p 4096] by simp
  with 2 show ?case by simp
qed simp

declare freerange_loop.simps [simp del]

definition freerange :: "u64 \<Rightarrow> u64 \<Rightarrow> 'z kmem_scheme \<Rightarrow> 'z kmem_scheme res" where
  "freerange pa_start pa_end s = freerange_loop (PGROUNDUP pa_start) pa_end s"

definition kinit :: "'z kmem_scheme \<Rightarrow> 'z kmem_scheme res" where
  "kinit s = freerange (kend s) PHYSTOP s"

section \<open>The invariant\<close>

text \<open>A page the allocator may hand out.\<close>

definition valid_page :: "u64 \<Rightarrow> u64 \<Rightarrow> bool" where
  "valid_page e p \<longleftrightarrow> page_aligned p \<and> e \<le> p \<and> p < PHYSTOP"

text \<open>\<open>free_chain m p ps\<close>: following the \<open>next\<close> links from \<open>p\<close> visits exactly
  the pages \<open>ps\<close> and ends at the null pointer.\<close>

fun free_chain :: "mem \<Rightarrow> u64 \<Rightarrow> u64 list \<Rightarrow> bool" where
  "free_chain m p [] \<longleftrightarrow> p = 0"
| "free_chain m p (x # xs) \<longleftrightarrow> p = x \<and> x \<noteq> 0 \<and> free_chain m (load64 m x) xs"

text \<open>\<open>kmem_inv s ps\<close>: the free list of \<open>s\<close> is \<open>ps\<close>, without repetition, and
  every page on it is one the allocator may hand out.\<close>

definition kmem_inv :: "'z kmem_scheme \<Rightarrow> u64 list \<Rightarrow> bool" where
  "kmem_inv s ps \<longleftrightarrow>
     free_chain (pmem s) (freelist s) ps \<and> distinct ps \<and>
     (\<forall>p\<in>set ps. valid_page (kend s) p) \<and> 0 < kend s"

section \<open>Pages\<close>

definition in_page :: "u64 \<Rightarrow> u64 \<Rightarrow> bool" where
  "in_page p a \<longleftrightarrow> unat (a - p) < 4096"

lemma in_page_self [simp]: "in_page p p"
  by (simp add: in_page_def)

lemma page_alignedE:
  assumes "page_aligned p"
  obtains k where "unat p = 4096 * k" and "k < 4503599627370496"
proof -
  from assms have "4096 dvd unat p" by (simp add: page_aligned_unat mod_0_imp_dvd)
  then obtain k where k: "unat p = 4096 * k" ..
  moreover have "k < 4503599627370496" using unat_u64_lt [of p] k by simp
  ultimately show ?thesis using that by blast
qed

lemma unat_aligned_add:
  assumes "page_aligned p" and "i < 4096"
  shows "unat (p + of_nat i) = unat p + i"
proof -
  obtain k where "unat p = 4096 * k" "k < 4503599627370496"
    using assms(1) by (rule page_alignedE)
  with assms(2) have "unat p + i < 2 ^ 64" by simp
  with assms(2) show ?thesis by (simp add: unat_add_no_wrap unat_of_nat_le)
qed

lemma in_page_iff:
  assumes "page_aligned p"
  shows "in_page p a \<longleftrightarrow> unat a div 4096 = unat p div 4096"
proof -
  obtain k where k: "unat p = 4096 * k" using assms by (rule page_alignedE)
  show ?thesis
  proof
    assume "in_page p a"
    then have "unat a = unat p + unat (a - p)"
      using unat_aligned_add [OF assms, of "unat (a - p)"] by (simp add: in_page_def)
    with \<open>in_page p a\<close> k show "unat a div 4096 = unat p div 4096"
      by (simp add: in_page_def)
  next
    assume same: "unat a div 4096 = unat p div 4096"
    then have "unat a = unat p + unat a mod 4096"
      using k div_mult_mod_eq [of "unat a" 4096] by simp
    moreover from this have "p \<le> a" by (simp add: word_le_nat_alt)
    ultimately have "unat (a - p) = unat a mod 4096" by (simp add: unat_sub)
    then show "in_page p a" by (simp add: in_page_def)
  qed
qed

lemma in_page_unique:
  assumes "page_aligned p" and "page_aligned q" and "in_page p a" and "in_page q a"
  shows "p = q"
proof -
  obtain k j where "unat p = 4096 * k" "unat q = 4096 * j"
    using assms(1,2) by (metis page_alignedE)
  with assms show ?thesis by (simp add: in_page_iff word_unat_eq_iff)
qed

lemma in_page_offset: "i < 4096 \<Longrightarrow> in_page p (p + of_nat i)"
  by (simp add: in_page_def unat_of_nat_le)

lemma in_page_word_offset:
  assumes "i < 512" and "k < 8"
  shows "in_page p (p + of_nat (8 * i) + of_nat k)"
proof -
  have "p + of_nat (8 * i) + of_nat k = p + of_nat (8 * i + k)" by simp
  moreover have "8 * i + k < 4096" using assms by simp
  ultimately show ?thesis by (metis in_page_offset)
qed

text \<open>Memories that agree on a page agree on every word of it.\<close>

lemma load64_page_cong:
  assumes "\<And>a. in_page p a \<Longrightarrow> m a = m' a" and "i < 512"
  shows "load64 m (p + of_nat (8 * i)) = load64 m' (p + of_nat (8 * i))"
  by (rule load64_cong) (simp only: assms in_page_word_offset)

lemma load64_page_cong0:
  "(\<And>a. in_page p a \<Longrightarrow> m a = m' a) \<Longrightarrow> load64 m p = load64 m' p"
  using load64_page_cong [of p m m' 0] by simp

lemma store64_outside_page:
  assumes "i < 512" and "\<not> in_page p a"
  shows "store64 m (p + of_nat (8 * i)) v a = m a"
proof (rule store64_other, rule ccontr)
  assume "\<not> 8 \<le> unat (a - (p + of_nat (8 * i)))"
  then have "in_page p (p + of_nat (8 * i) + of_nat (unat (a - (p + of_nat (8 * i)))))"
    using assms(1) by (intro in_page_word_offset) auto
  with assms(2) show False by simp
qed

lemma store64_outside_page0: "\<not> in_page p a \<Longrightarrow> store64 m p v a = m a"
  using store64_outside_page [of 0 p a m v] by simp

lemma ucast_fill: "ucast (1::u32) = (1::byte)" "ucast (5::u32) = (5::byte)"
  by code_simp+

lemma memset_page:
  "memset m p c 4096 = (\<lambda>a. if in_page p a then ucast c else m a)"
  by (simp add: memset_eq in_page_def)

section \<open>The free list\<close>

lemma free_chain_cong:
  "(\<And>x a. x \<in> set ps \<Longrightarrow> in_page x a \<Longrightarrow> m a = m' a) \<Longrightarrow>
   free_chain m p ps \<longleftrightarrow> free_chain m' p ps"
proof (induction ps arbitrary: p)
  case Nil
  then show ?case by simp
next
  case (Cons x xs)
  have "load64 m x = load64 m' x" by (rule load64_page_cong0, rule Cons.prems) simp_all
  moreover have "free_chain m q xs \<longleftrightarrow> free_chain m' q xs" for q
    by (rule Cons.IH, rule Cons.prems) simp_all
  ultimately show ?case by simp
qed

lemma valid_page_iff:
  "valid_page e p \<longleftrightarrow> \<not> (p mod PGSIZE \<noteq> 0 \<or> p < e \<or> PHYSTOP \<le> p)"
  by (auto simp: valid_page_def page_aligned_def not_less not_le)

lemma kmem_inv_valid: "kmem_inv s ps \<Longrightarrow> p \<in> set ps \<Longrightarrow> valid_page (kend s) p"
  by (simp add: kmem_inv_def)

lemma kmem_inv_frame:
  assumes "kmem_inv s ps" and "freelist t = freelist s" and "kend t = kend s"
    and "\<And>p a. p \<in> set ps \<Longrightarrow> in_page p a \<Longrightarrow> pmem t a = pmem s a"
  shows "kmem_inv t ps"
  using assms free_chain_cong [of ps "pmem t" "pmem s" "freelist s"]
  by (simp add: kmem_inv_def)

lemma kfree_panic: "\<not> valid_page (kend s) pa \<Longrightarrow> kfree pa s = Inl (Panic ''kfree'')"
  by (simp add: kfree_def valid_page_iff)

lemma kfree_valid:
  "valid_page (kend s) pa \<Longrightarrow>
   kfree pa s = Inr (s\<lparr>pmem := store64 (\<lambda>a. if in_page pa a then 1 else pmem s a) pa (freelist s),
     freelist := pa\<rparr>)"
  by (simp add: kfree_def valid_page_iff memset_page ucast_fill cong: if_cong)

lemma kfree_inv:
  assumes inv: "kmem_inv s ps" and ok: "valid_page (kend s) pa" and fresh: "pa \<notin> set ps"
  shows "\<exists>s'. kfree pa s = Inr s' \<and> kmem_inv s' (pa # ps) \<and> kend s' = kend s \<and>
    (\<forall>a. \<not> in_page pa a \<longrightarrow> pmem s' a = pmem s a)"
proof -
  let ?m = "store64 (\<lambda>a. if in_page pa a then 1 else pmem s a) pa (freelist s)"
  have out: "?m a = pmem s a" if "\<not> in_page pa a" for a
    using that by (simp add: store64_outside_page0)
  have "free_chain ?m (freelist s) ps \<longleftrightarrow> free_chain (pmem s) (freelist s) ps"
  proof (rule free_chain_cong)
    fix x a
    assume x: "x \<in> set ps" "in_page x a"
    then have "\<not> in_page pa a"
      using inv ok fresh in_page_unique [of x pa a]
      by (auto simp: kmem_inv_def valid_page_def)
    then show "?m a = pmem s a" by (rule out)
  qed
  moreover have "pa \<noteq> 0" using inv ok by (auto simp: kmem_inv_def valid_page_def)
  ultimately have "kmem_inv (s\<lparr>pmem := ?m, freelist := pa\<rparr>) (pa # ps)"
    using inv ok fresh by (simp add: kmem_inv_def)
  with ok out show ?thesis by (simp add: kfree_valid)
qed

lemma kalloc_empty: "kmem_inv s [] \<Longrightarrow> kalloc s = (0, s)"
  by (simp add: kmem_inv_def kalloc_def)

lemma kalloc_inv:
  assumes inv: "kmem_inv s (p # ps)"
  shows "\<exists>s'. kalloc s = (p, s') \<and> kmem_inv s' ps \<and> kend s' = kend s \<and>
    (\<forall>a. pmem s' a = (if in_page p a then 5 else pmem s a))"
proof -
  let ?m = "\<lambda>a. if in_page p a then 5 else pmem s a"
  let ?t = "s\<lparr>freelist := load64 (pmem s) p, pmem := ?m\<rparr>"
  from inv have "freelist s = p" "p \<noteq> 0" by (simp_all add: kmem_inv_def)
  then have "kalloc s = (p, ?t)" by (simp add: kalloc_def memset_page ucast_fill Let_def cong: if_cong)
  moreover have "kmem_inv ?t ps"
  proof (rule kmem_inv_frame)
    show "kmem_inv (s\<lparr>freelist := load64 (pmem s) p\<rparr>) ps"
      using inv by (simp add: kmem_inv_def)
    fix q a
    assume "q \<in> set ps" "in_page q a"
    then have "\<not> in_page p a"
      using inv in_page_unique [of p q a] by (auto simp: kmem_inv_def valid_page_def)
    then show "pmem ?t a = pmem (s\<lparr>freelist := load64 (pmem s) p\<rparr>) a" by simp
  qed simp_all
  ultimately show ?thesis by simp
qed

section \<open>The allocator's interface\<close>

text \<open>What the callers of the allocator rely on: allocation hands out the head of a list of
  distinct usable pages, freeing gives a usable page back, and an exhausted allocator
  returns the null pointer and changes nothing.\<close>

locale page_allocator =
  fixes alloc :: "'s \<Rightarrow> u64 \<times> 's"
    and free :: "u64 \<Rightarrow> 's \<Rightarrow> 's res"
    and usable :: "'s \<Rightarrow> u64 \<Rightarrow> bool"
    and inv :: "'s \<Rightarrow> u64 list \<Rightarrow> bool"
  assumes inv_pages: "inv s ps \<Longrightarrow> distinct ps \<and> (\<forall>p\<in>set ps. usable s p \<and> p \<noteq> 0)"
    and alloc_none: "inv s [] \<Longrightarrow> alloc s = (0, s)"
    and alloc_some: "inv s (p # ps) \<Longrightarrow>
      \<exists>s'. alloc s = (p, s') \<and> inv s' ps \<and> (\<forall>q. usable s' q = usable s q)"
    and free_page: "inv s ps \<Longrightarrow> usable s p \<Longrightarrow> p \<notin> set ps \<Longrightarrow>
      \<exists>s'. free p s = Inr s' \<and> inv s' (p # ps) \<and> (\<forall>q. usable s' q = usable s q)"
begin

text \<open>\<open>k\<close> allocations in a row.\<close>

primrec alloc_n :: "nat \<Rightarrow> 's \<Rightarrow> u64 list \<times> 's" where
  "alloc_n 0 s = ([], s)"
| "alloc_n (Suc k) s = (let (p, s1) = alloc s; (qs, s2) = alloc_n k s1 in (p # qs, s2))"

lemma alloc_fails_iff: "inv s ps \<Longrightarrow> fst (alloc s) = 0 \<longleftrightarrow> ps = []"
  using inv_pages [of s ps] alloc_none [of s] alloc_some [of s "hd ps" "tl ps"]
  by (cases ps) auto

lemma alloc_n_pages:
  "inv s (qs @ ps) \<Longrightarrow> \<exists>s'. alloc_n (length qs) s = (qs, s') \<and> inv s' ps"
proof (induction qs arbitrary: s)
  case Nil
  then show ?case by simp
next
  case (Cons q qs)
  then obtain s1 where "alloc s = (q, s1)" "inv s1 (qs @ ps)"
    using alloc_some [of s q "qs @ ps"] by auto
  with Cons.IH [of s1] show ?case by auto
qed

lemma alloc_then_free:
  assumes "inv s (p # ps)"
  shows "\<exists>s1 s2. alloc s = (p, s1) \<and> free p s1 = Inr s2 \<and> inv s2 (p # ps)"
proof -
  obtain s1 where s1: "alloc s = (p, s1)" "inv s1 ps" "\<forall>q. usable s1 q = usable s q"
    using alloc_some [OF assms] by blast
  moreover have "usable s1 p" "p \<notin> set ps"
    using inv_pages [OF assms] s1(3) by simp_all
  ultimately show ?thesis using free_page [of s1 ps p] by blast
qed

end

interpretation kpages: page_allocator kalloc kfree "\<lambda>s. valid_page (kend s)" kmem_inv
proof
  fix s :: "'a kmem_scheme" and ps p
  show "kmem_inv s ps \<Longrightarrow> distinct ps \<and> (\<forall>p\<in>set ps. valid_page (kend s) p \<and> p \<noteq> 0)"
    by (auto simp: kmem_inv_def valid_page_def)
  show "kmem_inv s [] \<Longrightarrow> kalloc s = (0, s)" by (rule kalloc_empty)
  show "kmem_inv s (p # ps) \<Longrightarrow> \<exists>s'. kalloc s = (p, s') \<and> kmem_inv s' ps \<and>
      (\<forall>q. valid_page (kend s') q = valid_page (kend s) q)"
    using kalloc_inv [of s p ps] by auto
  show "kmem_inv s ps \<Longrightarrow> valid_page (kend s) p \<Longrightarrow> p \<notin> set ps \<Longrightarrow>
      \<exists>s'. kfree p s = Inr s' \<and> kmem_inv s' (p # ps) \<and>
        (\<forall>q. valid_page (kend s') q = valid_page (kend s) q)"
    using kfree_inv [of s ps p] by auto
qed

section \<open>Initialisation\<close>

text \<open>\<open>k\<close> consecutive pages from \<open>p\<close>.\<close>

primrec page_run :: "u64 \<Rightarrow> nat \<Rightarrow> u64 list" where
  "page_run p 0 = []"
| "page_run p (Suc k) = p # page_run (p + PGSIZE) k"

lemma length_page_run [simp]: "length (page_run p k) = k"
  by (induction k arbitrary: p) simp_all

lemma set_page_run:
  "unat p + 4096 * k \<le> 2 ^ 64 \<Longrightarrow> q \<in> set (page_run p k) \<longleftrightarrow>
     (\<exists>i<k. unat q = unat p + 4096 * i)"
proof (induction k arbitrary: p)
  case 0
  then show ?case by simp
next
  case (Suc k)
  show ?case
  proof (cases k)
    case 0
    then show ?thesis by (simp add: word_unat_eq_iff)
  next
    case (Suc j)
    then have "unat (p + 4096) = unat p + 4096"
      using Suc.prems unat_add_no_wrap [of p 4096] by simp
    then show ?thesis
      using Suc.IH [of "p + 4096"] Suc.prems by (simp add: Ex_less_Suc2 word_unat_eq_iff add.assoc)
  qed
qed

text \<open>The loop pushes every page of the range, lowest first, so the list holds them from the
  highest down.\<close>

lemma freerange_loop_inv:
  assumes "kmem_inv s ps" and "page_aligned p" and "kend s \<le> p" and "pa_end \<le> PHYSTOP"
    and "\<forall>q\<in>set ps. q < p" and "(unat pa_end - unat p) div 4096 = k"
  shows "\<exists>s'. freerange_loop p pa_end s = Inr s' \<and> kmem_inv s' (rev (page_run p k) @ ps) \<and>
    kend s' = kend s"
  using assms
proof (induction k arbitrary: p ps s)
  case 0
  then have "unat pa_end - unat p < 4096" by (simp add: div_eq_0_iff)
  then have "\<not> unat p + 4096 \<le> unat pa_end" by linarith
  with 0 show ?case by (simp add: freerange_loop.simps)
next
  case (Suc k)
  have "\<not> unat pa_end - unat p < 4096"
    using Suc.prems(6) by (metis div_less nat.distinct(1))
  then have room: "unat p + 4096 \<le> unat pa_end" by linarith
  have top: "unat pa_end \<le> 2281701376" using Suc.prems(4) by (simp add: word_le_nat_alt)
  then have next_p: "unat (p + 4096) = unat p + 4096"
    using room unat_add_no_wrap [of p 4096] by simp
  have "valid_page (kend s) p"
    using Suc.prems(2-3) room top by (simp add: valid_page_def word_less_nat_alt)
  moreover have "p \<notin> set ps" using Suc.prems(5) by auto
  ultimately obtain s1 where s1: "kfree p s = Inr s1" "kmem_inv s1 (p # ps)" "kend s1 = kend s"
    using kfree_inv [OF Suc.prems(1)] by blast
  have "\<exists>s'. freerange_loop (p + 4096) pa_end s1 = Inr s' \<and>
      kmem_inv s' (rev (page_run (p + 4096) k) @ p # ps) \<and> kend s' = kend s1"
  proof (rule Suc.IH [OF s1(2)])
    show "page_aligned (p + 4096)"
      using Suc.prems(2) next_p by (simp add: page_aligned_unat)
    show "kend s1 \<le> p + 4096"
      using Suc.prems(3) s1(3) next_p by (simp add: word_le_nat_alt)
    show "\<forall>q\<in>set (p # ps). q < p + 4096"
      using Suc.prems(5) next_p by (auto simp: word_less_nat_alt)
    show "(unat pa_end - unat (p + 4096)) div 4096 = k"
      using Suc.prems(6) room next_p by (simp add: diff_diff_left [symmetric] del: diff_diff_left)
  qed (rule Suc.prems(4))
  with s1 room show ?case by (subst freerange_loop.simps) simp
qed

lemma kinit_inv:
  assumes "freelist s = 0" and "0 < kend s" and "kend s \<le> PHYSTOP"
  shows "\<exists>s'. kinit s = Inr s' \<and>
    kmem_inv s' (rev (page_run (PGROUNDUP (kend s))
      ((unat PHYSTOP - unat (PGROUNDUP (kend s))) div 4096)))"
proof -
  have "unat (kend s) \<le> 2281701376" using assms(3) by (simp add: word_le_nat_alt)
  then have up: "unat (PGROUNDUP (kend s)) = (unat (kend s) + 4095) div 4096 * 4096"
    and al: "page_aligned (PGROUNDUP (kend s))"
    by (simp_all add: unat_PGROUNDUP page_aligned_PGROUNDUP)
  have "unat (kend s) \<le> (unat (kend s) + 4095) div 4096 * 4096" by simp
  then have "kend s \<le> PGROUNDUP (kend s)" by (simp add: up word_le_nat_alt)
  moreover have "kmem_inv s []" using assms by (simp add: kmem_inv_def)
  ultimately show ?thesis
    using freerange_loop_inv [of s "[]" "PGROUNDUP (kend s)" PHYSTOP] al
    by (fastforce simp: kinit_def freerange_def)
qed

lemma round_up_le_iff:
  fixes n k :: nat
  shows "(n + 4095) div 4096 * 4096 \<le> 4096 * k \<longleftrightarrow> n \<le> 4096 * k"
  by (simp add: mult.commute [of _ 4096]) linarith

lemma PGROUNDUP_le_aligned:
  assumes "page_aligned p" and "unat e + 4095 < 2 ^ 64"
  shows "PGROUNDUP e \<le> p \<longleftrightarrow> e \<le> p"
proof -
  obtain k where "unat p = 4096 * k" using assms(1) by (rule page_alignedE)
  then show ?thesis
    using assms(2) round_up_le_iff [of "unat e" k]
    by (simp add: word_le_nat_alt unat_PGROUNDUP)
qed

lemma Ex_shift:
  fixes j n :: nat
  shows "(\<exists>i<n - j. P (j + i)) \<longleftrightarrow> (\<exists>k. P k \<and> j \<le> k \<and> k < n)"
proof
  assume "\<exists>k. P k \<and> j \<le> k \<and> k < n"
  then obtain k where "P k" "j \<le> k" "k < n" by blast
  then have "k - j < n - j" "P (j + (k - j))" by auto
  then show "\<exists>i<n - j. P (j + i)" by blast
qed (auto simp: less_diff_conv add.commute)

text \<open>The pages from an aligned address up to \<open>PHYSTOP\<close>.\<close>

lemma set_page_run_PHYSTOP:
  assumes "page_aligned b" and "b \<le> PHYSTOP"
  shows "p \<in> set (page_run b ((unat PHYSTOP - unat b) div 4096)) \<longleftrightarrow>
    page_aligned p \<and> b \<le> p \<and> p < PHYSTOP"
proof -
  obtain j where j: "unat b = 4096 * j" using assms(1) by (rule page_alignedE)
  have le: "j \<le> 557056" using assms(2) j by (simp add: word_le_nat_alt)
  have n: "(unat PHYSTOP - unat b) div 4096 = 557056 - j" by (simp add: j)
  have "p \<in> set (page_run b (557056 - j)) \<longleftrightarrow> (\<exists>i<557056 - j. unat p = 4096 * (j + i))"
    using le by (subst set_page_run) (simp_all add: j)
  also have "\<dots> \<longleftrightarrow> (\<exists>k. unat p = 4096 * k \<and> j \<le> k \<and> k < 557056)"
    by (rule Ex_shift)
  also have "\<dots> \<longleftrightarrow> page_aligned p \<and> b \<le> p \<and> p < PHYSTOP"
    by (auto simp: page_aligned_unat word_le_nat_alt word_less_nat_alt j elim!: page_alignedE)
  finally show ?thesis by (simp only: n)
qed

section \<open>Properties\<close>

text \<open>Property C10. \<open>kalloc\<close> implements allocation from a list of distinct free pages:
  from an empty list it returns the null pointer and changes nothing; otherwise it returns the
  first page, the rest is the new list, the page is filled with junk and no byte outside it
  changes.\<close>

theorem kalloc_correct:
  assumes "kmem_inv s ps"
  shows "case ps of [] \<Rightarrow> kalloc s = (0, s)
    | p # qs \<Rightarrow> \<exists>s'. kalloc s = (p, s') \<and> kmem_inv s' qs \<and> valid_page (kend s) p \<and>
        p \<notin> set qs \<and> (\<forall>a. pmem s' a = (if in_page p a then 5 else pmem s a))"
proof (cases ps)
  case Nil
  with assms show ?thesis by (simp add: kalloc_empty)
next
  case (Cons p qs)
  then show ?thesis
    using assms kalloc_inv [of s p qs] kpages.inv_pages [of s ps] by auto
qed

theorem kalloc_correct_witness:
  "\<exists>s'. kalloc \<lparr>pmem = (\<lambda>_. 0), freelist = 0x80008000, kend = 0x80007000\<rparr> = (0x80008000, s')
    \<and> kmem_inv s' []"
proof -
  have "kmem_inv \<lparr>pmem = (\<lambda>_. 0), freelist = 0x80008000, kend = 0x80007000\<rparr> [0x80008000]"
    by (simp add: kmem_inv_def valid_page_def page_aligned_def)
  from kalloc_correct [OF this] show ?thesis by auto
qed

text \<open>Property C26. \<open>kfree\<close> puts exactly the freed page on the list when the page is one
  the allocator manages and is not already free, and panics on any address that is
  misaligned, inside the kernel or past the end of memory.\<close>

theorem kfree_correct:
  assumes "kmem_inv s ps" and "pa \<notin> set ps"
  shows "if valid_page (kend s) pa
    then \<exists>s'. kfree pa s = Inr s' \<and> kmem_inv s' (pa # ps) \<and>
      (\<forall>a. in_page pa a \<or> pmem s' a = pmem s a)
    else kfree pa s = Inl (Panic ''kfree'')"
proof (cases "valid_page (kend s) pa")
  case True
  then show ?thesis using kfree_inv [OF assms(1) True assms(2)] by auto
qed (simp add: kfree_panic)

theorem kfree_correct_witness:
  "(\<exists>s'. kfree 0x80009000 \<lparr>pmem = (\<lambda>_. 0), freelist = 0, kend = 0x80007000\<rparr> = Inr s' \<and>
      kmem_inv s' [0x80009000])
   \<and> kfree 0x88000000 \<lparr>pmem = (\<lambda>_. 0), freelist = 0, kend = 0x80007000\<rparr> = Inl (Panic ''kfree'')"
proof -
  have inv: "kmem_inv \<lparr>pmem = (\<lambda>_. 0), freelist = 0, kend = 0x80007000\<rparr> []"
    by (simp add: kmem_inv_def)
  show ?thesis
    using kfree_correct [OF inv, of "0x80009000"] kfree_correct [OF inv, of "0x88000000"]
    by (auto simp: valid_page_def page_aligned_def)
qed

text \<open>After \<open>kinit\<close> the free list holds every page-aligned address from the
  end of the kernel up to \<open>PHYSTOP\<close>, each once.\<close>

theorem kinit_correct:
  assumes "freelist s = 0" and "0 < kend s" and "kend s \<le> PHYSTOP"
  shows "\<exists>s' ps. kinit s = Inr s' \<and> kmem_inv s' ps \<and> (\<forall>p. p \<in> set ps \<longleftrightarrow> valid_page (kend s) p)"
proof -
  have bound: "unat (kend s) \<le> 2281701376" using assms(3) by (simp add: word_le_nat_alt)
  then have al: "page_aligned (PGROUNDUP (kend s))" by (simp add: page_aligned_PGROUNDUP)
  have "PGROUNDUP (kend s) \<le> PHYSTOP"
    using assms(3) bound by (subst PGROUNDUP_le_aligned) (simp_all add: page_aligned_def)
  then have "p \<in> set (rev (page_run (PGROUNDUP (kend s))
      ((unat PHYSTOP - unat (PGROUNDUP (kend s))) div 4096))) \<longleftrightarrow> valid_page (kend s) p" for p
    using PGROUNDUP_le_aligned [of p "kend s"] bound
    unfolding set_rev set_page_run_PHYSTOP [OF al \<open>PGROUNDUP (kend s) \<le> PHYSTOP\<close>]
    by (auto simp: valid_page_def)
  with kinit_inv [OF assms] show ?thesis by blast
qed

theorem kinit_correct_witness:
  "\<exists>s' ps. kinit \<lparr>pmem = (\<lambda>_. 0), freelist = 0, kend = 0x80021234\<rparr> = Inr s' \<and> kmem_inv s' ps \<and>
    0x80022000 \<in> set ps \<and> 0x80021000 \<notin> set ps"
proof -
  obtain s' ps where "kinit \<lparr>pmem = (\<lambda>_. 0), freelist = 0, kend = 0x80021234\<rparr> = Inr s'"
    "kmem_inv s' ps" "\<forall>p. p \<in> set ps \<longleftrightarrow> valid_page 0x80021234 p"
    using kinit_correct [of "\<lparr>pmem = (\<lambda>_. 0), freelist = 0, kend = 0x80021234\<rparr>"] by auto
  then show ?thesis by (intro exI [of _ s'] exI [of _ ps]) (simp add: valid_page_def page_aligned_def)
qed

end
