(* ===== verification/Vm.thy ===== *)
theory Vm
  imports Kalloc
begin

text \<open>
  \<open>kernel/vm.c\<close>, the Sv39 page tables. A page table is the address of its root page in the
  byte memory of \<open>kmem\<close>; every operation reads and writes the 64-bit entries there, and
  allocates and frees page-table pages and user pages with \<open>kalloc\<close> and \<open>kfree\<close>.
  The kernel runs with an identity mapping of RAM, so a kernel pointer is a physical address.

  A function that may panic returns in \<open>res\<close>; \<open>-1\<close>, \<open>0\<close> and the null pointer
  are ordinary results. The loops over virtual addresses end because \<open>walk\<close> panics past
  \<open>MAXVA\<close>; those of the copy functions because every round moves at least one byte.
\<close>

section \<open>Definitions\<close>

subsection \<open>Walking and mapping\<close>

definition pte_addr :: "u64 \<Rightarrow> u64 \<Rightarrow> u64" where
  "pte_addr pagetable i = pagetable + 8 * i"

fun walk_loop :: "nat \<Rightarrow> u64 \<Rightarrow> u64 \<Rightarrow> bool \<Rightarrow> 'z kmem_scheme \<Rightarrow> u64 \<times> 'z kmem_scheme" where
  "walk_loop 0 pagetable va alloc s = (pte_addr pagetable (PX 0 va), s)"
| "walk_loop (Suc l) pagetable va alloc s =
     (let pte = pte_addr pagetable (PX (Suc l) va)
      in if load64 (pmem s) pte AND PTE_V \<noteq> 0
         then walk_loop l (PTE2PA (load64 (pmem s) pte)) va alloc s
         else if \<not> alloc then (0, s)
         else let (pagetable', s1) = kalloc s
              in if pagetable' = 0 then (0, s1)
                 else let m = memset (pmem s1) pagetable' 0 (ucast PGSIZE);
                          s2 = s1\<lparr>pmem := store64 m pte (PA2PTE pagetable' OR PTE_V)\<rparr>
                      in walk_loop l pagetable' va alloc s2)"

definition walk :: "u64 \<Rightarrow> u64 \<Rightarrow> bool \<Rightarrow> 'z kmem_scheme \<Rightarrow> (u64 \<times> 'z kmem_scheme) res" where
  "walk pagetable va alloc s =
     (if MAXVA \<le> va then Inl (Panic ''walk'') else Inr (walk_loop 2 pagetable va alloc s))"

definition walkaddr :: "u64 \<Rightarrow> u64 \<Rightarrow> 'z kmem_scheme \<Rightarrow> u64 res" where
  "walkaddr pagetable va s =
     (if MAXVA \<le> va then Inr 0
      else bindR (walk pagetable va False s) (\<lambda>(pte, _).
        if pte = 0 then Inr 0
        else if load64 (pmem s) pte AND PTE_V = 0 then Inr 0
        else if load64 (pmem s) pte AND PTE_U = 0 then Inr 0
        else Inr (PTE2PA (load64 (pmem s) pte))))"

lemma walk_InrD: "walk pagetable va alloc s = Inr r \<Longrightarrow> va < MAXVA"
  by (auto simp: walk_def not_le split: if_splits)

lemma unat_next_page: "a < MAXVA \<Longrightarrow> unat (a + 4096) = unat a + 4096"
  using unat_add_no_wrap [of a 4096] by (simp add: word_less_nat_alt)

lemma next_page_measure: "a < MAXVA \<Longrightarrow> 2 ^ 39 - unat (a + 4096) < 2 ^ 39 - unat a"
  using unat_next_page [of a] by (simp add: word_less_nat_alt)

function mappages_loop ::
  "u64 \<Rightarrow> u64 \<Rightarrow> u64 \<Rightarrow> u64 \<Rightarrow> u64 \<Rightarrow> 'z kmem_scheme \<Rightarrow> (int \<times> 'z kmem_scheme) res" where
  "mappages_loop pagetable a last_va pa perm s =
     bindR (walk pagetable a True s) (\<lambda>(pte, s1).
       if pte = 0 then Inr (-1, s1)
       else if load64 (pmem s1) pte AND PTE_V \<noteq> 0 then Inl (Panic ''remap'')
       else let s2 = s1\<lparr>pmem := store64 (pmem s1) pte (PA2PTE pa OR perm OR PTE_V)\<rparr>
            in if a = last_va then Inr (0, s2)
               else mappages_loop pagetable (a + PGSIZE) last_va (pa + PGSIZE) perm s2)"
  by pat_completeness auto
termination
  by (relation "measure (\<lambda>(pt, a, r). 2 ^ 39 - unat a)")
    (auto dest!: walk_InrD next_page_measure)

declare mappages_loop.simps [simp del]

definition mappages ::
  "u64 \<Rightarrow> u64 \<Rightarrow> u64 \<Rightarrow> u64 \<Rightarrow> u64 \<Rightarrow> 'z kmem_scheme \<Rightarrow> (int \<times> 'z kmem_scheme) res" where
  "mappages pagetable va sz pa perm s =
     mappages_loop pagetable (PGROUNDDOWN va) (PGROUNDDOWN (va + sz - 1)) pa perm s"

lemma PGROUNDDOWN_less_MAXVA: "PGROUNDDOWN va < MAXVA \<longleftrightarrow> va < MAXVA"
  by (simp add: word_less_nat_alt unat_PGROUNDDOWN minus_mod_eq_div_mult) linarith

lemma mappages_InrD: "mappages pagetable va sz pa perm s = Inr r \<Longrightarrow> va < MAXVA"
  unfolding mappages_def PGROUNDDOWN_less_MAXVA [of va, symmetric]
  by (subst (asm) mappages_loop.simps) (auto dest: walk_InrD)

subsection \<open>User page tables\<close>

function uvmunmap_loop ::
  "u64 \<Rightarrow> u64 \<Rightarrow> u64 \<Rightarrow> bool \<Rightarrow> 'z kmem_scheme \<Rightarrow> 'z kmem_scheme res" where
  "uvmunmap_loop pagetable a end_va do_free s =
     (if a < end_va then
        bindR (walk pagetable a False s) (\<lambda>(pte, _).
          if pte = 0 then Inl (Panic ''uvmunmap: walk'')
          else if load64 (pmem s) pte AND PTE_V = 0 then Inl (Panic ''uvmunmap: not mapped'')
          else if PTE_FLAGS (load64 (pmem s) pte) = PTE_V then Inl (Panic ''uvmunmap: not a leaf'')
          else bindR (if do_free then kfree (PTE2PA (load64 (pmem s) pte)) s else Inr s) (\<lambda>s1.
            uvmunmap_loop pagetable (a + PGSIZE) end_va do_free
              (s1\<lparr>pmem := store64 (pmem s1) pte 0\<rparr>)))
      else Inr s)"
  by pat_completeness auto
termination
  by (relation "measure (\<lambda>(pt, a, r). 2 ^ 39 - unat a)")
    (auto dest!: walk_InrD next_page_measure)

declare uvmunmap_loop.simps [simp del]

definition uvmunmap :: "u64 \<Rightarrow> u64 \<Rightarrow> u64 \<Rightarrow> bool \<Rightarrow> 'z kmem_scheme \<Rightarrow> 'z kmem_scheme res" where
  "uvmunmap pagetable va npages do_free s =
     (if va mod PGSIZE \<noteq> 0 then Inl (Panic ''uvmunmap: not aligned'')
      else uvmunmap_loop pagetable va (va + npages * PGSIZE) do_free s)"

definition uvmcreate :: "'z kmem_scheme \<Rightarrow> u64 \<times> 'z kmem_scheme" where
  "uvmcreate s =
     (let (pagetable, s1) = kalloc s
      in if pagetable = 0 then (0, s1)
         else (pagetable, s1\<lparr>pmem := memset (pmem s1) pagetable 0 (ucast PGSIZE)\<rparr>))"

definition uvminit :: "u64 \<Rightarrow> u64 \<Rightarrow> u32 \<Rightarrow> 'z kmem_scheme \<Rightarrow> 'z kmem_scheme res" where
  "uvminit pagetable src sz s =
     (if PGSIZE \<le> ucast sz then Inl (Panic ''inituvm: more than a page'')
      else let (mem, s1) = kalloc s;
               s2 = s1\<lparr>pmem := memset (pmem s1) mem 0 (ucast PGSIZE)\<rparr>
           in bindR (mappages pagetable 0 PGSIZE mem (PTE_W OR PTE_R OR PTE_X OR PTE_U) s2)
                (\<lambda>(_, s3). Inr (s3\<lparr>pmem := memmove (pmem s3) mem src sz\<rparr>)))"

text \<open>\<open>int npages\<close> in \<open>uvmdealloc\<close>: the page count is cut to 32 bits and
  sign-extended when it is passed on as a \<open>uint64\<close>.\<close>

definition uvmdealloc :: "u64 \<Rightarrow> u64 \<Rightarrow> u64 \<Rightarrow> 'z kmem_scheme \<Rightarrow> (u64 \<times> 'z kmem_scheme) res" where
  "uvmdealloc pagetable oldsz newsz s =
     (if oldsz \<le> newsz then Inr (oldsz, s)
      else if PGROUNDUP newsz < PGROUNDUP oldsz
      then let npages = ucast ((PGROUNDUP oldsz - PGROUNDUP newsz) div PGSIZE) :: u32
           in bindR (uvmunmap pagetable (PGROUNDUP newsz) (scast npages) True s)
                (\<lambda>s1. Inr (newsz, s1))
      else Inr (newsz, s))"

function uvmalloc_loop ::
  "u64 \<Rightarrow> u64 \<Rightarrow> u64 \<Rightarrow> u64 \<Rightarrow> 'z kmem_scheme \<Rightarrow> (u64 \<times> 'z kmem_scheme) res" where
  "uvmalloc_loop pagetable oldsz a newsz s =
     (if a < newsz then
        let (mem, s1) = kalloc s
        in if mem = 0
           then bindR (uvmdealloc pagetable a oldsz s1) (\<lambda>(_, s2). Inr (0, s2))
           else bindR (mappages pagetable a PGSIZE mem (PTE_W OR PTE_X OR PTE_R OR PTE_U)
                  (s1\<lparr>pmem := memset (pmem s1) mem 0 (ucast PGSIZE)\<rparr>)) (\<lambda>(r, s2).
             if r \<noteq> 0
             then bindR (kfree mem s2) (\<lambda>s3.
                  bindR (uvmdealloc pagetable a oldsz s3) (\<lambda>(_, s4). Inr (0, s4)))
             else uvmalloc_loop pagetable oldsz (a + PGSIZE) newsz s2)
      else Inr (newsz, s))"
  by pat_completeness auto

termination
proof (relation "measure (\<lambda>(pt, b, a, n, s). 2 ^ 39 - unat a)", goal_cases)
  case (2 pagetable oldsz a newsz s mem_s mem s1 r_s r s2)
  then have "\<exists>x. mappages pagetable a PGSIZE mem (PTE_W OR PTE_X OR PTE_R OR PTE_U)
      (s1\<lparr>pmem := memset (pmem s1) mem 0 (ucast PGSIZE)\<rparr>) = Inr x" by simp
  then have "a < MAXVA" by (auto dest: mappages_InrD)
  then show ?case by (auto dest: next_page_measure)
qed simp

declare uvmalloc_loop.simps [simp del]

definition uvmalloc :: "u64 \<Rightarrow> u64 \<Rightarrow> u64 \<Rightarrow> 'z kmem_scheme \<Rightarrow> (u64 \<times> 'z kmem_scheme) res" where
  "uvmalloc pagetable oldsz newsz s =
     (if newsz < oldsz then Inr (oldsz, s)
      else uvmalloc_loop pagetable (PGROUNDUP oldsz) (PGROUNDUP oldsz) newsz s)"

text \<open>\<open>freewalk\<close> recurses through whatever the entries point at: on a cyclic table it
  would not return, hence the option. \<open>freewalk_from i\<close> is the loop from index
  \<open>i\<close> on, followed by the final \<open>kfree\<close>.\<close>

partial_function (option) freewalk_from ::
  "u64 \<Rightarrow> nat \<Rightarrow> 'z kmem_scheme \<Rightarrow> 'z kmem_scheme res option" where
  "freewalk_from pagetable i s =
     (if i < 512 then
        let pte = load64 (pmem s) (pte_addr pagetable (of_nat i))
        in if pte AND PTE_V \<noteq> 0 \<and> pte AND (PTE_R OR PTE_W OR PTE_X) = 0
           then Option.bind (freewalk_from (PTE2PA pte) 0 s) (\<lambda>r.
                  if isl r then Some r
                  else let s1 = projr r
                       in freewalk_from pagetable (Suc i)
                            (s1\<lparr>pmem := store64 (pmem s1) (pte_addr pagetable (of_nat i)) 0\<rparr>))
           else if pte AND PTE_V \<noteq> 0 then Some (Inl (Panic ''freewalk: leaf''))
           else freewalk_from pagetable (Suc i) s
      else Some (kfree pagetable s))"

definition freewalk :: "u64 \<Rightarrow> 'z kmem_scheme \<Rightarrow> 'z kmem_scheme res option" where
  "freewalk pagetable s = freewalk_from pagetable 0 s"

definition uvmfree :: "u64 \<Rightarrow> u64 \<Rightarrow> 'z kmem_scheme \<Rightarrow> 'z kmem_scheme res option" where
  "uvmfree pagetable sz s =
     (case (if 0 < sz then uvmunmap pagetable 0 (PGROUNDUP sz div PGSIZE) True s else Inr s) of
        Inl e \<Rightarrow> Some (Inl e)
      | Inr s1 \<Rightarrow> freewalk pagetable s1)"

text \<open>The error exit of \<open>uvmcopy\<close> unmaps the \<open>i / PGSIZE\<close> pages copied so far.\<close>

definition uvmcopy_err :: "u64 \<Rightarrow> u64 \<Rightarrow> 'z kmem_scheme \<Rightarrow> (int \<times> 'z kmem_scheme) res" where
  "uvmcopy_err new i s = bindR (uvmunmap new 0 (i div PGSIZE) True s) (\<lambda>s'. Inr (-1, s'))"

function uvmcopy_loop ::
  "u64 \<Rightarrow> u64 \<Rightarrow> u64 \<Rightarrow> u64 \<Rightarrow> 'z kmem_scheme \<Rightarrow> (int \<times> 'z kmem_scheme) res" where
  "uvmcopy_loop old new i sz s =
     (if i < sz then
        bindR (walk old i False s) (\<lambda>(pte, _).
          if pte = 0 then Inl (Panic ''uvmcopy: pte should exist'')
          else let e = load64 (pmem s) pte
               in if e AND PTE_V = 0 then Inl (Panic ''uvmcopy: page not present'')
                  else let (mem, s1) = kalloc s
                       in if mem = 0 then uvmcopy_err new i s1
                          else bindR (mappages new i PGSIZE mem (PTE_FLAGS e)
                                 (s1\<lparr>pmem := memmove (pmem s1) mem (PTE2PA e) (ucast PGSIZE)\<rparr>))
                               (\<lambda>(r, s2).
                                 if r \<noteq> 0 then bindR (kfree mem s2) (uvmcopy_err new i)
                                 else uvmcopy_loop old new (i + PGSIZE) sz s2))
      else Inr (0, s))"
  by pat_completeness auto
termination
  by (relation "measure (\<lambda>(old, new, i, sz, s). 2 ^ 39 - unat i)")
    (auto dest!: walk_InrD next_page_measure)

declare uvmcopy_loop.simps [simp del]

definition uvmcopy :: "u64 \<Rightarrow> u64 \<Rightarrow> u64 \<Rightarrow> 'z kmem_scheme \<Rightarrow> (int \<times> 'z kmem_scheme) res" where
  "uvmcopy old new sz s = uvmcopy_loop old new 0 sz s"

definition uvmclear :: "u64 \<Rightarrow> u64 \<Rightarrow> 'z kmem_scheme \<Rightarrow> 'z kmem_scheme res" where
  "uvmclear pagetable va s =
     bindR (walk pagetable va False s) (\<lambda>(pte, _).
       if pte = 0 then Inl (Panic ''uvmclear'')
       else Inr (s\<lparr>pmem := store64 (pmem s) pte (load64 (pmem s) pte AND NOT PTE_U)\<rparr>))"

subsection \<open>Copying between kernel and user memory\<close>

text \<open>The number of bytes one round copies: up to the end of the page, at most what is left.\<close>

definition chunk :: "u64 \<Rightarrow> u64 \<Rightarrow> u64" where
  "chunk va len = (let n = PGSIZE - (va - PGROUNDDOWN va) in if len < n then len else n)"

lemma unat_chunk: "unat (chunk va len) = min (4096 - unat va mod 4096) (unat len)"
proof -
  have "unat va mod 4096 < 4096" by simp
  then have "va - PGROUNDDOWN va \<le> 4096"
    by (simp add: word_le_nat_alt unat_page_offset)
  then have "unat (4096 - (va - PGROUNDDOWN va)) = 4096 - unat va mod 4096"
    by (simp add: unat_sub unat_page_offset)
  then show ?thesis by (simp add: chunk_def Let_def word_less_nat_alt min_def)
qed

lemma chunk_le: "chunk va len \<le> len"
  by (simp add: word_le_nat_alt unat_chunk)

lemma chunk_measure: "0 < len \<Longrightarrow> unat (len - chunk va len) < unat len"
  using unat_sub [OF chunk_le [of va len]]
  by (simp add: unat_chunk word_less_nat_alt)

function copyout :: "u64 \<Rightarrow> u64 \<Rightarrow> u64 \<Rightarrow> u64 \<Rightarrow> 'z kmem_scheme \<Rightarrow> (int \<times> 'z kmem_scheme) res" where
  "copyout pagetable dstva src len s =
     (if 0 < len then
        let va0 = PGROUNDDOWN dstva
        in bindR (walkaddr pagetable va0 s) (\<lambda>pa0.
             if pa0 = 0 then Inr (-1, s)
             else let n = chunk dstva len
                  in copyout pagetable (va0 + PGSIZE) (src + n) (len - n)
                       (s\<lparr>pmem := memmove (pmem s) (pa0 + (dstva - va0)) src (ucast n)\<rparr>))
      else Inr (0, s))"
  by pat_completeness auto
termination
  by (relation "measure (\<lambda>(pt, va, src, len, s). unat len)") (auto simp: chunk_measure)

declare copyout.simps [simp del]

function copyin :: "u64 \<Rightarrow> u64 \<Rightarrow> u64 \<Rightarrow> u64 \<Rightarrow> 'z kmem_scheme \<Rightarrow> (int \<times> 'z kmem_scheme) res" where
  "copyin pagetable dst srcva len s =
     (if 0 < len then
        let va0 = PGROUNDDOWN srcva
        in bindR (walkaddr pagetable va0 s) (\<lambda>pa0.
             if pa0 = 0 then Inr (-1, s)
             else let n = chunk srcva len
                  in copyin pagetable (dst + n) (va0 + PGSIZE) (len - n)
                       (s\<lparr>pmem := memmove (pmem s) dst (pa0 + (srcva - va0)) (ucast n)\<rparr>))
      else Inr (0, s))"
  by pat_completeness auto
termination
  by (relation "measure (\<lambda>(pt, dst, va, len, s). unat len)") (auto simp: chunk_measure)

declare copyin.simps [simp del]

text \<open>The inner loop of \<open>copyinstr\<close>: at most \<open>n\<close> bytes from \<open>p\<close>, stopping at
  a NUL; the result is the memory, the number of bytes before the stop, and
  \<open>got_null\<close>.\<close>

fun copyinstr_page :: "mem \<Rightarrow> u64 \<Rightarrow> u64 \<Rightarrow> nat \<Rightarrow> mem \<times> nat \<times> bool" where
  "copyinstr_page m dst p 0 = (m, 0, False)"
| "copyinstr_page m dst p (Suc n) =
     (if m p = 0 then (m(dst := 0), 0, True)
      else let (m', k, got_null) = copyinstr_page (m(dst := m p)) (dst + 1) (p + 1) n
           in (m', Suc k, got_null))"

lemma copyinstr_page_le: "copyinstr_page m dst p n = (m', k, g) \<Longrightarrow> k \<le> n"
  by (induction n arbitrary: m dst p m' k) (auto split: if_splits prod.splits)

lemma copyinstr_page_full: "copyinstr_page m dst p n = (m', k, False) \<Longrightarrow> k = n"
  by (induction n arbitrary: m dst p m' k) (auto split: if_splits prod.splits)

function copyinstr :: "u64 \<Rightarrow> u64 \<Rightarrow> u64 \<Rightarrow> u64 \<Rightarrow> 'z kmem_scheme \<Rightarrow> (int \<times> 'z kmem_scheme) res" where
  "copyinstr pagetable dst srcva mx s =
     (if 0 < mx then
        let va0 = PGROUNDDOWN srcva
        in bindR (walkaddr pagetable va0 s) (\<lambda>pa0.
             if pa0 = 0 then Inr (-1, s)
             else let (m, k, got_null) =
                        copyinstr_page (pmem s) dst (pa0 + (srcva - va0)) (unat (chunk srcva mx))
                  in if got_null then Inr (0, s\<lparr>pmem := m\<rparr>)
                     else copyinstr pagetable (dst + of_nat k) (va0 + PGSIZE) (mx - of_nat k)
                            (s\<lparr>pmem := m\<rparr>))
      else Inr (-1, s))"
  by pat_completeness auto
termination
  by (relation "measure (\<lambda>(pt, dst, va, mx, s). unat mx)")
    (auto dest!: copyinstr_page_full [OF sym] simp: chunk_measure)

declare copyinstr.simps [simp del]

subsection \<open>The kernel page table\<close>

text \<open>\<open>etext\<close> and \<open>trampoline\<close> are linker symbols; \<open>satp\<close> is the register of
  the hart that runs \<open>kvminithart\<close>.\<close>

record vm = kmem +
  kernel_pagetable :: u64
  etext :: u64
  trampoline :: u64
  satp :: u64

definition kvmmap :: "u64 \<Rightarrow> u64 \<Rightarrow> u64 \<Rightarrow> u64 \<Rightarrow> 'z vm_scheme \<Rightarrow> 'z vm_scheme res" where
  "kvmmap va pa sz perm s =
     bindR (mappages (kernel_pagetable s) va sz pa perm s) (\<lambda>(r, s1).
       if r \<noteq> 0 then Inl (Panic ''kvmmap'') else Inr s1)"

definition kvminit :: "'z vm_scheme \<Rightarrow> 'z vm_scheme res" where
  "kvminit s =
     (let (kpt, s1) = kalloc s;
          s2 = s1\<lparr>kernel_pagetable := kpt, pmem := memset (pmem s1) kpt 0 (ucast PGSIZE)\<rparr>
      in bindR (kvmmap UART0 UART0 PGSIZE (PTE_R OR PTE_W) s2) (\<lambda>s3.
         bindR (kvmmap VIRTIO0 VIRTIO0 PGSIZE (PTE_R OR PTE_W) s3) (\<lambda>s4.
         bindR (kvmmap CLINT CLINT 0x10000 (PTE_R OR PTE_W) s4) (\<lambda>s5.
         bindR (kvmmap PLIC PLIC 0x400000 (PTE_R OR PTE_W) s5) (\<lambda>s6.
         bindR (kvmmap KERNBASE KERNBASE (etext s6 - KERNBASE) (PTE_R OR PTE_X) s6) (\<lambda>s7.
         bindR (kvmmap (etext s7) (etext s7) (PHYSTOP - etext s7) (PTE_R OR PTE_W) s7) (\<lambda>s8.
         kvmmap TRAMPOLINE (trampoline s8) PGSIZE (PTE_R OR PTE_X) s8)))))))"

definition kvminithart :: "'z vm_scheme \<Rightarrow> 'z vm_scheme" where
  "kvminithart s = s\<lparr>satp := MAKE_SATP (kernel_pagetable s)\<rparr>"

definition kvmpa :: "u64 \<Rightarrow> 'z vm_scheme \<Rightarrow> u64 res" where
  "kvmpa va s =
     (let off = va mod PGSIZE
      in bindR (walk (kernel_pagetable s) va False s) (\<lambda>(pte, _).
           if pte = 0 then Inl (Panic ''kvmpa'')
           else if load64 (pmem s) pte AND PTE_V = 0 then Inl (Panic ''kvmpa'')
           else Inr (PTE2PA (load64 (pmem s) pte) + off)))"

end
