(* ===== verification/PageTable.thy ===== *)
theory PageTable
  imports Vm
begin

text \<open>
  The page tables of \<open>kernel/vm.c\<close> as trees. \<open>pt_page\<close> follows valid entries from
  the root; \<open>pt_wf\<close> says that the pages reached are aligned and all different, so a
  store into one entry changes one edge of the tree. \<open>pte_of\<close> is the abstract table, a
  map from virtual addresses to leaf entries; \<open>walk\<close>, \<open>mappages\<close>,
  \<open>uvmunmap\<close>, \<open>copyout\<close> and \<open>copyin\<close> are characterised as operations
  on it.
\<close>

section \<open>The tree of a page table\<close>

definition valid_pte :: "u64 \<Rightarrow> bool" where
  "valid_pte e \<longleftrightarrow> e AND PTE_V \<noteq> 0"

fun pt_page :: "mem \<Rightarrow> u64 \<Rightarrow> nat list \<Rightarrow> u64 option" where
  "pt_page m p [] = Some p"
| "pt_page m p (i # is) =
     (let e = load64 m (pte_addr p (of_nat i))
      in if valid_pte e then pt_page m (PTE2PA e) is else None)"

text \<open>The two indices \<open>walk\<close> follows.\<close>

definition vpath :: "u64 \<Rightarrow> nat list" where
  "vpath va = [unat (PX 2 va), unat (PX 1 va)]"

definition pte_of :: "mem \<Rightarrow> u64 \<Rightarrow> u64 \<Rightarrow> u64" where
  "pte_of m pt va =
     (case pt_page m pt (vpath va) of None \<Rightarrow> 0 | Some q \<Rightarrow> load64 m (pte_addr q (PX 0 va)))"

definition tree_path :: "nat list \<Rightarrow> bool" where
  "tree_path is \<longleftrightarrow> length is \<le> 2 \<and> set is \<subseteq> {..<512}"

definition pt_pages :: "mem \<Rightarrow> u64 \<Rightarrow> u64 set" where
  "pt_pages m pt = {q. \<exists>is. tree_path is \<and> pt_page m pt is = Some q}"

definition pt_wf :: "mem \<Rightarrow> u64 \<Rightarrow> bool" where
  "pt_wf m pt \<longleftrightarrow>
     (\<forall>q\<in>pt_pages m pt. page_aligned q \<and> q \<noteq> 0) \<and>
     (\<forall>is js q. tree_path is \<longrightarrow> tree_path js \<longrightarrow> pt_page m pt is = Some q \<longrightarrow>
        pt_page m pt js = Some q \<longrightarrow> is = js)"

lemma pt_page_snoc:
  "pt_page m p (is @ [i]) =
     (case pt_page m p is of None \<Rightarrow> None
      | Some q \<Rightarrow> let e = load64 m (pte_addr q (of_nat i))
                 in if valid_pte e then Some (PTE2PA e) else None)"
  by (induction "is" arbitrary: p) (auto simp: Let_def)

lemma pt_page_prefix_None: "pt_page m p is = None \<Longrightarrow> pt_page m p (is @ js) = None"
  by (induction "is" arbitrary: p) (auto simp: Let_def split: if_splits)

text \<open>A path is determined by the entries on it.\<close>

lemma pt_page_cong:
  assumes "\<And>js q j ks. is = js @ j # ks \<Longrightarrow> pt_page m p js = Some q \<Longrightarrow>
      load64 m' (pte_addr q (of_nat j)) = load64 m (pte_addr q (of_nat j))"
  shows "pt_page m' p is = pt_page m p is"
  using assms
proof (induction "is" rule: rev_induct)
  case Nil
  then show ?case by simp
next
  case (snoc i "is")
  have "pt_page m' p is = pt_page m p is"
    by (rule snoc.IH) (use snoc.prems in \<open>force simp: append_eq_append_conv2\<close>)
  moreover have "load64 m' (pte_addr q (of_nat i)) = load64 m (pte_addr q (of_nat i))"
    if "pt_page m p is = Some q" for q using snoc.prems [of "is" i "[]"] that by simp
  ultimately show ?case by (simp add: pt_page_snoc split: option.splits)
qed

section \<open>Addresses of entries\<close>

lemma unat_pte_addr:
  assumes "page_aligned q" and "i < 512"
  shows "unat (pte_addr q (of_nat i)) = unat q + 8 * i"
proof -
  have "pte_addr q (of_nat i) = q + of_nat (8 * i)" by (simp add: pte_addr_def)
  with assms unat_aligned_add [of q "8 * i"] show ?thesis by simp
qed

lemma pte_addr_in_page: "i < 512 \<Longrightarrow> k < 8 \<Longrightarrow> in_page q (pte_addr q (of_nat i) + of_nat k)"
  using in_page_word_offset [of i k q] by (simp add: pte_addr_def)

lemma load_pte_cong:
  "(\<And>a. in_page q a \<Longrightarrow> m a = m' a) \<Longrightarrow> i < 512 \<Longrightarrow>
   load64 m (pte_addr q (of_nat i)) = load64 m' (pte_addr q (of_nat i))"
  using load64_page_cong [of q m m' i] by (simp add: pte_addr_def)

lemma store_pte_outside:
  "i < 512 \<Longrightarrow> \<not> in_page q a \<Longrightarrow> store64 m (pte_addr q (of_nat i)) v a = m a"
  using store64_outside_page [of i q a m v] by (simp add: pte_addr_def)

lemma load_store_pte_other:
  assumes "page_aligned q" and "page_aligned q'" and "i < 512" and "j < 512"
    and "q \<noteq> q' \<or> i \<noteq> j"
  shows "load64 (store64 m (pte_addr q (of_nat i)) v) (pte_addr q' (of_nat j)) =
    load64 m (pte_addr q' (of_nat j))"
proof (cases "q = q'")
  case True
  then have "i < j \<or> j < i" using assms(5) by auto
  moreover obtain k where "unat q = 4096 * k" "k < 4503599627370496"
    using assms(1) by (rule page_alignedE)
  ultimately show ?thesis
    using True assms(2-4)
    by (intro load64_store64_other disjoint_runs_unat) (auto simp: unat_pte_addr)
next
  case False
  have "\<not> in_page q a" if "in_page q' a" for a
    using False that assms(1-2) in_page_unique by blast
  then show ?thesis
    by (intro load_pte_cong [symmetric] assms) (simp add: store_pte_outside assms)
qed

section \<open>Stores and the tree\<close>

lemma tree_path_snoc: "tree_path (is @ [i]) \<longleftrightarrow> tree_path is \<and> length is < 2 \<and> i < 512"
  by (auto simp: tree_path_def)

lemma tree_path_Nil [simp]: "tree_path []"
  by (simp add: tree_path_def)

lemma tree_path_appendD: "tree_path (is @ js) \<Longrightarrow> tree_path is"
  by (simp add: tree_path_def)

lemma unat_PX_bound: "unat (PX l va) < 512"
  using PX_bound [of l va] by (simp add: word_less_nat_alt)

lemma tree_path_vpath [simp]: "tree_path (vpath va)"
  by (simp add: tree_path_def vpath_def unat_PX_bound)

lemma pt_root_in_pages [simp]: "pt \<in> pt_pages m pt"
  by (auto simp: pt_pages_def intro!: exI [of _ "[]"])

lemma pt_pagesI: "tree_path is \<Longrightarrow> pt_page m pt is = Some q \<Longrightarrow> q \<in> pt_pages m pt"
  by (auto simp: pt_pages_def)

lemma pt_wf_inj:
  "pt_wf m pt \<Longrightarrow> tree_path is \<Longrightarrow> tree_path js \<Longrightarrow> pt_page m pt is = Some q \<Longrightarrow>
   pt_page m pt js = Some q \<Longrightarrow> is = js"
  by (simp add: pt_wf_def)

lemma pt_wf_page: "pt_wf m pt \<Longrightarrow> q \<in> pt_pages m pt \<Longrightarrow> page_aligned q \<and> q \<noteq> 0"
  by (simp add: pt_wf_def)

lemma pt_page_same:
  assumes "\<And>js q j. tree_path (js @ [j]) \<Longrightarrow> pt_page m pt js = Some q \<Longrightarrow>
      load64 m' (pte_addr q (of_nat j)) = load64 m (pte_addr q (of_nat j))"
    and "tree_path is"
  shows "pt_page m' pt is = pt_page m pt is"
proof (rule pt_page_cong)
  fix js q j ks
  assume "is = js @ j # ks" and q: "pt_page m pt js = Some q"
  then have "tree_path ((js @ [j]) @ ks)" using assms(2) by simp
  then show "load64 m' (pte_addr q (of_nat j)) = load64 m (pte_addr q (of_nat j))"
    using assms(1) q tree_path_appendD by blast
qed

lemma same_tree:
  assumes "\<And>is. tree_path is \<Longrightarrow> pt_page m' pt is = pt_page m pt is"
  shows "pt_pages m' pt = pt_pages m pt" and "pt_wf m' pt = pt_wf m pt"
proof -
  show pages: "pt_pages m' pt = pt_pages m pt" using assms by (auto simp: pt_pages_def)
  show "pt_wf m' pt = pt_wf m pt" using assms by (simp add: pt_wf_def pages)
qed

text \<open>Memory that agrees on the pages of a table holds the same table.\<close>

lemma pt_frame:
  assumes "\<And>q a. q \<in> pt_pages m pt \<Longrightarrow> in_page q a \<Longrightarrow> m' a = m a"
  shows "tree_path is \<Longrightarrow> pt_page m' pt is = pt_page m pt is"
    and "pt_pages m' pt = pt_pages m pt" and "pt_wf m' pt = pt_wf m pt"
    and "pte_of m' pt va = pte_of m pt va"
proof -
  have entry: "load64 m' (pte_addr q (of_nat j)) = load64 m (pte_addr q (of_nat j))"
    if "q \<in> pt_pages m pt" "j < 512" for q j
    using that assms by (intro load_pte_cong)
  show same: "pt_page m' pt is = pt_page m pt is" if "tree_path is" for "is"
    by (rule pt_page_same [OF _ that]) (auto simp: tree_path_snoc intro: entry pt_pagesI)
  show "pt_pages m' pt = pt_pages m pt" "pt_wf m' pt = pt_wf m pt"
    using same_tree [OF same] by simp_all
  show "pte_of m' pt va = pte_of m pt va"
    using entry [OF pt_pagesI [OF tree_path_vpath], of va _ "unat (PX 0 va)"]
    by (auto simp: pte_of_def same unat_PX_bound split: option.split)
qed

text \<open>A store into an entry of a bottom-level page changes one leaf entry.\<close>

lemma leaf_store:
  fixes v :: u64
  assumes wf: "pt_wf m pt" and q: "pt_page m pt [i, j] = Some q" and ijk: "i < 512" "j < 512" "k < 512"
  defines "m' \<equiv> store64 m (pte_addr q (of_nat k)) v"
  shows "tree_path is \<Longrightarrow> pt_page m' pt is = pt_page m pt is"
    and "pte_of m' pt va =
      (if vpath va = [i, j] \<and> unat (PX 0 va) = k then v else pte_of m pt va)"
proof -
  have path: "tree_path [i, j]" using ijk by (simp add: tree_path_def)
  have al: "page_aligned q" using pt_wf_page [OF wf pt_pagesI [OF path q]] by simp
  show same: "pt_page m' pt is = pt_page m pt is" if "tree_path is" for "is"
  proof (rule pt_page_same [OF _ that])
    fix js q' l
    assume js: "tree_path (js @ [l])" and q': "pt_page m pt js = Some q'"
    then have tp: "tree_path js" "length js < 2" "l < 512" by (auto simp: tree_path_snoc)
    then have "q' \<noteq> q" using pt_wf_inj [OF wf tp(1) path q'] q by auto
    moreover have "page_aligned q'" using pt_wf_page [OF wf pt_pagesI [OF tp(1) q']] by simp
    ultimately show "load64 m' (pte_addr q' (of_nat l)) = load64 m (pte_addr q' (of_nat l))"
      using al ijk tp unfolding m'_def by (intro load_store_pte_other) auto
  qed
  show "pte_of m' pt va =
      (if vpath va = [i, j] \<and> unat (PX 0 va) = k then v else pte_of m pt va)"
  proof (cases "pt_page m pt (vpath va)")
    case None
    then show ?thesis using q by (auto simp: pte_of_def same)
  next
    case (Some q')
    have al': "page_aligned q'" using pt_wf_page [OF wf pt_pagesI [OF _ Some]] by simp
    have "q' = q \<longleftrightarrow> vpath va = [i, j]"
      using pt_wf_inj [OF wf _ path Some] q Some by auto
    moreover have "load64 m' (pte_addr q' (of_nat (unat (PX 0 va)))) =
        (if q' = q \<and> unat (PX 0 va) = k then v else load64 m (pte_addr q' (of_nat (unat (PX 0 va)))))"
      using load_store_pte_other [OF al al' ijk(3) unat_PX_bound] by (auto simp: m'_def)
    ultimately show ?thesis using Some by (simp add: pte_of_def same)
  qed
qed

text \<open>Hanging a fresh zeroed page below an invalid entry adds one node and no leaf.\<close>

lemma valid_pte_PA2PTE [simp]: "valid_pte (PA2PTE p OR PTE_V)"
proof -
  have "(PA2PTE p OR 1) AND 1 = (1 :: u64)" by (rule bit_word_eqI) (auto simp: bit_simps)
  then show ?thesis by (simp add: valid_pte_def)
qed

lemma not_valid_pte_0 [simp]: "\<not> valid_pte 0"
  by (simp add: valid_pte_def)

definition fresh_node :: "mem \<Rightarrow> mem \<Rightarrow> u64 \<Rightarrow> u64 \<Rightarrow> u64 \<Rightarrow> nat list \<Rightarrow> nat \<Rightarrow> bool" where
  "fresh_node m m' pt q p is i \<longleftrightarrow>
     pt_wf m pt \<and> pt_page m pt is = Some q \<and> tree_path (is @ [i]) \<and>
     \<not> valid_pte (load64 m (pte_addr q (of_nat i))) \<and>
     p \<notin> pt_pages m pt \<and> page_aligned p \<and> p \<noteq> 0 \<and>
     (\<forall>j<512. load64 m' (pte_addr p (of_nat j)) = 0) \<and>
     (\<forall>q'\<in>pt_pages m pt. \<forall>j<512. load64 m' (pte_addr q' (of_nat j)) =
        (if q' = q \<and> j = i then PA2PTE p OR PTE_V else load64 m (pte_addr q' (of_nat j))))"

lemma fresh_nodeD:
  assumes "fresh_node m m' pt q p is i"
  shows "pt_wf m pt" and "pt_page m pt is = Some q" and "tree_path (is @ [i])"
    and "pt_page m pt (is @ [i]) = None" and "p \<notin> pt_pages m pt"
    and "page_aligned p" and "p \<noteq> 0"
    and "j < 512 \<Longrightarrow> load64 m' (pte_addr p (of_nat j)) = 0"
    and "q' \<in> pt_pages m pt \<Longrightarrow> j < 512 \<Longrightarrow> load64 m' (pte_addr q' (of_nat j)) =
        (if q' = q \<and> j = i then PA2PTE p OR PTE_V else load64 m (pte_addr q' (of_nat j)))"
  using assms by (simp_all add: fresh_node_def pt_page_snoc)

lemma fresh_node_tree:
  assumes fn: "fresh_node m m' pt q p is i"
  shows "tree_path js \<Longrightarrow> pt_page m' pt js = (if js = is @ [i] then Some p else pt_page m pt js)"
proof (induction js rule: rev_induct)
  case Nil
  then show ?case by simp
next
  case (snoc j js)
  note D = fresh_nodeD [OF fn]
  from snoc have js: "tree_path js" "j < 512" and IH: "pt_page m' pt js =
      (if js = is @ [i] then Some p else pt_page m pt js)"
    by (auto simp: tree_path_snoc)
  have goal: "js @ [j] = is @ [i] \<longleftrightarrow> js = is \<and> j = i" by simp
  show ?case
  proof (cases "js = is @ [i]")
    case True
    then have "pt_page m' pt js = Some p" "pt_page m pt js = None" "js \<noteq> is"
      using IH D(4) by simp_all
    with D(8) [OF js(2)] show ?thesis
      unfolding pt_page_snoc [of m' pt js j] pt_page_snoc [of m pt js j] goal by simp
  next
    case False
    then have m': "pt_page m' pt js = pt_page m pt js" using IH by simp
    show ?thesis
    proof (cases "pt_page m pt js")
      case None
      then have "js \<noteq> is" using D(2) by auto
      then show ?thesis
        unfolding pt_page_snoc [of m' pt js j] pt_page_snoc [of m pt js j] goal m' None by simp
    next
      case (Some q')
      have q': "q' = q \<longleftrightarrow> js = is"
        using pt_wf_inj [OF D(1) js(1) tree_path_appendD [OF D(3)] Some] D(2) Some by auto
      show ?thesis
        unfolding pt_page_snoc [of m' pt js j] pt_page_snoc [of m pt js j] goal m' Some
        using D(6) D(9) [OF pt_pagesI [OF js(1) Some] js(2)] q' by (simp add: PTE2PA_PA2PTE)
    qed
  qed
qed

lemma fresh_node_pages:
  assumes fn: "fresh_node m m' pt q p is i"
  shows "pt_pages m' pt = insert p (pt_pages m pt)"
proof (intro equalityI subsetI)
  fix x
  assume "x \<in> pt_pages m' pt"
  then obtain js where "tree_path js" "pt_page m' pt js = Some x" by (auto simp: pt_pages_def)
  then show "x \<in> insert p (pt_pages m pt)"
    by (auto simp: fresh_node_tree [OF fn] pt_pages_def split: if_splits)
next
  fix x
  assume "x \<in> insert p (pt_pages m pt)"
  then consider "x = p" | js where "tree_path js" "pt_page m pt js = Some x"
    by (auto simp: pt_pages_def)
  then show "x \<in> pt_pages m' pt"
  proof cases
    case 1
    show ?thesis
      using fresh_node_tree [OF fn fresh_nodeD(3) [OF fn]] 1 by (intro pt_pagesI [OF fresh_nodeD(3) [OF fn]]) simp
  next
    case 2
    then have "js \<noteq> is @ [i]" using fresh_nodeD(4) [OF fn] by auto
    then show ?thesis
      using 2 fresh_node_tree [OF fn 2(1)] by (intro pt_pagesI [OF 2(1)]) simp
  qed
qed

lemma fresh_node_wf:
  assumes fn: "fresh_node m m' pt q p is i"
  shows "pt_wf m' pt"
proof -
  note D = fresh_nodeD [OF fn]
  have "js = ks" if "tree_path js" "tree_path ks" "pt_page m' pt js = Some r" "pt_page m' pt ks = Some r"
    for js ks r
    using that D(5) pt_wf_inj [OF D(1), of js ks r] pt_pagesI [of js m pt p] pt_pagesI [of ks m pt p]
    by (auto simp: fresh_node_tree [OF fn] split: if_splits)
  then show ?thesis
    using D(6,7) pt_wf_page [OF D(1)] by (auto simp: pt_wf_def fresh_node_pages [OF fn])
qed

lemma fresh_node_pte_of:
  assumes fn: "fresh_node m m' pt q p is i"
  shows "pte_of m' pt va = pte_of m pt va"
proof -
  note D = fresh_nodeD [OF fn]
  have tree: "pt_page m' pt (vpath va) =
      (if vpath va = is @ [i] then Some p else pt_page m pt (vpath va))"
    by (simp add: fresh_node_tree [OF fn])
  show ?thesis
  proof (cases "pt_page m pt (vpath va)")
    case None
    then show ?thesis
      using tree D(8) [OF unat_PX_bound, of 0 va] by (simp add: pte_of_def)
  next
    case (Some q')
    have "length is < 2" using D(3) by (simp add: tree_path_snoc)
    then have "vpath va \<noteq> is" by (auto simp: vpath_def)
    then have "q' \<noteq> q"
      using pt_wf_inj [OF D(1) tree_path_vpath tree_path_appendD [OF D(3)] Some] D(2) by auto
    moreover have "vpath va \<noteq> is @ [i]" using D(4) Some by auto
    ultimately show ?thesis
      using Some tree D(9) [OF pt_pagesI [OF tree_path_vpath Some] unat_PX_bound, of 0 va]
      by (simp add: pte_of_def)
  qed
qed

section \<open>\<open>walk\<close>\<close>

text \<open>The pages of the table are in memory, none of them is free.\<close>

definition vm_inv :: "'z kmem_scheme \<Rightarrow> u64 list \<Rightarrow> u64 \<Rightarrow> bool" where
  "vm_inv s ps pt \<longleftrightarrow> kmem_inv s ps \<and> pt_wf (pmem s) pt \<and> pt_pages (pmem s) pt \<inter> set ps = {}"

text \<open>Only the memory and the free list differ.\<close>

definition kmem_only :: "'z kmem_scheme \<Rightarrow> 'z kmem_scheme \<Rightarrow> bool" where
  "kmem_only s s' \<longleftrightarrow> s' = s\<lparr>pmem := pmem s', freelist := freelist s'\<rparr>"

lemma kmem_only_trans: "kmem_only s s1 \<Longrightarrow> kmem_only s1 s2 \<Longrightarrow> kmem_only s s2"
  unfolding kmem_only_def by (cases s; cases s1; cases s2) simp

lemma kmem_only_refl [simp]: "kmem_only s s"
  by (simp add: kmem_only_def)

lemma kmem_only_upd [simp]:
  "kmem_only s (s1\<lparr>pmem := m\<rparr>) = kmem_only s s1" "kmem_only s (s1\<lparr>freelist := f\<rparr>) = kmem_only s s1"
  by (cases s; cases s1; simp add: kmem_only_def)+

lemma kmem_only_kend: "kmem_only s s' \<Longrightarrow> kend s' = kend s"
  unfolding kmem_only_def by (cases s; cases s') simp

text \<open>From \<open>s\<close> to \<open>s'\<close> the table only gained page-table pages, taken from the front of
  the free list, and no byte outside the pages of the table changed; \<open>pt_ext\<close>: no leaf
  entry changed either.\<close>

definition pt_upd :: "u64 \<Rightarrow> 'z kmem_scheme \<Rightarrow> u64 list \<Rightarrow> 'z kmem_scheme \<Rightarrow> u64 list \<Rightarrow> bool" where
  "pt_upd pt s ps s' ps' \<longleftrightarrow>
     vm_inv s' ps' pt \<and>
     (\<exists>used. ps = used @ ps' \<and> pt_pages (pmem s') pt = pt_pages (pmem s) pt \<union> set used) \<and>
     (\<forall>a. (\<forall>q\<in>pt_pages (pmem s') pt. \<not> in_page q a) \<longrightarrow> pmem s' a = pmem s a) \<and>
     kmem_only s s'"

definition pt_ext :: "u64 \<Rightarrow> 'z kmem_scheme \<Rightarrow> u64 list \<Rightarrow> 'z kmem_scheme \<Rightarrow> u64 list \<Rightarrow> bool" where
  "pt_ext pt s ps s' ps' \<longleftrightarrow>
     pt_upd pt s ps s' ps' \<and> (\<forall>va. pte_of (pmem s') pt va = pte_of (pmem s) pt va)"

lemma pt_updD:
  assumes "pt_upd pt s ps s' ps'"
  shows "vm_inv s' ps' pt"
    and "pt_pages (pmem s') pt = pt_pages (pmem s) pt \<union> set (take (length ps - length ps') ps)"
    and "\<exists>used. ps = used @ ps'" and "kmem_only s s'"
    and "(\<And>q. q \<in> pt_pages (pmem s') pt \<Longrightarrow> \<not> in_page q a) \<Longrightarrow> pmem s' a = pmem s a"
  using assms by (auto simp: pt_upd_def)

lemma pt_upd_trans:
  assumes a: "pt_upd pt s ps s1 ps1" and b: "pt_upd pt s1 ps1 s2 ps2"
  shows "pt_upd pt s ps s2 ps2"
proof -
  obtain u1 u2 where u: "ps = u1 @ u2 @ ps2" "ps1 = u2 @ ps2"
    using pt_updD(3) [OF a] pt_updD(3) [OF b] by auto
  have "pt_pages (pmem s2) pt = pt_pages (pmem s) pt \<union> set (u1 @ u2)"
    using pt_updD(2) [OF a] pt_updD(2) [OF b] u by auto
  moreover have "\<forall>a. (\<forall>q\<in>pt_pages (pmem s2) pt. \<not> in_page q a) \<longrightarrow> pmem s2 a = pmem s a"
    using pt_updD(5) [OF a] pt_updD(5) [OF b] pt_updD(2) [OF b] by simp
  moreover have "kmem_only s s2" using pt_updD(4) [OF a] pt_updD(4) [OF b] by (rule kmem_only_trans)
  ultimately show ?thesis using u pt_updD(1) [OF b] by (auto simp: pt_upd_def)
qed

lemma pt_extD:
  assumes "pt_ext pt s ps s' ps'"
  shows "pt_upd pt s ps s' ps'" and "vm_inv s' ps' pt"
    and "pte_of (pmem s') pt va = pte_of (pmem s) pt va"
  using assms by (auto simp: pt_ext_def pt_upd_def)

lemma pt_ext_refl: "vm_inv s ps pt \<Longrightarrow> pt_ext pt s ps s ps"
  by (simp add: pt_ext_def pt_upd_def)

lemma pt_ext_trans: "pt_ext pt s ps s1 ps1 \<Longrightarrow> pt_ext pt s1 ps1 s2 ps2 \<Longrightarrow> pt_ext pt s ps s2 ps2"
  unfolding pt_ext_def by (auto intro: pt_upd_trans)

lemma vm_inv_page:
  "vm_inv s ps pt \<Longrightarrow> q \<in> pt_pages (pmem s) pt \<Longrightarrow> page_aligned q \<and> q \<noteq> 0 \<and> q \<notin> set ps"
  by (auto simp: vm_inv_def dest: pt_wf_page)

lemma pte_addr_nonzero: "page_aligned q \<Longrightarrow> q \<noteq> 0 \<Longrightarrow> pte_addr q (PX l va) \<noteq> 0"
proof -
  assume q: "page_aligned q" "q \<noteq> 0"
  then have "unat (pte_addr q (of_nat (unat (PX l va)))) \<noteq> 0"
    by (subst unat_pte_addr) (simp_all add: unat_PX_bound unat_eq_zero)
  then show ?thesis by auto
qed

text \<open>Without \<open>alloc\<close>, \<open>walk\<close> is a lookup in the tree.\<close>

lemma walk_loop_lookup:
  "walk_loop 2 pt va False s =
     (case pt_page (pmem s) pt (vpath va) of None \<Rightarrow> 0 | Some q \<Rightarrow> pte_addr q (PX 0 va), s)"
  by (simp add: numeral_2_eq_2 vpath_def Let_def valid_pte_def)

lemma walk_lookup:
  "va < MAXVA \<Longrightarrow> walk pt va False s =
     Inr (case pt_page (pmem s) pt (vpath va) of None \<Rightarrow> 0 | Some q \<Rightarrow> pte_addr q (PX 0 va), s)"
  by (simp add: walk_def walk_loop_lookup)

lemma walkaddr_eq:
  assumes "pt_wf (pmem s) pt"
  shows "walkaddr pt va s =
    Inr (let e = pte_of (pmem s) pt va
         in if va < MAXVA \<and> valid_pte e \<and> e AND PTE_U \<noteq> 0 then PTE2PA e else 0)"
proof (cases "va < MAXVA")
  case True
  show ?thesis
  proof (cases "pt_page (pmem s) pt (vpath va)")
    case None
    with True show ?thesis by (simp add: walkaddr_def walk_lookup pte_of_def)
  next
    case (Some q)
    then have "pte_addr q (PX 0 va) \<noteq> 0"
      using pt_wf_page [OF assms pt_pagesI [OF tree_path_vpath Some]] by (intro pte_addr_nonzero) auto
    with True Some show ?thesis
      by (auto simp: walkaddr_def walk_lookup pte_of_def valid_pte_def Let_def)
  qed
qed (auto simp: walkaddr_def not_less Let_def)

lemma not_in_page:
  "page_aligned p \<Longrightarrow> page_aligned q \<Longrightarrow> p \<noteq> q \<Longrightarrow> in_page q a \<Longrightarrow> \<not> in_page p a"
  using in_page_unique by blast

text \<open>One allocating step of \<open>walk\<close>.\<close>

lemma kalloc_parts:
  assumes "kmem_inv s (p # ps)"
  shows "kalloc s = (p, s\<lparr>freelist := load64 (pmem s) p, pmem := \<lambda>a. if in_page p a then 5 else pmem s a\<rparr>)"
  using assms by (simp add: kmem_inv_def kalloc_def memset_page ucast_fill Let_def cong: if_cong)

lemma walk_step_alloc:
  assumes inv: "vm_inv s (p # ps) pt" and q: "pt_page (pmem s) pt is = Some q"
    and path: "tree_path (is @ [i])"
    and invalid: "\<not> valid_pte (load64 (pmem s) (pte_addr q (of_nat i)))"
  defines "s1 \<equiv> snd (kalloc s)"
  defines "s2 \<equiv> s1\<lparr>pmem := store64 (memset (pmem s1) p 0 4096) (pte_addr q (of_nat i))
      (PA2PTE p OR PTE_V)\<rparr>"
  shows "pt_ext pt s (p # ps) s2 ps" and "pt_page (pmem s2) pt (is @ [i]) = Some p"
proof -
  let ?z = "\<lambda>a. if in_page p a then 0 else pmem s a"
  have kinv: "kmem_inv s (p # ps)" and wf: "pt_wf (pmem s) pt" using inv by (simp_all add: vm_inv_def)
  obtain s1' where s1': "kalloc s = (p, s1')" "kmem_inv s1' ps"
    "\<forall>a. pmem s1' a = (if in_page p a then 5 else pmem s a)"
    using kalloc_inv [OF kinv] by blast
  have p: "page_aligned p" "p \<noteq> 0" "p \<notin> set ps"
    using kpages.inv_pages [OF kinv] by (auto simp: valid_page_def)
  have q': "page_aligned q" "q \<noteq> p" "q \<notin> set ps" "i < 512" "q \<in> pt_pages (pmem s) pt"
    using vm_inv_page [OF inv pt_pagesI [OF tree_path_appendD [OF path] q]] path
      pt_pagesI [OF tree_path_appendD [OF path] q]
    by (auto simp: tree_path_snoc)
  have m2: "pmem s2 = store64 ?z (pte_addr q (of_nat i)) (PA2PTE p OR PTE_V)"
    by (simp add: s2_def s1_def kalloc_parts [OF kinv] memset_page cong: if_cong)
  have out: "pmem s2 a = pmem s a" if "\<not> in_page p a" "\<not> in_page q a" for a
    using that q'(4) by (simp add: m2 store_pte_outside)
  have fn: "fresh_node (pmem s) (pmem s2) pt q p is i"
    unfolding fresh_node_def
  proof (intro conjI ballI allI impI)
    show "p \<notin> pt_pages (pmem s) pt" using inv by (auto simp: vm_inv_def)
    show "load64 (pmem s2) (pte_addr p (of_nat j)) = 0" if "j < 512" for j
    proof -
      have "load64 ?z (pte_addr p (of_nat j)) = load64 (\<lambda>_. 0) (pte_addr p (of_nat j))"
        using that by (intro load_pte_cong) simp_all
      then show ?thesis
        unfolding m2 using that p(1) q' by (subst load_store_pte_other) simp_all
    qed
    fix q2 j
    assume q2: "q2 \<in> pt_pages (pmem s) pt" and j: "(j::nat) < 512"
    have "page_aligned q2" "q2 \<noteq> p" using vm_inv_page [OF inv q2] by auto
    then have "load64 ?z (pte_addr q2 (of_nat j)) = load64 (pmem s) (pte_addr q2 (of_nat j))"
      using j not_in_page [OF p(1) \<open>page_aligned q2\<close>] by (intro load_pte_cong) auto
    moreover have "q \<noteq> q2 \<or> i \<noteq> j \<Longrightarrow>
        load64 (pmem s2) (pte_addr q2 (of_nat j)) = load64 ?z (pte_addr q2 (of_nat j))"
      unfolding m2 using q' j \<open>page_aligned q2\<close> by (intro load_store_pte_other)
    ultimately show "load64 (pmem s2) (pte_addr q2 (of_nat j)) =
        (if q2 = q \<and> j = i then PA2PTE p OR PTE_V else load64 (pmem s) (pte_addr q2 (of_nat j)))"
      by (cases "q2 = q \<and> j = i") (auto simp: m2)
  qed (use wf q path invalid p in simp_all)
  have "kmem_inv s2 ps"
  proof (rule kmem_inv_frame [OF s1'(2)])
    fix x a
    assume x: "x \<in> set ps" "in_page x a"
    then have "page_aligned x" using kmem_inv_valid [OF s1'(2)] by (simp add: valid_page_def)
    then have "\<not> in_page p a" "\<not> in_page q a"
      using x p q' not_in_page [of p x a] not_in_page [of q x a] by auto
    then show "pmem s2 a = pmem s1' a" using out s1'(3) by simp
  qed (simp_all add: s2_def s1_def s1'(1))
  moreover have "pt_pages (pmem s2) pt \<inter> set ps = {}"
    using inv p by (auto simp: fresh_node_pages [OF fn] vm_inv_def)
  moreover have "kmem_only s s2"
    by (simp add: s2_def s1_def kalloc_parts [OF kinv])
  moreover have "\<forall>a. (\<forall>x\<in>pt_pages (pmem s2) pt. \<not> in_page x a) \<longrightarrow> pmem s2 a = pmem s a"
    using out q'(5) by (auto simp: fresh_node_pages [OF fn])
  ultimately show "pt_ext pt s (p # ps) s2 ps"
    unfolding pt_ext_def pt_upd_def vm_inv_def
    by (intro conjI exI [of _ "[p]"])
      (simp_all add: fresh_node_pte_of [OF fn] fresh_node_wf [OF fn] fresh_node_pages [OF fn])
  show "pt_page (pmem s2) pt (is @ [i]) = Some p"
    using fresh_node_tree [OF fn path] by simp
qed

text \<open>The indices still to follow at level \<open>l\<close>.\<close>

primrec vrest :: "nat \<Rightarrow> u64 \<Rightarrow> nat list" where
  "vrest 0 va = []"
| "vrest (Suc l) va = unat (PX (Suc l) va) # vrest l va"

lemma vrest_2: "vrest 2 va = vpath va"
  by (simp add: numeral_2_eq_2 vpath_def)

definition walked :: "u64 \<Rightarrow> u64 \<Rightarrow> u64 \<Rightarrow> 'z kmem_scheme \<Rightarrow> u64 list \<Rightarrow> bool" where
  "walked pt va r s' ps' \<longleftrightarrow>
     (if r = 0 then ps' = []
      else \<exists>q. pt_page (pmem s') pt (vpath va) = Some q \<and> r = pte_addr q (PX 0 va))"

lemma walk_loop_alloc:
  assumes "vm_inv s ps pt" and "pt_page (pmem s) pt is = Some node" and "is @ vrest l va = vpath va"
  shows "\<exists>r s' ps'. walk_loop l node va True s = (r, s') \<and> pt_ext pt s ps s' ps' \<and>
    walked pt va r s' ps' \<and>
    (if r = 0 then length ps < l else length ps \<le> length ps' + l)"
  using assms
proof (induction l arbitrary: "is" node s ps)
  case 0
  then have "pte_addr node (PX 0 va) \<noteq> 0" "pt_page (pmem s) pt (vpath va) = Some node"
    using pte_addr_nonzero vm_inv_page [OF 0(1) pt_pagesI [of "is"]] tree_path_vpath [of va] by auto
  with 0 show ?case using pt_ext_refl [of s ps pt] by (auto simp: walked_def)
next
  case (Suc l)
  let ?i = "unat (PX (Suc l) va)"
  let ?e = "load64 (pmem s) (pte_addr node (PX (Suc l) va))"
  have rest: "(is @ [?i]) @ vrest l va = vpath va" using Suc.prems(3) by simp
  then have path: "tree_path (is @ [?i])" by (metis tree_path_vpath tree_path_appendD)
  show ?case
  proof (cases "valid_pte ?e")
    case True
    then have "pt_page (pmem s) pt (is @ [?i]) = Some (PTE2PA ?e)"
      using Suc.prems(2) by (simp add: pt_page_snoc)
    from Suc.IH [OF Suc.prems(1) this rest] True show ?thesis
      by (auto simp: valid_pte_def split: if_splits intro!: exI)
  next
    case False
    show ?thesis
    proof (cases ps)
      case Nil
      then have "kalloc s = (0, s)" using Suc.prems(1) by (simp add: vm_inv_def kalloc_empty)
      with False Nil Suc.prems(1) show ?thesis
        by (simp add: valid_pte_def walked_def pt_ext_refl)
    next
      case (Cons p ps1)
      have inv: "vm_inv s (p # ps1) pt" using Suc.prems(1) Cons by simp
      then obtain s1 where k: "kalloc s = (p, s1)" and p: "p \<noteq> 0"
        using kalloc_inv [of s p ps1] kpages.inv_pages [of s "p # ps1"] by (auto simp: vm_inv_def)
      let ?s2 = "s1\<lparr>pmem := store64 (memset (pmem s1) p 0 4096) (pte_addr node (PX (Suc l) va))
        (PA2PTE p OR PTE_V)\<rparr>"
      have ext: "pt_ext pt s ps ?s2 ps1" and node: "pt_page (pmem ?s2) pt (is @ [?i]) = Some p"
        using walk_step_alloc [OF inv Suc.prems(2) path] False Cons k by simp_all
      have step: "walk_loop (Suc l) node va True s = walk_loop l p va True ?s2"
        using False k p by (simp add: valid_pte_def Let_def)
      obtain r s' ps' where "walk_loop l p va True ?s2 = (r, s')" "pt_ext pt ?s2 ps1 s' ps'"
        "walked pt va r s' ps'" "if r = 0 then length ps1 < l else length ps1 \<le> length ps' + l"
        using Suc.IH [OF pt_extD(2) [OF ext] node rest] by blast
      with pt_ext_trans [OF ext] Cons show ?thesis
        unfolding step by (intro exI [of _ r] exI [of _ s'] exI [of _ ps']) (simp split: if_splits)
    qed
  qed
qed

lemma walk_alloc:
  assumes "vm_inv s ps pt" and "va < MAXVA"
  shows "\<exists>r s' ps'. walk pt va True s = Inr (r, s') \<and> pt_ext pt s ps s' ps' \<and>
    walked pt va r s' ps' \<and>
    (if r = 0 then length ps < 2 else length ps \<le> length ps' + 2)"
  using walk_loop_alloc [OF assms(1), of "[]" pt 2 va] assms(2) by (auto simp: vrest_2 walk_def)

section \<open>\<open>mappages\<close>\<close>

text \<open>Storing a leaf entry through the pointer \<open>walk\<close> returned.\<close>

lemma vpage_eq_iff:
  assumes "va < MAXVA" and "va' < MAXVA"
  shows "vpath va' = vpath va \<and> PX 0 va' = PX 0 va \<longleftrightarrow> PGROUNDDOWN va' = PGROUNDDOWN va"
proof -
  have d: "unat x div 4096 = unat (PX 2 x) * 262144 + unat (PX 1 x) * 512 + unat (PX 0 x)"
    if "x < MAXVA" for x
    using unat_va_decomp [OF that] by simp
  have eq: "PGROUNDDOWN va' = PGROUNDDOWN va \<longleftrightarrow> unat va' div 4096 = unat va div 4096"
    by (auto simp: word_unat_eq_iff unat_PGROUNDDOWN minus_mod_eq_div_mult)
  show ?thesis
  proof
    assume "vpath va' = vpath va \<and> PX 0 va' = PX 0 va"
    then show "PGROUNDDOWN va' = PGROUNDDOWN va"
      unfolding eq by (simp add: d assms vpath_def)
  next
    assume "PGROUNDDOWN va' = PGROUNDDOWN va"
    then have "unat va' div 4096 = unat va div 4096" unfolding eq .
    then show "vpath va' = vpath va \<and> PX 0 va' = PX 0 va"
      by (simp add: vpath_def word_unat_eq_iff unat_PX_page)
  qed
qed

lemma store_leaf:
  fixes e :: u64
  assumes inv: "vm_inv s ps pt" and q: "pt_page (pmem s) pt (vpath va) = Some q" and va: "va < MAXVA"
  defines "s' \<equiv> s\<lparr>pmem := store64 (pmem s) (pte_addr q (PX 0 va)) e\<rparr>"
  shows "vm_inv s' ps pt"
    and "pt_pages (pmem s') pt = pt_pages (pmem s) pt"
    and "va' < MAXVA \<Longrightarrow> pte_of (pmem s') pt va' =
      (if PGROUNDDOWN va' = PGROUNDDOWN va then e else pte_of (pmem s) pt va')"
    and "(\<And>x. x \<in> pt_pages (pmem s) pt \<Longrightarrow> \<not> in_page x a) \<Longrightarrow> pmem s' a = pmem s a"
    and "kmem_only s s'"
proof -
  let ?k = "unat (PX 0 va)"
  have wf: "pt_wf (pmem s) pt" using inv by (simp add: vm_inv_def)
  have ij: "pt_page (pmem s) pt [unat (PX 2 va), unat (PX 1 va)] = Some q"
    using q by (simp add: vpath_def)
  have m: "pmem s' = store64 (pmem s) (pte_addr q (of_nat ?k)) e" by (simp add: s'_def)
  note leaf = leaf_store [OF wf ij unat_PX_bound unat_PX_bound unat_PX_bound [of 0 va], where v = e, folded m]
  have tree: "pt_page (pmem s') pt is = pt_page (pmem s) pt is" if "tree_path is" for "is"
    by (rule leaf(1) [OF that])
  note qp = vm_inv_page [OF inv pt_pagesI [OF tree_path_vpath q]]
  show pages: "pt_pages (pmem s') pt = pt_pages (pmem s) pt" by (rule same_tree(1) [OF tree])
  have out: "pmem s' a = pmem s a" if "\<not> in_page q a" for a
    using that by (simp only: m store_pte_outside unat_PX_bound simp_thms)
  show "pmem s' a = pmem s a" if "\<And>x. x \<in> pt_pages (pmem s) pt \<Longrightarrow> \<not> in_page x a"
    using out that pt_pagesI [OF tree_path_vpath q] by blast
  have "kmem_inv s' ps"
  proof (rule kmem_inv_frame [of s])
    fix x a
    assume x: "x \<in> set ps" "in_page x a"
    have kinv: "kmem_inv s ps" using inv by (simp add: vm_inv_def)
    have "page_aligned x" using kmem_inv_valid [OF kinv x(1)] by (simp add: valid_page_def)
    then have "\<not> in_page q a" using x qp not_in_page [of q x a] by auto
    then show "pmem s' a = pmem s a" by (rule out)
  qed (use inv in \<open>simp_all add: s'_def vm_inv_def\<close>)
  then show "vm_inv s' ps pt"
    using inv wf same_tree(2) [OF tree] by (simp add: vm_inv_def pages)
  show "pte_of (pmem s') pt va' =
      (if PGROUNDDOWN va' = PGROUNDDOWN va then e else pte_of (pmem s) pt va')" if "va' < MAXVA"
    using leaf(2) [of va'] vpage_eq_iff [OF va that]
    by (simp add: vpath_def word_unat_eq_iff)
  show "kmem_only s s'" by (simp add: s'_def)
qed

lemma PGROUNDDOWN_eq_iff:
  assumes "page_aligned a"
  shows "PGROUNDDOWN va = a \<longleftrightarrow> unat a \<le> unat va \<and> unat va < unat a + 4096"
proof -
  obtain k where k: "unat a = 4096 * k" using assms by (rule page_alignedE)
  have "PGROUNDDOWN va = a \<longleftrightarrow> unat va div 4096 * 4096 = 4096 * k"
    by (simp add: word_unat_eq_iff unat_PGROUNDDOWN minus_mod_eq_div_mult k)
  also have "\<dots> \<longleftrightarrow> unat va div 4096 = k" by simp
  also have "\<dots> \<longleftrightarrow> 4096 * k \<le> unat va \<and> unat va < 4096 * k + 4096"
    by (auto simp: div_nat_eqI)
  finally show ?thesis by (simp add: k)
qed

text \<open>\<open>n\<close> pages from \<open>a\<close> on are mapped to consecutive frames from \<open>pa\<close> on, the other
  leaf entries are as before.\<close>

definition mapped :: "u64 \<Rightarrow> mem \<Rightarrow> mem \<Rightarrow> u64 \<Rightarrow> nat \<Rightarrow> u64 \<Rightarrow> u64 \<Rightarrow> bool" where
  "mapped pt m m' a n pa perm \<longleftrightarrow>
     (\<forall>va. va < MAXVA \<longrightarrow> pte_of m' pt va =
        (if unat a \<le> unat va \<and> unat va < unat a + 4096 * n
         then PA2PTE (pa + (PGROUNDDOWN va - a)) OR perm OR PTE_V
         else pte_of m pt va))"

lemma mapped_0: "mapped pt m m' a 0 pa perm \<longleftrightarrow> (\<forall>va. va < MAXVA \<longrightarrow> pte_of m' pt va = pte_of m pt va)"
  by (auto simp: mapped_def)

lemma mapped_Suc:
  assumes a: "page_aligned a" "unat (a + 4096) = unat a + 4096"
    and one: "\<And>va. va < MAXVA \<Longrightarrow> pte_of m1 pt va =
      (if PGROUNDDOWN va = a then PA2PTE pa OR perm OR PTE_V else pte_of m pt va)"
    and rest: "mapped pt m1 m2 (a + 4096) n (pa + 4096) perm"
  shows "mapped pt m m2 a (Suc n) pa perm"
  unfolding mapped_def
proof (intro allI impI)
  fix va :: u64
  assume va: "va < MAXVA"
  show "pte_of m2 pt va =
      (if unat a \<le> unat va \<and> unat va < unat a + 4096 * Suc n
       then PA2PTE (pa + (PGROUNDDOWN va - a)) OR perm OR PTE_V else pte_of m pt va)"
    using rest one [OF va] PGROUNDDOWN_eq_iff [OF a(1), of va] va a(2)
    by (auto simp: mapped_def algebra_simps)
qed

lemma mappages_loop_step:
  assumes inv: "vm_inv s ps pt" and a: "page_aligned a" "a < MAXVA"
    and unmapped: "\<not> valid_pte (pte_of (pmem s) pt a)"
  shows "(\<exists>s1. mappages_loop pt a last_va pa perm s = Inr (-1, s1) \<and> pt_ext pt s ps s1 [] \<and> length ps < 2) \<or>
    (\<exists>s2 ps'. pt_upd pt s ps s2 ps' \<and> length ps \<le> length ps' + 2 \<and>
       (\<forall>va. va < MAXVA \<longrightarrow> pte_of (pmem s2) pt va =
          (if PGROUNDDOWN va = a then PA2PTE pa OR perm OR PTE_V else pte_of (pmem s) pt va)) \<and>
       mappages_loop pt a last_va pa perm s =
         (if a = last_va then Inr (0, s2)
          else mappages_loop pt (a + PGSIZE) last_va (pa + PGSIZE) perm s2))"
proof -
  obtain r s1 ps' where w: "walk pt a True s = Inr (r, s1)" "pt_ext pt s ps s1 ps'"
    "walked pt a r s1 ps'" "if r = 0 then length ps < 2 else length ps \<le> length ps' + 2"
    using walk_alloc [OF inv a(2)] by blast
  show ?thesis
  proof (cases "r = 0")
    case True
    then show ?thesis
      using w by (intro disjI1) (subst mappages_loop.simps, simp add: walked_def)
  next
    case False
    let ?s2 = "s1\<lparr>pmem := store64 (pmem s1) r (PA2PTE pa OR perm OR PTE_V)\<rparr>"
    obtain q where q: "pt_page (pmem s1) pt (vpath a) = Some q" "r = pte_addr q (PX 0 a)"
      using w(3) False by (auto simp: walked_def)
    have e: "load64 (pmem s1) r = pte_of (pmem s) pt a"
      using q pt_extD(3) [OF w(2), of a] by (simp add: pte_of_def)
    note st = store_leaf [OF pt_extD(2) [OF w(2)] q(1) a(2), where e = "PA2PTE pa OR perm OR PTE_V", folded q(2)]
    have "pt_upd pt s1 ps' ?s2 ps'"
      using st(1,2,4,5) unfolding pt_upd_def by auto
    with pt_extD(1) [OF w(2)] have "pt_upd pt s ps ?s2 ps'" by (rule pt_upd_trans)
    moreover have "mappages_loop pt a last_va pa perm s =
         (if a = last_va then Inr (0, ?s2)
          else mappages_loop pt (a + PGSIZE) last_va (pa + PGSIZE) perm ?s2)"
      using w(1) False unmapped e
      by (subst mappages_loop.simps) (simp add: valid_pte_def)
    ultimately show ?thesis
      using w(4) False st(3) pt_extD(3) [OF w(2)] PGROUNDDOWN_aligned [OF a(1)]
      by (intro disjI2 exI [of _ ?s2] exI [of _ ps']) simp
  qed
qed

text \<open>The outcome of mapping \<open>k\<close> pages: all of them are mapped, or the free list ran out
  after \<open>n < k\<close> of them.\<close>

definition mappages_outcome ::
  "u64 \<Rightarrow> 'z kmem_scheme \<Rightarrow> u64 list \<Rightarrow> u64 \<Rightarrow> nat \<Rightarrow> u64 \<Rightarrow> u64 \<Rightarrow> (int \<times> 'z kmem_scheme) res \<Rightarrow> bool" where
  "mappages_outcome pt s ps a k pa perm out \<longleftrightarrow>
     (\<exists>r s' ps' n. out = Inr (r, s') \<and> pt_upd pt s ps s' ps' \<and>
        mapped pt (pmem s) (pmem s') a n pa perm \<and>
        (r = 0 \<and> n = k \<and> length ps \<le> length ps' + 2 * k \<or>
         r = -1 \<and> n < k \<and> ps' = [] \<and> length ps < 2 * k))"

lemma mappages_outcome_fail:
  assumes "pt_ext pt s ps s1 []" and "length ps < 2" and "0 < k"
  shows "mappages_outcome pt s ps a k pa perm (Inr (-1, s1))"
  unfolding mappages_outcome_def
  using assms pt_extD(1,3) [OF assms(1)]
  by (intro exI [of _ "-1"] exI [of _ s1] exI [of _ "[]"] exI [of _ 0]) (simp add: mapped_0)

lemma mappages_outcome_0: "vm_inv s ps pt \<Longrightarrow> mappages_outcome pt s ps a 0 pa perm (Inr (0, s))"
  unfolding mappages_outcome_def using pt_extD(1) [OF pt_ext_refl]
  by (intro exI [of _ 0] exI [of _ s] exI [of _ ps]) (simp add: mapped_0)

lemma mappages_outcome_Suc:
  assumes a: "page_aligned a" "a < MAXVA"
    and upd: "pt_upd pt s ps s2 ps2" "length ps \<le> length ps2 + 2"
    and one: "\<forall>va. va < MAXVA \<longrightarrow> pte_of (pmem s2) pt va =
          (if PGROUNDDOWN va = a then PA2PTE pa OR perm OR PTE_V else pte_of (pmem s) pt va)"
    and rest: "mappages_outcome pt s2 ps2 (a + PGSIZE) k (pa + PGSIZE) perm out"
  shows "mappages_outcome pt s ps a (Suc k) pa perm out"
proof -
  obtain r s' ps' n where r: "out = Inr (r, s')" "pt_upd pt s2 ps2 s' ps'"
    "mapped pt (pmem s2) (pmem s') (a + PGSIZE) n (pa + PGSIZE) perm"
    "r = 0 \<and> n = k \<and> length ps2 \<le> length ps' + 2 * k \<or>
     r = -1 \<and> n < k \<and> ps' = [] \<and> length ps2 < 2 * k"
    using rest unfolding mappages_outcome_def by blast
  have "mapped pt (pmem s) (pmem s') a (Suc n) pa perm"
    using mapped_Suc [OF a(1) unat_next_page [OF a(2)] _ r(3)] one by blast
  then show ?thesis
    using r(1,4) upd(2) pt_upd_trans [OF upd(1) r(2)] unfolding mappages_outcome_def
    by (intro exI [of _ r] exI [of _ s'] exI [of _ ps'] exI [of _ "Suc n"]) auto
qed

lemma unat_page_step:
  "unat a + 4096 * k < 2 ^ 38 \<Longrightarrow> i \<le> k \<Longrightarrow> unat (a + of_nat (4096 * i)) = unat (a::u64) + 4096 * i"
  by (simp add: unat_word_ariths unat_of_nat_le del: of_nat_mult)

text \<open>After the first page is mapped the others are still unmapped.\<close>

lemma rest_unmapped:
  assumes "page_aligned a" and "unat a + 4096 * Suc k < 2 ^ 38" and "i \<le> k"
    and "\<forall>va. va < MAXVA \<longrightarrow> pte_of m' pt va = (if PGROUNDDOWN va = a then e else pte_of m pt va)"
    and "\<not> valid_pte (pte_of m pt (a + of_nat (4096 * Suc i)))"
  shows "\<not> valid_pte (pte_of m' pt (a + 4096 + of_nat (4096 * i)))"
proof -
  let ?va = "a + of_nat (4096 * Suc i)"
  have "?va < MAXVA" "PGROUNDDOWN ?va \<noteq> a"
    using unat_page_step [OF assms(2), of "Suc i"] assms(2,3) PGROUNDDOWN_eq_iff [OF assms(1), of ?va]
    by (simp_all add: word_less_nat_alt del: of_nat_mult)
  then have "\<not> valid_pte (pte_of m' pt ?va)" using assms(4,5) by (simp del: of_nat_mult)
  moreover have "?va = a + 4096 + of_nat (4096 * i)" by simp
  ultimately show ?thesis by (simp only: not_False_eq_True)
qed

lemma mappages_loop_spec:
  assumes "vm_inv s ps pt" and "page_aligned a" and "unat a + 4096 * k < 2 ^ 38"
    and "\<And>i. i \<le> k \<Longrightarrow> \<not> valid_pte (pte_of (pmem s) pt (a + of_nat (4096 * i)))"
  shows "mappages_outcome pt s ps a (Suc k) pa perm
    (mappages_loop pt a (a + of_nat (4096 * k)) pa perm s)"
  using assms
proof (induction k arbitrary: s ps a pa)
  case (0 s ps a pa)
  then have lt: "a < MAXVA" by (simp add: word_less_nat_alt)
  have "\<not> valid_pte (pte_of (pmem s) pt a)" using 0(4) [of 0] by simp
  from mappages_loop_step [OF 0(1,2) lt this, of a pa perm] show ?case
  proof (elim disjE exE conjE)
    fix s2 ps2
    assume u2: "pt_upd pt s ps s2 ps2" "length ps \<le> length ps2 + 2"
      and eq: "mappages_loop pt a a pa perm s = (if a = a then Inr (0, s2)
        else mappages_loop pt (a + PGSIZE) a (pa + PGSIZE) perm s2)"
      and one: "\<forall>va. va < MAXVA \<longrightarrow> pte_of (pmem s2) pt va =
          (if PGROUNDDOWN va = a then PA2PTE pa OR perm OR PTE_V else pte_of (pmem s) pt va)"
    from mappages_outcome_Suc [OF 0(2) lt u2 one mappages_outcome_0 [OF pt_updD(1) [OF u2(1)]]] eq
    show ?thesis by simp
  qed (simp add: mappages_outcome_fail)
next
  case (Suc k s ps a pa)
  let ?last = "a + of_nat (4096 * Suc k)"
  have lt: "a < MAXVA" using Suc.prems(3) by (simp add: word_less_nat_alt)
  have next_a: "unat (a + 4096) = unat a + 4096" by (rule unat_next_page [OF lt])
  have ne: "a \<noteq> ?last"
    using unat_page_step [OF Suc.prems(3) order_refl] by (simp add: word_unat_eq_iff del: of_nat_mult)
  have last_va: "?last = a + 4096 + of_nat (4096 * k)" by simp
  have "\<not> valid_pte (pte_of (pmem s) pt a)" using Suc.prems(4) [of 0] by simp
  from mappages_loop_step [OF Suc.prems(1,2) lt this, of ?last pa perm] show ?case
    unfolding if_not_P [OF ne]
  proof (elim disjE exE conjE)
    fix s2 ps2
    assume u2: "pt_upd pt s ps s2 ps2" "length ps \<le> length ps2 + 2"
      and eq: "mappages_loop pt a ?last pa perm s =
        mappages_loop pt (a + PGSIZE) ?last (pa + PGSIZE) perm s2"
      and one: "\<forall>va. va < MAXVA \<longrightarrow> pte_of (pmem s2) pt va =
          (if PGROUNDDOWN va = a then PA2PTE pa OR perm OR PTE_V else pte_of (pmem s) pt va)"
    have "mappages_outcome pt s2 ps2 (a + 4096) (Suc k) (pa + 4096) perm
        (mappages_loop pt (a + 4096) ?last (pa + 4096) perm s2)"
      unfolding last_va
    proof (rule Suc.IH [OF pt_updD(1) [OF u2(1)]])
      show "page_aligned (a + 4096)" using Suc.prems(2) next_a by (simp add: page_aligned_unat)
      show "unat (a + 4096) + 4096 * k < 2 ^ 38" using Suc.prems(3) next_a by simp
    qed (rule rest_unmapped [OF Suc.prems(2,3) _ one Suc.prems(4)], simp_all only: Suc_le_mono)
    then show ?thesis
      unfolding eq by (rule mappages_outcome_Suc [OF Suc.prems(2) lt u2 one])
  qed (simp add: mappages_outcome_fail del: of_nat_mult)
qed

text \<open>The number of pages \<open>mappages\<close> maps for the byte range from \<open>va\<close> of length
  \<open>sz\<close>.\<close>

definition npages :: "u64 \<Rightarrow> u64 \<Rightarrow> nat" where
  "npages va sz = Suc ((unat va + unat sz - 1) div 4096 - unat va div 4096)"

lemma mappages_last:
  assumes "0 < sz" and "unat va + unat sz \<le> 2 ^ 38"
  shows "PGROUNDDOWN (va + sz - 1) = PGROUNDDOWN va + of_nat (4096 * (npages va sz - 1))"
    and "unat (PGROUNDDOWN va) + 4096 * (npages va sz - 1) < 2 ^ 38"
proof -
  let ?k = "(unat va + unat sz - 1) div 4096 - unat va div 4096"
  have pos: "0 < unat sz" using assms(1) by (simp add: word_less_nat_alt)
  have "unat (va + sz) = unat va + unat sz" using assms(2) by (intro unat_add_no_wrap) simp
  then have last_va: "unat (va + sz - 1) = unat va + unat sz - 1"
    using pos by (subst unat_sub) (simp_all add: word_le_nat_alt)
  have le: "unat va div 4096 \<le> (unat va + unat sz - 1) div 4096"
    using pos by (intro div_le_mono) simp
  have "(unat va + unat sz - 1) div 4096 * 4096 \<le> unat va + unat sz - 1" by simp
  then have top: "(unat va + unat sz - 1) div 4096 * 4096 < 2 ^ 38" using assms(2) pos by linarith
  have k: "unat va div 4096 * 4096 + 4096 * ?k = (unat va + unat sz - 1) div 4096 * 4096"
    using le by (simp add: algebra_simps diff_mult_distrib)
  then show bound: "unat (PGROUNDDOWN va) + 4096 * (npages va sz - 1) < 2 ^ 38"
    using top by (simp add: npages_def unat_PGROUNDDOWN minus_mod_eq_div_mult)
  show "PGROUNDDOWN (va + sz - 1) = PGROUNDDOWN va + of_nat (4096 * (npages va sz - 1))"
    using unat_page_step [OF bound order_refl] last_va k
    by (simp add: word_unat_eq_iff unat_PGROUNDDOWN minus_mod_eq_div_mult npages_def del: of_nat_mult)
qed

lemma mappages_spec:
  assumes "vm_inv s ps pt" and "0 < sz" and "unat va + unat sz \<le> 2 ^ 38"
    and "\<And>i. i < npages va sz \<Longrightarrow>
      \<not> valid_pte (pte_of (pmem s) pt (PGROUNDDOWN va + of_nat (4096 * i)))"
  shows "mappages_outcome pt s ps (PGROUNDDOWN va) (npages va sz) pa perm
    (mappages pt va sz pa perm s)"
proof -
  have n: "npages va sz = Suc (npages va sz - 1)" by (simp add: npages_def)
  note last_va = mappages_last [OF assms(2,3)]
  have "\<not> valid_pte (pte_of (pmem s) pt (PGROUNDDOWN va + of_nat (4096 * i)))"
    if "i \<le> npages va sz - 1" for i
    using that n by (intro assms(4)) linarith
  from mappages_loop_spec [OF assms(1) page_aligned_PGROUNDDOWN last_va(2) this]
  show ?thesis using n by (simp only: mappages_def last_va(1))
qed

section \<open>An empty table\<close>

lemma pt_page_empty:
  assumes "\<And>a. in_page pt a \<Longrightarrow> m a = 0" and "tree_path is"
  shows "pt_page m pt is = (if is = [] then Some pt else None)"
proof (cases "is")
  case (Cons i js)
  then have "i < 512" using assms(2) by (simp add: tree_path_def)
  then have "load64 m (pte_addr pt (of_nat i)) = load64 (\<lambda>_. 0) (pte_addr pt (of_nat i))"
    using assms(1) by (intro load_pte_cong) auto
  then show ?thesis by (simp add: Cons)
qed simp

lemma empty_table:
  assumes "\<And>a. in_page pt a \<Longrightarrow> m a = 0" and "page_aligned pt" and "pt \<noteq> 0"
  shows "pt_pages m pt = {pt}" and "pt_wf m pt" and "pte_of m pt va = 0"
proof -
  have page: "pt_page m pt is = (if is = [] then Some pt else None)" if "tree_path is" for "is"
    by (rule pt_page_empty [OF assms(1) that])
  show pages: "pt_pages m pt = {pt}"
    by (auto simp: pt_pages_def page split: if_splits intro: exI [of _ "[]"])
  show "pt_wf m pt"
    using assms(2,3) by (auto simp: pt_wf_def pages page split: if_splits)
  show "pte_of m pt va = 0" using page [OF tree_path_vpath, of va] by (simp add: pte_of_def vpath_def)
qed

text \<open>A concrete state: the root at \<open>0x80002000\<close> is empty, two pages are free.\<close>

definition ex_state :: kmem where
  "ex_state = \<lparr>pmem = store64 (\<lambda>_. 0) 0x80003000 0x80004000, freelist = 0x80003000, kend = 0x80001000\<rparr>"

lemma ex_state_mem: "\<not> in_page 0x80003000 a \<Longrightarrow> pmem ex_state a = 0"
  by (simp add: ex_state_def store64_outside_page0)

lemma ex_state_inv: "vm_inv ex_state [0x80003000, 0x80004000] 0x80002000"
  and ex_state_table: "pte_of (pmem ex_state) 0x80002000 va = 0"
    "pt_pages (pmem ex_state) 0x80002000 = {0x80002000}"
proof -
  have zero: "pmem ex_state a = 0" if "in_page 0x80002000 a \<or> in_page 0x80004000 a" for a
  proof (rule ex_state_mem)
    show "\<not> in_page 0x80003000 a"
      using that not_in_page [of "0x80003000" "0x80002000" a] not_in_page [of "0x80003000" "0x80004000" a]
      by (auto simp: page_aligned_def)
  qed
  have e: "pt_pages (pmem ex_state) 0x80002000 = {0x80002000}" "pt_wf (pmem ex_state) 0x80002000"
    "pte_of (pmem ex_state) 0x80002000 va = 0" for va
    using empty_table [of "0x80002000" "pmem ex_state"] zero by (auto simp: page_aligned_def)
  have "load64 (pmem ex_state) 0x80004000 = load64 (\<lambda>_. 0) 0x80004000"
    using zero by (intro load64_page_cong0) simp
  moreover have "load64 (pmem ex_state) 0x80003000 = 0x80004000" by (simp add: ex_state_def)
  ultimately have "kmem_inv ex_state [0x80003000, 0x80004000]"
    by (simp add: kmem_inv_def valid_page_def page_aligned_def)
      (simp add: ex_state_def)
  then show "vm_inv ex_state [0x80003000, 0x80004000] 0x80002000" by (simp add: vm_inv_def e)
  show "pte_of (pmem ex_state) 0x80002000 va = 0"
    "pt_pages (pmem ex_state) 0x80002000 = {0x80002000}" by (rule e)+
qed

section \<open>Properties\<close>

text \<open>Property C5. \<open>mappages\<close> on a range none of whose pages is mapped: it never panics; it
  either returns \<open>0\<close> and every address of the range translates to the corresponding
  physical address with the given permissions, or returns \<open>-1\<close> with the free list
  exhausted; no other translation and no byte outside the table changes, and with two free
  pages per mapped page it succeeds.\<close>

theorem mappages_correct:
  assumes "vm_inv s ps pt" and "0 < sz" and "unat va + unat sz \<le> 2 ^ 38"
    and "\<And>i. i < npages va sz \<Longrightarrow>
      \<not> valid_pte (pte_of (pmem s) pt (PGROUNDDOWN va + of_nat (4096 * i)))"
  shows "\<exists>r s' ps' n. mappages pt va sz pa perm s = Inr (r, s') \<and> pt_upd pt s ps s' ps' \<and>
    mapped pt (pmem s) (pmem s') (PGROUNDDOWN va) n pa perm \<and>
    (r = 0 \<and> n = npages va sz \<or>
     r = -1 \<and> n < npages va sz \<and> ps' = [] \<and> length ps < 2 * npages va sz)"
  using mappages_spec [OF assms, of pa perm] unfolding mappages_outcome_def by blast

theorem mappages_correct_witness:
  "\<exists>s' ps'. mappages 0x80002000 0 4096 0x80005000 0x16 ex_state = Inr (0, s') \<and>
    pt_upd 0x80002000 ex_state [0x80003000, 0x80004000] s' ps' \<and>
    mapped 0x80002000 (pmem ex_state) (pmem s') (PGROUNDDOWN 0) 1 0x80005000 0x16"
proof -
  have n: "npages 0 4096 = 1" by (simp add: npages_def)
  show ?thesis
    using mappages_correct [OF ex_state_inv, of 4096 0 "0x80005000" "0x16"]
    by (auto simp: n ex_state_table)
qed

text \<open>\<open>walkaddr\<close> returns the frame of an address exactly when the address is below
  \<open>MAXVA\<close> and its leaf entry is valid and open to the user, and \<open>0\<close> otherwise.\<close>

theorem walkaddr_correct:
  assumes "pt_wf (pmem s) pt"
  shows "walkaddr pt va s =
    Inr (let e = pte_of (pmem s) pt va
         in if va < MAXVA \<and> valid_pte e \<and> e AND PTE_U \<noteq> 0 then PTE2PA e else 0)"
  using assms by (rule walkaddr_eq)

theorem walkaddr_correct_witness: "walkaddr 0x80002000 0 ex_state = Inr 0"
  using walkaddr_correct [of ex_state "0x80002000" 0] ex_state_inv
  by (simp add: vm_inv_def ex_state_table)

end
