(* ===== verification/UserMem.thy ===== *)
theory UserMem
  imports PageTable
begin

text \<open>
  The copy functions of \<open>kernel/vm.c\<close> against a byte-wise reference. \<open>uaddr\<close> is the
  physical address of a user byte; \<open>copyout_bytes\<close> and \<open>copyin_bytes\<close> move one
  byte at a time and stop at the first unmapped one. The page-wise loops of the code compute
  the same results, and what \<open>copyout\<close> wrote \<open>copyin\<close> reads back.
\<close>

section \<open>User memory\<close>

definition uaddr :: "mem \<Rightarrow> u64 \<Rightarrow> u64 \<Rightarrow> u64 option" where
  "uaddr m pt va =
     (let e = pte_of m pt va
      in if va < MAXVA \<and> valid_pte e \<and> e AND PTE_U \<noteq> 0 \<and> PTE2PA e \<noteq> 0
         then Some (PTE2PA e + (va - PGROUNDDOWN va)) else None)"

text \<open>User pages are RAM and not pages of the table, and no two user bytes share a physical
  byte.\<close>

definition user_ok :: "mem \<Rightarrow> u64 \<Rightarrow> bool" where
  "user_ok m pt \<longleftrightarrow> pt_wf m pt \<and>
     (\<forall>va pa. uaddr m pt va = Some pa \<longrightarrow> pa < PHYSTOP \<and> (\<forall>q\<in>pt_pages m pt. \<not> in_page q pa)) \<and>
     (\<forall>va va' pa. uaddr m pt va = Some pa \<longrightarrow> uaddr m pt va' = Some pa \<longrightarrow> va = va')"

fun copyout_bytes :: "u64 \<Rightarrow> u64 \<Rightarrow> byte list \<Rightarrow> 'z kmem_scheme \<Rightarrow> int \<times> 'z kmem_scheme" where
  "copyout_bytes pt va [] s = (0, s)"
| "copyout_bytes pt va (b # bs) s =
     (case uaddr (pmem s) pt va of
        None \<Rightarrow> (-1, s)
      | Some pa \<Rightarrow> copyout_bytes pt (va + 1) bs (s\<lparr>pmem := (pmem s)(pa := b)\<rparr>))"

fun copyin_bytes :: "u64 \<Rightarrow> u64 \<Rightarrow> nat \<Rightarrow> 'z kmem_scheme \<Rightarrow> byte list \<times> bool" where
  "copyin_bytes pt va 0 s = ([], True)"
| "copyin_bytes pt va (Suc n) s =
     (case uaddr (pmem s) pt va of
        None \<Rightarrow> ([], False)
      | Some pa \<Rightarrow> let (bs, ok) = copyin_bytes pt (va + 1) n s in (pmem s pa # bs, ok))"

section \<open>Pages of user memory\<close>

lemma PX_PGROUNDDOWN: "PX l (PGROUNDDOWN va) = PX l va"
  by (simp add: word_unat_eq_iff unat_PX_page unat_PGROUNDDOWN minus_mod_eq_div_mult)

lemma pte_of_PGROUNDDOWN [simp]: "pte_of m pt (PGROUNDDOWN va) = pte_of m pt va"
  by (simp add: pte_of_def vpath_def PX_PGROUNDDOWN cong: option.case_cong)

lemma PGROUNDDOWN_idem [simp]: "PGROUNDDOWN (PGROUNDDOWN va) = PGROUNDDOWN va"
  by (simp add: PGROUNDDOWN_aligned)

lemma walkaddr_uaddr:
  assumes "pt_wf (pmem s) pt"
  shows "walkaddr pt (PGROUNDDOWN va) s =
    Inr (case uaddr (pmem s) pt (PGROUNDDOWN va) of None \<Rightarrow> 0 | Some pa \<Rightarrow> pa)"
  by (auto simp: walkaddr_eq [OF assms] uaddr_def Let_def)

lemma uaddr_page:
  "uaddr m pt va =
     map_option (\<lambda>pa0. pa0 + (va - PGROUNDDOWN va)) (uaddr m pt (PGROUNDDOWN va))"
  by (auto simp: uaddr_def Let_def PGROUNDDOWN_less_MAXVA)

lemma uaddr_aligned: "uaddr m pt (PGROUNDDOWN va) = Some pa \<Longrightarrow> page_aligned pa \<and> pa \<noteq> 0"
  by (auto simp: uaddr_def Let_def split: if_splits)

text \<open>A store to a user byte changes neither the table nor any translation.\<close>

lemma user_store:
  assumes ok: "user_ok m pt" and pa: "\<forall>q\<in>pt_pages m pt. \<not> in_page q pa"
  shows "uaddr (m(pa := b)) pt va = uaddr m pt va" and "user_ok (m(pa := b)) pt"
    and "pt_pages (m(pa := b)) pt = pt_pages m pt"
proof -
  have agree: "(m(pa := b)) a = m a" if "q \<in> pt_pages m pt" "in_page q a" for q a
    using pa that by auto
  note frame = pt_frame [of m pt "m(pa := b)", OF agree]
  show u: "uaddr (m(pa := b)) pt va = uaddr m pt va" for va
    by (simp add: uaddr_def frame(4))
  show pages: "pt_pages (m(pa := b)) pt = pt_pages m pt" by (rule frame(2))
  show "user_ok (m(pa := b)) pt" using ok by (simp add: user_ok_def u pages frame(3))
qed

lemma user_okD:
  assumes "user_ok m pt"
  shows "pt_wf m pt" and "uaddr m pt va = Some pa \<Longrightarrow> \<forall>q\<in>pt_pages m pt. \<not> in_page q pa"
    and "uaddr m pt va = Some pa \<Longrightarrow> uaddr m pt va' = Some pa \<Longrightarrow> va = va'"
    and "uaddr m pt va = Some pa \<Longrightarrow> pa < PHYSTOP"
  using assms by (auto simp: user_ok_def)

lemma user_store_bytes:
  assumes ok: "user_ok m pt" and "length bs \<le> 2 ^ 64"
    and "\<And>i. i < length bs \<Longrightarrow> \<forall>q\<in>pt_pages m pt. \<not> in_page q (pa + of_nat i)"
  shows "uaddr (store_bytes m pa bs) pt va = uaddr m pt va" and "user_ok (store_bytes m pa bs) pt"
    and "pt_pages (store_bytes m pa bs) pt = pt_pages m pt"
proof -
  have agree: "store_bytes m pa bs a = m a" if "q \<in> pt_pages m pt" "in_page q a" for q a
  proof (cases "unat (a - pa) < length bs")
    case True
    with assms(3) [OF True] that show ?thesis by auto
  qed (simp add: store_bytes_def)
  note frame = pt_frame [of m pt "store_bytes m pa bs", OF agree]
  show u: "uaddr (store_bytes m pa bs) pt va = uaddr m pt va" for va
    by (simp add: uaddr_def frame(4))
  show pages: "pt_pages (store_bytes m pa bs) pt = pt_pages m pt" by (rule frame(2))
  show "user_ok (store_bytes m pa bs) pt" using ok by (simp add: user_ok_def u pages frame(3))
qed

lemma store_bytes_Cons:
  assumes "Suc (length bs) \<le> 2 ^ 64"
  shows "store_bytes m pa (b # bs) = store_bytes (m(pa := b)) (pa + 1) bs"
proof
  fix a
  show "store_bytes m pa (b # bs) a = store_bytes (m(pa := b)) (pa + 1) bs a"
  proof (cases "a = pa")
    case True
    have "unat (-1 :: u64) = 2 ^ 64 - 1"
      by (simp add: unsigned_minus_1_eq_mask mask_eq_exp_minus_1)
    then have "\<not> unat (pa - (pa + 1)) < length bs" using assms by simp
    with True show ?thesis by (simp add: store_bytes_def)
  next
    case False
    then have "a - pa \<noteq> 0" by simp
    then have "unat (a - pa) = Suc (unat (a - (pa + 1)))"
      using unat_minus_one [of "a - pa"] by (simp add: algebra_simps unat_gt_0 Suc_pred')
    with False show ?thesis by (simp add: store_bytes_def)
  qed
qed

section \<open>\<open>copyout\<close> moves bytes\<close>

text \<open>One round: as long as the bytes stay in one mapped page, the byte-wise copy is a store of
  the whole run.\<close>

lemma PGROUNDDOWN_next:
  assumes "unat va mod 4096 + 1 < 4096"
  shows "PGROUNDDOWN (va + 1) = PGROUNDDOWN va" and "unat (va + 1) = unat va + 1"
    and "va + 1 - PGROUNDDOWN va = va - PGROUNDDOWN va + 1"
proof -
  have "unat va = 4096 * (unat va div 4096) + unat va mod 4096" by simp
  moreover have "unat va div 4096 < 4503599627370496" using unat_u64_lt [of va] by simp
  ultimately have "unat va + 1 < 18446744073709551616" using assms by linarith
  then show u: "unat (va + 1) = unat va + 1" using unat_add_no_wrap [of va 1] by simp
  have "(unat va + 1) div 4096 = unat va div 4096"
    using assms by (simp add: div_Suc mod_Suc)
  then show "PGROUNDDOWN (va + 1) = PGROUNDDOWN va"
    by (simp add: word_unat_eq_iff unat_PGROUNDDOWN minus_mod_eq_div_mult u)
  show "va + 1 - PGROUNDDOWN va = va - PGROUNDDOWN va + 1" by simp
qed

lemma copyout_bytes_chunk:
  assumes "user_ok (pmem s) pt" and "length bs1 \<le> 4096 - unat va mod 4096"
    and "uaddr (pmem s) pt (PGROUNDDOWN va) = Some pa0"
  shows "copyout_bytes pt va (bs1 @ bs2) s =
    copyout_bytes pt (va + of_nat (length bs1)) bs2
      (s\<lparr>pmem := store_bytes (pmem s) (pa0 + (va - PGROUNDDOWN va)) bs1\<rparr>)"
  using assms
proof (induction bs1 arbitrary: va s)
  case Nil
  then show ?case by (simp add: store_bytes_def)
next
  case (Cons b bs1)
  let ?pa = "pa0 + (va - PGROUNDDOWN va)"
  let ?s = "s\<lparr>pmem := (pmem s)(?pa := b)\<rparr>"
  have u: "uaddr (pmem s) pt va = Some ?pa" using Cons.prems(3) uaddr_page [of "pmem s" pt va] by simp
  note st = user_store [OF Cons.prems(1) user_okD(2) [OF Cons.prems(1) u], of b]
  have "Suc (length bs1) \<le> 2 ^ 64" using Cons.prems(2) by simp
  note sb = store_bytes_Cons [OF this, of "pmem s" ?pa b]
  have lhs: "copyout_bytes pt va ((b # bs1) @ bs2) s = copyout_bytes pt (va + 1) (bs1 @ bs2) ?s"
    using u by simp
  have va: "va + of_nat (length (b # bs1)) = va + 1 + of_nat (length bs1)" by simp
  have mem: "s\<lparr>pmem := store_bytes (pmem s) ?pa (b # bs1)\<rparr> =
      ?s\<lparr>pmem := store_bytes (pmem ?s) (?pa + 1) bs1\<rparr>"
    unfolding sb by simp
  show ?case
  proof (cases "bs1 = []")
    case True
    then show ?thesis unfolding lhs va mem by simp
  next
    case False
    then have lt: "unat va mod 4096 + 1 < 4096" using Cons.prems(2) by (cases bs1) auto
    note nx = PGROUNDDOWN_next [OF lt]
    have "unat (va + 1) mod 4096 = unat va mod 4096 + 1"
      using lt by (simp add: nx(2) mod_Suc)
    then have "copyout_bytes pt (va + 1) (bs1 @ bs2) ?s = copyout_bytes pt (va + 1 + of_nat (length bs1)) bs2
        (?s\<lparr>pmem := store_bytes (pmem ?s) (pa0 + (va + 1 - PGROUNDDOWN (va + 1))) bs1\<rparr>)"
      using Cons.prems st nx(1) by (intro Cons.IH) (simp_all del: fun_upd_apply)
    moreover have "pa0 + (va + 1 - PGROUNDDOWN (va + 1)) = ?pa + 1" by (simp add: nx(1))
    ultimately show ?thesis unfolding lhs va mem by (simp only:)
  qed
qed

lemma run_in_page:
  assumes "page_aligned pa0" and "off + n \<le> 4096" and "i < n"
  shows "in_page pa0 (pa0 + of_nat off + of_nat i)"
  using in_page_offset [of "off + i" pa0] assms by (simp add: algebra_simps)

text \<open>The source run may not meet a page of the table or a user page.\<close>

definition kernel_run :: "mem \<Rightarrow> u64 \<Rightarrow> u64 \<Rightarrow> nat \<Rightarrow> bool" where
  "kernel_run m pt a n \<longleftrightarrow> unat a + n < 2 ^ 64 \<and>
     (\<forall>i<n. (\<forall>q\<in>pt_pages m pt. \<not> in_page q (a + of_nat i)) \<and>
       (\<forall>va. uaddr m pt va \<noteq> Some (a + of_nat i)))"

lemma kernel_runD:
  assumes "kernel_run m pt a n"
  shows "unat a + n < 2 ^ 64"
    and "i < n \<Longrightarrow> q \<in> pt_pages m pt \<Longrightarrow> \<not> in_page q (a + of_nat i)"
    and "i < n \<Longrightarrow> uaddr m pt va \<noteq> Some (a + of_nat i)"
  using assms by (auto simp: kernel_run_def)

lemma kernel_run_rest:
  assumes "kernel_run m pt a n" and "unat k \<le> n"
    and "pt_pages m' pt = pt_pages m pt" and "\<And>va. uaddr m' pt va = uaddr m pt va"
  shows "kernel_run m' pt (a + k) (n - unat k)"
proof -
  have eq: "a + k + of_nat i = a + of_nat (unat k + i)" for i by simp
  have "unat (a + k) = unat a + unat k"
    using assms(2) kernel_runD(1) [OF assms(1)] by (intro unat_add_no_wrap) simp
  then show ?thesis
    using assms kernel_runD(1) [OF assms(1)] unfolding kernel_run_def eq
    by (simp del: of_nat_add)
qed

lemma PGROUNDDOWN_add:
  assumes "unat va mod 4096 + j < 4096"
  shows "PGROUNDDOWN (va + of_nat j) = PGROUNDDOWN va"
proof -
  have "va + of_nat j = PGROUNDDOWN va + of_nat (unat (va - PGROUNDDOWN va) + j)" by simp
  then have "unat (va + of_nat j) = unat (PGROUNDDOWN va) + (unat va mod 4096 + j)"
    using unat_aligned_add [of "PGROUNDDOWN va" "unat va mod 4096 + j"] assms
    by (simp only: unat_page_offset page_aligned_PGROUNDDOWN)
  then show ?thesis using assms by (simp add: PGROUNDDOWN_eq_iff)
qed

lemma uaddr_run:
  assumes "uaddr m pt (PGROUNDDOWN va) = Some pa0" and "unat va mod 4096 + j < 4096"
  shows "uaddr m pt (va + of_nat j) = Some (pa0 + (va - PGROUNDDOWN va) + of_nat j)"
  using uaddr_page [of m pt "va + of_nat j"] assms(1)
  by (simp add: PGROUNDDOWN_add [OF assms(2)])

lemma unat_chunk_u32: "unat (ucast (chunk va len) :: u32) = unat (chunk va len)"
  using unat_chunk [of va len]
  by (simp add: unsigned_ucast_eq take_bit_nat_eq_self)

lemma unat_chunk_rest: "unat (len - chunk va len) = unat len - unat (chunk va len)"
  by (simp add: unat_sub chunk_le)

lemma unat_chunk_le: "unat (chunk va len) \<le> unat len"
  by (simp add: unat_chunk)

lemma chunk_room: "unat (chunk va len) \<le> 4096 - unat va mod 4096"
  by (simp add: unat_chunk)

text \<open>After a round that does not finish, the next virtual address starts a page.\<close>

lemma chunk_next:
  assumes "len - chunk va len \<noteq> 0"
  shows "va + chunk va len = PGROUNDDOWN va + PGSIZE"
  using assms by (auto simp: chunk_def Let_def split: if_splits)

lemma page_offset_of_nat: "va - PGROUNDDOWN va = of_nat (unat va mod 4096)"
  by (simp add: unat_page_offset [symmetric])

text \<open>Where one round of \<open>copyout\<close> puts its bytes.\<close>

lemma copyout_round:
  assumes ok: "user_ok m pt" and run: "kernel_run m pt src (unat len)"
    and pa0: "uaddr m pt (PGROUNDDOWN va) = Some pa0"
  defines "n \<equiv> chunk va len"
  defines "m' \<equiv> memmove m (pa0 + (va - PGROUNDDOWN va)) src (ucast n)"
  shows "m' = store_bytes m (pa0 + (va - PGROUNDDOWN va)) (bytes_at m src (unat n))"
    and "user_ok m' pt" and "kernel_run m' pt (src + n) (unat (len - n))"
    and "bytes_at m' (src + n) (unat (len - n)) = bytes_at m (src + n) (unat (len - n))"
proof -
  let ?pa = "pa0 + (va - PGROUNDDOWN va)"
  let ?bs = "bytes_at m src (unat n)"
  have nn: "unat (ucast n :: u32) = unat n" unfolding n_def by (rule unat_chunk_u32)
  have le: "unat n \<le> unat len" and room: "unat n \<le> 4096 - unat va mod 4096"
    unfolding n_def by (simp_all add: unat_chunk)
  have al: "page_aligned pa0" using uaddr_aligned [OF pa0] by simp
  have "unat ?pa = unat pa0 + unat va mod 4096"
    unfolding page_offset_of_nat using unat_aligned_add [OF al] by simp
  then have fits: "unat ?pa + unat n \<le> 2 ^ 64"
    using room al by (auto elim!: page_alignedE)
  show m': "m' = store_bytes m ?pa ?bs"
    using memmove_copied [of src "ucast n" ?pa m] kernel_runD(1) [OF run] fits le
    by (simp add: m'_def nn copied_def)
  have u: "uaddr m pt (va + of_nat i) = Some (?pa + of_nat i)" if "i < unat n" for i
    using room that by (intro uaddr_run [OF pa0]) linarith
  have "length ?bs \<le> 2 ^ 64" using unat_u64_lt [of n] by simp
  note st = user_store_bytes [OF ok this, of ?pa, folded m']
  have st: "user_ok m' pt" "pt_pages m' pt = pt_pages m pt" "uaddr m' pt x = uaddr m pt x" for x
    using st user_okD(2) [OF ok u] by simp_all
  show "user_ok m' pt" by (rule st)
  show "kernel_run m' pt (src + n) (unat (len - n))"
    using kernel_run_rest [OF run le st(2) st(3)] by (simp add: n_def unat_chunk_rest)
  show "bytes_at m' (src + n) (unat (len - n)) = bytes_at m (src + n) (unat (len - n))"
  proof (rule bytes_at_cong)
    fix i
    assume "i < unat (len - n)"
    then have i: "unat n + i < unat len" by (simp add: n_def unat_chunk_rest)
    have eq: "src + n + of_nat i = src + of_nat (unat n + i)" by simp
    have "\<not> unat (src + n + of_nat i - ?pa) < unat n"
      using u [of "unat (src + n + of_nat i - ?pa)"] kernel_runD(3) [OF run i] eq
      by (auto simp: add.assoc)
    then show "m' (src + n + of_nat i) = m (src + n + of_nat i)"
      by (simp add: m' store_bytes_def)
  qed
qed

lemma copyout_equiv:
  assumes "user_ok (pmem s) pt" and "kernel_run (pmem s) pt src (unat len)"
  shows "copyout pt dstva src len s =
    Inr (copyout_bytes pt dstva (bytes_at (pmem s) src (unat len)) s)"
  using assms
proof (induction pt dstva src len s rule: copyout.induct)
  case (1 pt dstva src len s)
  note wf = user_okD(1) [OF 1(2)]
  show ?case
  proof (cases "0 < len")
    case False
    then have "len = 0" by (simp add: word_gt_0)
    then show ?thesis by (subst copyout.simps) simp
  next
    case True
    let ?n = "chunk dstva len"
    have split: "bytes_at (pmem s) src (unat len) =
        bytes_at (pmem s) src (unat ?n) @ bytes_at (pmem s) (src + ?n) (unat (len - ?n))"
      using bytes_at_append [of "pmem s" src "unat ?n" "unat len - unat ?n"] unat_chunk_le [of dstva len]
      by (simp add: unat_chunk_rest)
    show ?thesis
    proof (cases "uaddr (pmem s) pt (PGROUNDDOWN dstva)")
      case None
      moreover have "0 < unat len" using True by (simp add: word_less_nat_alt)
      moreover have "uaddr (pmem s) pt dstva = None" using None uaddr_page [of _ _ dstva] by simp
      moreover have "bytes_at (pmem s) src (unat len) \<noteq> []"
        using \<open>0 < unat len\<close> by (metis length_bytes_at length_greater_0_conv)
      ultimately show ?thesis
        using True walkaddr_uaddr [OF wf, of dstva]
        by (subst copyout.simps) (cases "bytes_at (pmem s) src (unat len)"; simp)
    next
      case (Some pa0)
      let ?s = "s\<lparr>pmem := memmove (pmem s) (pa0 + (dstva - PGROUNDDOWN dstva)) src (ucast ?n)\<rparr>"
      note round = copyout_round [OF 1(2,3) Some]
      have "copyout pt dstva src len s =
          copyout pt (PGROUNDDOWN dstva + PGSIZE) (src + ?n) (len - ?n) ?s"
        using True walkaddr_uaddr [OF wf, of dstva] Some uaddr_aligned [OF Some]
        by (subst copyout.simps) (simp add: Let_def)
      also have "\<dots> = Inr (copyout_bytes pt (PGROUNDDOWN dstva + PGSIZE)
          (bytes_at (pmem ?s) (src + ?n) (unat (len - ?n))) ?s)"
        using 1(1) [OF True refl, of _ ?n] walkaddr_uaddr [OF wf, of dstva] Some uaddr_aligned [OF Some]
          round(2,3) by simp
      also have "\<dots> = Inr (copyout_bytes pt (dstva + ?n)
          (bytes_at (pmem s) (src + ?n) (unat (len - ?n))) ?s)"
        using chunk_next [of len dstva] round(4) by (cases "len - ?n = 0") simp_all
      also have "\<dots> = Inr (copyout_bytes pt dstva (bytes_at (pmem s) src (unat len)) s)"
        unfolding split
        by (subst copyout_bytes_chunk [OF 1(2) _ Some]) (simp_all add: chunk_room round(1))
      finally show ?thesis .
    qed
  qed
qed

section \<open>\<open>copyin\<close> moves bytes\<close>

lemma copyin_bytes_chunk:
  assumes "uaddr (pmem s) pt (PGROUNDDOWN va) = Some pa0" and "unat va mod 4096 + n \<le> 4096"
  shows "copyin_bytes pt va (n + k) s =
    (let (bs, ok) = copyin_bytes pt (va + of_nat n) k s
     in (bytes_at (pmem s) (pa0 + (va - PGROUNDDOWN va)) n @ bs, ok))"
  using assms
proof (induction n arbitrary: va)
  case 0
  then show ?case by simp
next
  case (Suc n)
  let ?pa = "pa0 + (va - PGROUNDDOWN va)"
  have u: "uaddr (pmem s) pt va = Some ?pa" using Suc.prems(1) uaddr_page [of "pmem s" pt va] by simp
  have bytes: "bytes_at (pmem s) ?pa (Suc n) = pmem s ?pa # bytes_at (pmem s) (?pa + 1) n"
    using bytes_at_append [of "pmem s" ?pa 1 n] by (simp add: bytes_at_def)
  show ?case
  proof (cases "n = 0")
    case True
    then show ?thesis using u by (simp add: bytes_at_def)
  next
    case False
    then have lt: "unat va mod 4096 + 1 < 4096" using Suc.prems(2) by simp
    note nx = PGROUNDDOWN_next [OF lt]
    have "unat (va + 1) mod 4096 = unat va mod 4096 + 1"
      using lt by (simp add: nx(2) mod_Suc)
    then have "copyin_bytes pt (va + 1) (n + k) s = (let (bs, ok) = copyin_bytes pt (va + 1 + of_nat n) k s
        in (bytes_at (pmem s) (pa0 + (va + 1 - PGROUNDDOWN (va + 1))) n @ bs, ok))"
      using Suc.prems nx(1) by (intro Suc.IH) simp_all
    moreover have "pa0 + (va + 1 - PGROUNDDOWN (va + 1)) = ?pa + 1" by (simp add: nx(1))
    ultimately show ?thesis
      using u unfolding bytes by (simp add: case_prod_unfold Let_def algebra_simps)
  qed
qed

lemma store_bytes_append:
  assumes "length as + length bs \<le> 2 ^ 64"
  shows "store_bytes m a (as @ bs) = store_bytes (store_bytes m a as) (a + of_nat (length as)) bs"
  using assms
proof (induction as arbitrary: m a)
  case Nil
  then show ?case by simp
next
  case (Cons b as)
  then show ?case by (simp add: store_bytes_Cons add.assoc)
qed

lemma copyin_bytes_le: "length (fst (copyin_bytes pt va n s)) \<le> n"
  by (induction n arbitrary: va) (auto split: option.split prod.split simp: Let_def case_prod_unfold)

text \<open>What \<open>copyin_bytes\<close> returns depends on the translations and the user bytes only.\<close>

lemma copyin_bytes_cong:
  assumes "\<And>va. uaddr (pmem s') pt va = uaddr (pmem s) pt va"
    and "\<And>va pa. uaddr (pmem s) pt va = Some pa \<Longrightarrow> pmem s' pa = pmem s pa"
  shows "copyin_bytes pt va n s' = copyin_bytes pt va n s"
  by (induction n arbitrary: va) (simp_all add: assms split: option.split)

lemma kernel_store:
  assumes ok: "user_ok m pt" and run: "kernel_run m pt a (length bs)"
  shows "user_ok (store_bytes m a bs) pt" and "pt_pages (store_bytes m a bs) pt = pt_pages m pt"
    and "uaddr (store_bytes m a bs) pt va = uaddr m pt va"
    and "uaddr m pt va = Some pa \<Longrightarrow> store_bytes m a bs pa = m pa"
proof -
  have le: "length bs \<le> 2 ^ 64" using kernel_runD(1) [OF run] by simp
  have free: "\<forall>q\<in>pt_pages m pt. \<not> in_page q (a + of_nat i)" if "i < length bs" for i
    using kernel_runD(2) [OF run that] by blast
  show "user_ok (store_bytes m a bs) pt" by (rule user_store_bytes(2) [OF ok le free])
  show "pt_pages (store_bytes m a bs) pt = pt_pages m pt" by (rule user_store_bytes(3) [OF ok le free])
  show "uaddr (store_bytes m a bs) pt va = uaddr m pt va" by (rule user_store_bytes(1) [OF ok le free])
  assume u: "uaddr m pt va = Some pa"
  have "\<not> unat (pa - a) < length bs"
    using kernel_runD(3) [OF run, of "unat (pa - a)" va] u by auto
  then show "store_bytes m a bs pa = m pa" by (simp add: store_bytes_def)
qed

text \<open>One round of \<open>copyin\<close>.\<close>

lemma copyin_round:
  assumes ok: "user_ok m pt" and run: "kernel_run m pt dst (unat len)"
    and pa0: "uaddr m pt (PGROUNDDOWN va) = Some pa0"
  defines "n \<equiv> chunk va len"
  defines "m' \<equiv> memmove m dst (pa0 + (va - PGROUNDDOWN va)) (ucast n)"
  shows "m' = store_bytes m dst (bytes_at m (pa0 + (va - PGROUNDDOWN va)) (unat n))"
    and "user_ok m' pt" and "kernel_run m' pt (dst + n) (unat (len - n))"
    and "uaddr m' pt x = uaddr m pt x" and "uaddr m pt x = Some pa \<Longrightarrow> m' pa = m pa"
proof -
  let ?pa = "pa0 + (va - PGROUNDDOWN va)"
  have nn: "unat (ucast n :: u32) = unat n" unfolding n_def by (rule unat_chunk_u32)
  have le: "unat n \<le> unat len" and room: "unat n \<le> 4096"
    unfolding n_def by (simp_all add: unat_chunk)
  have "uaddr m pt va = Some ?pa" using pa0 uaddr_page [of m pt va] by simp
  then have "unat ?pa < 2281701376" using user_okD(4) [OF ok] by (simp add: word_less_nat_alt)
  then have src: "unat ?pa + unat n < 2 ^ 64" using room by simp
  have dst: "unat dst + unat n \<le> 2 ^ 64" using kernel_runD(1) [OF run] le by simp
  show m': "m' = store_bytes m dst (bytes_at m ?pa (unat n))"
    using memmove_copied [of ?pa "ucast n" dst m] src dst by (simp add: m'_def nn copied_def)
  have run': "kernel_run m pt dst (length (bytes_at m ?pa (unat n)))"
    using run le by (auto simp: kernel_run_def)
  note st = kernel_store [OF ok run', folded m']
  show "user_ok m' pt" "uaddr m' pt x = uaddr m pt x" "uaddr m pt x = Some pa \<Longrightarrow> m' pa = m pa"
    using st(1,3,4) by simp_all
  show "kernel_run m' pt (dst + n) (unat (len - n))"
    using kernel_run_rest [OF run le st(2) st(3)] by (simp add: n_def unat_chunk_rest)
qed

lemma copyin_equiv:
  assumes "user_ok (pmem s) pt" and "kernel_run (pmem s) pt dst (unat len)"
  shows "copyin pt dst srcva len s =
    Inr (let (bs, ok) = copyin_bytes pt srcva (unat len) s
         in (if ok then 0 else -1, s\<lparr>pmem := store_bytes (pmem s) dst bs\<rparr>))"
  using assms
proof (induction pt dst srcva len s rule: copyin.induct)
  case (1 pt dst srcva len s)
  note wf = user_okD(1) [OF 1(2)]
  show ?case
  proof (cases "0 < len")
    case False
    then have "len = 0" by (simp add: word_gt_0)
    then show ?thesis by (subst copyin.simps) simp
  next
    case True
    let ?n = "chunk srcva len"
    obtain k where k: "unat len = Suc k" using True by (metis gr0_implies_Suc unat_gt_0 word_gt_0)
    show ?thesis
    proof (cases "uaddr (pmem s) pt (PGROUNDDOWN srcva)")
      case None
      then have "uaddr (pmem s) pt srcva = None" using uaddr_page [of _ _ srcva] by simp
      then show ?thesis
        using True None walkaddr_uaddr [OF wf, of srcva] k
        by (subst copyin.simps) simp
    next
      case (Some pa0)
      let ?pa = "pa0 + (srcva - PGROUNDDOWN srcva)"
      let ?s = "s\<lparr>pmem := memmove (pmem s) dst ?pa (ucast ?n)\<rparr>"
      note round = copyin_round [OF 1(2,3) Some]
      obtain bs ok where bs: "copyin_bytes pt (srcva + ?n) (unat (len - ?n)) s = (bs, ok)"
        by fastforce
      have lbs: "length bs \<le> unat (len - ?n)" using copyin_bytes_le bs by (metis fst_conv)
      have same: "copyin_bytes pt x j ?s = copyin_bytes pt x j s" for x j
        by (rule copyin_bytes_cong) (use round in simp_all)
      have "copyin pt dst srcva len s =
          copyin pt (dst + ?n) (PGROUNDDOWN srcva + PGSIZE) (len - ?n) ?s"
        using True walkaddr_uaddr [OF wf, of srcva] Some uaddr_aligned [OF Some]
        by (subst copyin.simps) (simp add: Let_def)
      also have "\<dots> = Inr (let (bs, ok) = copyin_bytes pt (PGROUNDDOWN srcva + PGSIZE) (unat (len - ?n)) ?s
         in (if ok then 0 else -1, ?s\<lparr>pmem := store_bytes (pmem ?s) (dst + ?n) bs\<rparr>))"
        using 1(1) [OF True refl, of _ ?n] walkaddr_uaddr [OF wf, of srcva] Some uaddr_aligned [OF Some]
          round(2,3) by simp
      also have "\<dots> = Inr (if ok then 0 else -1,
          ?s\<lparr>pmem := store_bytes (pmem ?s) (dst + ?n) bs\<rparr>)"
        using chunk_next [of len srcva] bs unfolding same
        by (cases "len - ?n = 0") (auto simp: Let_def)
      also have "?s\<lparr>pmem := store_bytes (pmem ?s) (dst + ?n) bs\<rparr> =
          s\<lparr>pmem := store_bytes (pmem s) dst (bytes_at (pmem s) ?pa (unat ?n) @ bs)\<rparr>"
        using round(1) lbs unat_u64_lt [of len] unat_chunk_le [of srcva len]
        by (subst store_bytes_append) (simp_all add: unat_chunk_rest)
      finally show ?thesis
        using copyin_bytes_chunk [OF Some, of "unat ?n" "unat (len - ?n)"] bs chunk_room [of srcva len]
          unat_chunk_le [of srcva len]
        by (simp add: unat_chunk_rest)
    qed
  qed
qed

section \<open>Reading back\<close>

lemma add_Suc_neq: "Suc i < 2 ^ 64 \<Longrightarrow> (va::u64) \<noteq> va + 1 + of_nat i"
proof
  assume i: "Suc i < 2 ^ 64" and "va = va + 1 + of_nat i"
  then have "va + of_nat (Suc i) = va" by (simp add: add.assoc)
  then have "unat (of_nat (Suc i) :: u64) = 0" by (simp only: add_cancel_left_right unsigned_0)
  with i show False by (simp add: unat_of_nat_le del: of_nat_Suc)
qed

lemma copyout_bytes_spec:
  assumes "user_ok (pmem s) pt" and "copyout_bytes pt va bs s = (0, s')" and "length bs < 2 ^ 64"
  shows "user_ok (pmem s') pt \<and> pt_pages (pmem s') pt = pt_pages (pmem s) pt \<and>
    (\<forall>x. uaddr (pmem s') pt x = uaddr (pmem s) pt x) \<and>
    (\<forall>a. (\<forall>i<length bs. uaddr (pmem s) pt (va + of_nat i) \<noteq> Some a) \<longrightarrow> pmem s' a = pmem s a) \<and>
    copyin_bytes pt va (length bs) s' = (bs, True)"
  using assms
proof (induction bs arbitrary: va s)
  case Nil
  then show ?case by simp
next
  case (Cons b bs)
  then obtain pa where pa: "uaddr (pmem s) pt va = Some pa" by (cases "uaddr (pmem s) pt va") auto
  let ?s = "s\<lparr>pmem := (pmem s)(pa := b)\<rparr>"
  note st = user_store [OF Cons.prems(1) user_okD(2) [OF Cons.prems(1) pa], of b]
  have IH: "user_ok (pmem s') pt" "pt_pages (pmem s') pt = pt_pages (pmem s) pt"
    "\<And>x. uaddr (pmem s') pt x = uaddr (pmem s) pt x"
    "\<And>a. \<forall>i<length bs. uaddr (pmem s) pt (va + 1 + of_nat i) \<noteq> Some a \<Longrightarrow>
      pmem s' a = ((pmem s)(pa := b)) a"
    "copyin_bytes pt (va + 1) (length bs) s' = (bs, True)"
    using Cons.IH [of ?s "va + 1"] Cons.prems pa st by (auto simp del: fun_upd_apply)
  have later: "uaddr (pmem s) pt (va + 1 + of_nat i) \<noteq> Some pa" if "i < length bs" for i
  proof
    assume "uaddr (pmem s) pt (va + 1 + of_nat i) = Some pa"
    then have "va = va + 1 + of_nat i" by (rule user_okD(3) [OF Cons.prems(1) pa])
    then show False using add_Suc_neq [of i va] that Cons.prems(3) by simp
  qed
  have "pmem s' pa = b" using IH(4) [of pa] later by simp
  moreover have "pmem s' a = pmem s a"
    if "\<forall>i<length (b # bs). uaddr (pmem s) pt (va + of_nat i) \<noteq> Some a" for a
  proof -
    have "uaddr (pmem s) pt va \<noteq> Some a" using that [rule_format, of 0] by simp
    moreover have "\<forall>i<length bs. uaddr (pmem s) pt (va + 1 + of_nat i) \<noteq> Some a"
      using that by (auto simp: All_less_Suc2 add.assoc)
    ultimately show ?thesis using IH(4) [of a] pa by auto
  qed
  ultimately show ?case
    using IH(1,2,3,5) pa by simp
qed

lemma kernel_run_cong:
  "kernel_run m pt a n \<Longrightarrow> pt_pages m' pt = pt_pages m pt \<Longrightarrow> (\<And>x. uaddr m' pt x = uaddr m pt x) \<Longrightarrow>
   kernel_run m' pt a n"
  by (simp add: kernel_run_def)

lemma copyout_bytes_returns:
  assumes "user_ok (pmem s) pt" and "\<And>i. i < length bs \<Longrightarrow> uaddr (pmem s) pt (va + of_nat i) \<noteq> None"
  shows "\<exists>s'. copyout_bytes pt va bs s = (0, s')"
  using assms
proof (induction bs arbitrary: va s)
  case Nil
  then show ?case by simp
next
  case (Cons b bs)
  obtain pa where pa: "uaddr (pmem s) pt va = Some pa" using Cons.prems(2) [of 0] by auto
  note st = user_store [OF Cons.prems(1) user_okD(2) [OF Cons.prems(1) pa], of b]
  have "uaddr (pmem s) pt (va + 1 + of_nat i) \<noteq> None" if "i < length bs" for i
    using Cons.prems(2) [of "Suc i"] that by (simp add: add.assoc)
  then show ?case
    using Cons.IH [of "s\<lparr>pmem := (pmem s)(pa := b)\<rparr>" "va + 1"] pa st by (simp del: fun_upd_apply)
qed

text \<open>A concrete user table: \<open>ex_state\<close> with one user page.\<close>

lemma ex_user:
  obtains s :: kmem where "user_ok (pmem s) 0x80002000"
    and "pt_pages (pmem s) 0x80002000 \<subseteq> {0x80002000, 0x80003000, 0x80004000}"
    and "\<And>va. uaddr (pmem s) 0x80002000 va =
      (if va < 4096 then Some (0x80005000 + va) else None)"
proof -
  have n: "npages 0 4096 = 1" by (simp add: npages_def)
  obtain s ps' where "mappages 0x80002000 0 4096 0x80005000 0x16 ex_state = Inr (0, s)"
    and upd: "pt_upd 0x80002000 ex_state [0x80003000, 0x80004000] s ps'"
    and map1: "mapped 0x80002000 (pmem ex_state) (pmem s) (PGROUNDDOWN 0) 1 0x80005000 0x16"
    using mappages_spec [OF ex_state_inv, of 4096 0 "0x80005000" "0x16"]
    by (auto simp: n ex_state_table mappages_outcome_def)
  have sub: "pt_pages (pmem s) 0x80002000 \<subseteq> {0x80002000, 0x80003000, 0x80004000}"
    using pt_updD(2) [OF upd] ex_state_table(2) set_take_subset by fastforce
  have e: "PA2PTE 0x80005000 OR 0x16 OR 1 = (0x20001417 :: u64)" "PTE2PA 0x20001417 = 0x80005000"
    "valid_pte 0x20001417" "0x20001417 AND PTE_U \<noteq> 0" by (code_simp)+
  have down: "PGROUNDDOWN va = 0" if "va < 4096" for va
    using that PGROUNDDOWN_eq_iff [of 0 va] by (simp add: page_aligned_def word_less_nat_alt)
  have u: "uaddr (pmem s) 0x80002000 va = (if va < 4096 then Some (0x80005000 + va) else None)" for va
  proof (cases "va < MAXVA")
    case True
    then have "pte_of (pmem s) 0x80002000 va = (if va < 4096 then 0x20001417 else 0)"
      using map1 down [of va] down [of 0] e(1)
      by (auto simp: mapped_def word_less_nat_alt ex_state_table)
    then show ?thesis using True e down [of va] by (auto simp: uaddr_def Let_def)
  next
    case False
    then show ?thesis by (auto simp: uaddr_def Let_def word_less_nat_alt)
  qed
  have page: "in_page 0x80005000 (0x80005000 + va) \<and> 0x80005000 + va < PHYSTOP" if "va < 4096" for va :: u64
    using that unat_add_no_wrap [of "0x80005000" va] by (simp add: in_page_def word_less_nat_alt)
  have "\<not> in_page q (0x80005000 + va)" if "q \<in> pt_pages (pmem s) 0x80002000" "va < 4096" for q va
    using that sub page [OF that(2)] not_in_page [of q "0x80005000" "0x80005000 + va"]
    by (auto simp: page_aligned_def)
  then have "user_ok (pmem s) 0x80002000"
    using pt_updD(1) [OF upd] page by (auto simp: user_ok_def vm_inv_def u split: if_splits)
  then show ?thesis using sub u by (rule that)
qed

text \<open>A kernel buffer for this table.\<close>

lemma ex_kernel_run:
  assumes "pt_pages m 0x80002000 \<subseteq> {0x80002000, 0x80003000, 0x80004000}"
    and "\<And>va. uaddr m 0x80002000 va = (if va < 4096 then Some (0x80005000 + va) else None)"
    and "n \<le> 4096" and "a = 0x80000000 \<or> a = 0x80001000"
  shows "kernel_run m 0x80002000 a n"
proof -
  have in_a: "in_page a (a + of_nat i)" if "i < n" for i
    using that assms(3) by (intro in_page_offset) simp
  have al: "page_aligned a" using assms(4) by (auto simp: page_aligned_def)
  have "\<not> in_page q (a + of_nat i)" if "i < n" "q \<in> pt_pages m 0x80002000" for i q
    using that assms(1,4) in_a [OF that(1)] al not_in_page [of q a "a + of_nat i"]
    by (auto simp: page_aligned_def)
  moreover have "uaddr m 0x80002000 va \<noteq> Some (a + of_nat i)" if "i < n" for va i
  proof
    assume "uaddr m 0x80002000 va = Some (a + of_nat i)"
    then have "va < 4096" "0x80005000 + va = a + of_nat i" by (auto simp: assms(2) split: if_splits)
    then have "in_page 0x80005000 (a + of_nat i)"
      using in_page_offset [of "unat va" "0x80005000"] by (simp add: word_less_nat_alt)
    then show False
      using in_a [OF that] al assms(4) not_in_page [of "0x80005000" a "a + of_nat i"]
      by (auto simp: page_aligned_def)
  qed
  ultimately show ?thesis using assms(3,4) by (auto simp: kernel_run_def)
qed

section \<open>Properties\<close>

text \<open>Property C7. \<open>copyout\<close>, which works page by page, has the effect of copying byte by byte
  through the translation of each user address: it returns \<open>0\<close> when every byte is mapped
  for the user, and otherwise \<open>-1\<close> after the bytes before the first unmapped one.\<close>

theorem copyout_correct:
  assumes "user_ok (pmem s) pt" and "kernel_run (pmem s) pt src (unat len)"
  shows "copyout pt dstva src len s =
    Inr (copyout_bytes pt dstva (bytes_at (pmem s) src (unat len)) s)"
  using assms by (rule copyout_equiv)

theorem copyout_correct_witness:
  "\<exists>s :: kmem. uaddr (pmem s) 0x80002000 10 = Some 0x8000500A \<and>
    copyout 0x80002000 10 0x80000000 5 s =
      Inr (copyout_bytes 0x80002000 10 (bytes_at (pmem s) 0x80000000 5) s)"
proof -
  obtain s :: kmem where s: "user_ok (pmem s) 0x80002000"
    "pt_pages (pmem s) 0x80002000 \<subseteq> {0x80002000, 0x80003000, 0x80004000}"
    "\<And>va. uaddr (pmem s) 0x80002000 va = (if va < 4096 then Some (0x80005000 + va) else None)"
    using ex_user by blast
  have "kernel_run (pmem s) 0x80002000 0x80000000 (unat (5 :: u64))"
    by (rule ex_kernel_run [OF s(2,3)]) simp_all
  from copyout_correct [OF s(1) this, of 10] s(3) [of 10] show ?thesis by auto
qed

text \<open>Property C11. What \<open>copyout\<close> wrote to user memory, \<open>copyin\<close> reads back from the same
  virtual address, across page boundaries.\<close>

theorem copyout_copyin:
  assumes ok: "user_ok (pmem s) pt" and src: "kernel_run (pmem s) pt src (unat len)"
    and dst: "kernel_run (pmem s) pt dst (unat len)"
    and out: "copyout pt va src len s = Inr (0, s')"
  shows "copyin pt dst va len s' =
    Inr (0, s'\<lparr>pmem := store_bytes (pmem s') dst (bytes_at (pmem s) src (unat len))\<rparr>)"
proof -
  let ?bs = "bytes_at (pmem s) src (unat len)"
  have "copyout_bytes pt va ?bs s = (0, s')" using out copyout_equiv [OF ok src] by simp
  from copyout_bytes_spec [OF ok this] unat_u64_lt [of len]
  have s': "user_ok (pmem s') pt" "pt_pages (pmem s') pt = pt_pages (pmem s) pt"
    "\<And>x. uaddr (pmem s') pt x = uaddr (pmem s) pt x" "copyin_bytes pt va (unat len) s' = (?bs, True)"
    by auto
  then show ?thesis
    using copyin_equiv [OF s'(1) kernel_run_cong [OF dst s'(2) s'(3)]] by simp
qed

theorem copyout_copyin_witness:
  "\<exists>(s :: kmem) s'. copyout 0x80002000 10 0x80000000 5 s = Inr (0, s') \<and>
    copyin 0x80002000 0x80001000 10 5 s' =
      Inr (0, s'\<lparr>pmem := store_bytes (pmem s') 0x80001000 (bytes_at (pmem s) 0x80000000 5)\<rparr>)"
proof -
  obtain s :: kmem where s: "user_ok (pmem s) 0x80002000"
    "pt_pages (pmem s) 0x80002000 \<subseteq> {0x80002000, 0x80003000, 0x80004000}"
    "\<And>va. uaddr (pmem s) 0x80002000 va = (if va < 4096 then Some (0x80005000 + va) else None)"
    using ex_user by blast
  have src: "kernel_run (pmem s) 0x80002000 0x80000000 (unat (5 :: u64))"
    and dst: "kernel_run (pmem s) 0x80002000 0x80001000 (unat (5 :: u64))"
    by (rule ex_kernel_run [OF s(2,3)]; simp)+
  have "uaddr (pmem s) 0x80002000 (10 + of_nat i) \<noteq> None" if "i < 5" for i
    using that unat_add_no_wrap [of 10 "of_nat i :: u64"]
    by (simp add: s(3) word_less_nat_alt unat_of_nat_le)
  then obtain s' where "copyout_bytes 0x80002000 10 (bytes_at (pmem s) 0x80000000 5) s = (0, s')"
    using copyout_bytes_returns [OF s(1), of "bytes_at (pmem s) 0x80000000 5" 10] by auto
  then have out: "copyout 0x80002000 10 0x80000000 5 s = Inr (0, s')"
    using copyout_equiv [OF s(1) src, of 10] by simp
  from copyout_copyin [OF s(1) src dst out] out show ?thesis by auto
qed

end
