(* ===== verification/Spinlock.thy ===== *)
theory Spinlock
  imports Prelude
begin

text \<open>
  \<open>kernel/spinlock.c\<close>: spin locks on a machine with several harts. A lock and the interrupt
  state of a hart are records; \<open>mycpu()\<close> is the index of the hart that executes. The code
  of \<open>acquire\<close> and \<open>release\<close> is cut at its accesses to the shared lock word, and
  \<open>lock_step\<close> interleaves the pieces of all harts; mutual exclusion is an invariant of
  the reachable states. The rest of the development treats a critical section as one step on
  the strength of it.
\<close>

section \<open>Definitions\<close>

record spinlock =
  locked :: bool
  lk_name :: string
  lk_cpu :: "nat option"

text \<open>The interrupt part of \<open>struct cpu\<close>; \<open>intr\<close> is the bit \<open>SIE\<close> of
  \<open>sstatus\<close>.\<close>

record hart =
  noff :: int
  intena :: bool
  intr :: bool

record machine =
  harts :: "nat \<Rightarrow> hart"
  locks :: "nat \<Rightarrow> spinlock"

definition initlock :: "nat \<Rightarrow> string \<Rightarrow> machine \<Rightarrow> machine" where
  "initlock lk name s =
     s\<lparr>locks := (locks s)(lk := \<lparr>locked = False, lk_name = name, lk_cpu = None\<rparr>)\<rparr>"

definition push_off :: "hart \<Rightarrow> hart" where
  "push_off h =
     (let old = intr h;
          h1 = h\<lparr>intr := False\<rparr>;
          h2 = (if noff h1 = 0 then h1\<lparr>intena := old\<rparr> else h1)
      in h2\<lparr>noff := noff h2 + 1\<rparr>)"

definition pop_off :: "hart \<Rightarrow> hart res" where
  "pop_off h =
     (if intr h then Inl (Panic ''pop_off - interruptible'')
      else if noff h < 1 then Inl (Panic ''pop_off'')
      else let h1 = h\<lparr>noff := noff h - 1\<rparr>
           in Inr (if noff h1 = 0 \<and> intena h1 then h1\<lparr>intr := True\<rparr> else h1))"

definition holding :: "nat \<Rightarrow> nat \<Rightarrow> machine \<Rightarrow> bool" where
  "holding c lk s \<longleftrightarrow> locked (locks s lk) \<and> lk_cpu (locks s lk) = Some c"

definition on_hart :: "nat \<Rightarrow> (hart \<Rightarrow> hart) \<Rightarrow> machine \<Rightarrow> machine" where
  "on_hart c f s = s\<lparr>harts := (harts s)(c := f (harts s c))\<rparr>"

definition on_lock :: "nat \<Rightarrow> (spinlock \<Rightarrow> spinlock) \<Rightarrow> machine \<Rightarrow> machine" where
  "on_lock lk f s = s\<lparr>locks := (locks s)(lk := f (locks s lk))\<rparr>"

text \<open>\<open>acquire\<close>: up to the spin loop, one round of the loop (the value the swap returned and
  the new state), and after it.\<close>

definition acquire_enter :: "nat \<Rightarrow> nat \<Rightarrow> machine \<Rightarrow> machine res" where
  "acquire_enter c lk s =
     (let s1 = on_hart c push_off s
      in if holding c lk s1 then Inl (Panic ''acquire'') else Inr s1)"

definition test_and_set :: "nat \<Rightarrow> machine \<Rightarrow> bool \<times> machine" where
  "test_and_set lk s = (locked (locks s lk), on_lock lk (locked_update (\<lambda>_. True)) s)"

definition acquire_done :: "nat \<Rightarrow> nat \<Rightarrow> machine \<Rightarrow> machine" where
  "acquire_done c lk s = on_lock lk (lk_cpu_update (\<lambda>_. Some c)) s"

text \<open>\<open>release\<close>: up to the store that frees the lock, the store, and the final
  \<open>pop_off\<close>.\<close>

definition release_enter :: "nat \<Rightarrow> nat \<Rightarrow> machine \<Rightarrow> machine res" where
  "release_enter c lk s =
     (if \<not> holding c lk s then Inl (Panic ''release'')
      else Inr (on_lock lk (lk_cpu_update (\<lambda>_. None)) s))"

definition lock_release :: "nat \<Rightarrow> machine \<Rightarrow> machine" where
  "lock_release lk s = on_lock lk (locked_update (\<lambda>_. False)) s"

definition release_done :: "nat \<Rightarrow> machine \<Rightarrow> machine res" where
  "release_done c s =
     bindR (pop_off (harts s c)) (\<lambda>h. Inr (s\<lparr>harts := (harts s)(c := h)\<rparr>))"

text \<open>The whole functions, run without interference. \<open>acquire\<close> spins forever on a lock that
  is taken, which is the value \<open>None\<close>.\<close>

partial_function (option) spin :: "nat \<Rightarrow> machine \<Rightarrow> machine option" where
  "spin lk s = (let (old, s') = test_and_set lk s in if old then spin lk s' else Some s')"

definition acquire :: "nat \<Rightarrow> nat \<Rightarrow> machine \<Rightarrow> machine res option" where
  "acquire c lk s =
     (case acquire_enter c lk s of
        Inl e \<Rightarrow> Some (Inl e)
      | Inr s1 \<Rightarrow> map_option (\<lambda>s2. Inr (acquire_done c lk s2)) (spin lk s1))"

definition release :: "nat \<Rightarrow> nat \<Rightarrow> machine \<Rightarrow> machine res" where
  "release c lk s =
     bindR (release_enter c lk s) (\<lambda>s1. release_done c (lock_release lk s1))"

section \<open>Interleaving the harts\<close>

text \<open>Where a hart is: outside the lock code, in the spin loop, between the successful swap and
  the store to \<open>lk->cpu\<close>, between the two stores of \<open>release\<close>, or before the
  final \<open>pop_off\<close>. \<open>inside c\<close> are the locks \<open>c\<close> has acquired and not begun
  to release.\<close>

datatype pc = Outside | Spinning nat | Swapped nat | Releasing nat | Released nat

record system =
  mach :: machine
  pcs :: "nat \<Rightarrow> pc"
  inside :: "nat \<Rightarrow> nat set"

inductive lock_step :: "system \<Rightarrow> system \<Rightarrow> bool" where
  enter: "pcs x c = Outside \<Longrightarrow> acquire_enter c lk (mach x) = Inr s \<Longrightarrow>
    lock_step x (x\<lparr>mach := s, pcs := (pcs x)(c := Spinning lk)\<rparr>)"
| busy: "pcs x c = Spinning lk \<Longrightarrow> test_and_set lk (mach x) = (True, s) \<Longrightarrow>
    lock_step x (x\<lparr>mach := s\<rparr>)"
| taken: "pcs x c = Spinning lk \<Longrightarrow> test_and_set lk (mach x) = (False, s) \<Longrightarrow>
    lock_step x (x\<lparr>mach := s, pcs := (pcs x)(c := Swapped lk)\<rparr>)"
| acquired: "pcs x c = Swapped lk \<Longrightarrow>
    lock_step x (x\<lparr>mach := acquire_done c lk (mach x), pcs := (pcs x)(c := Outside),
      inside := (inside x)(c := insert lk (inside x c))\<rparr>)"
| leave: "pcs x c = Outside \<Longrightarrow> release_enter c lk (mach x) = Inr s \<Longrightarrow>
    lock_step x (x\<lparr>mach := s, pcs := (pcs x)(c := Releasing lk),
      inside := (inside x)(c := inside x c - {lk})\<rparr>)"
| freed: "pcs x c = Releasing lk \<Longrightarrow>
    lock_step x (x\<lparr>mach := lock_release lk (mach x), pcs := (pcs x)(c := Released lk)\<rparr>)"
| left: "pcs x c = Released lk \<Longrightarrow> release_done c (mach x) = Inr s \<Longrightarrow>
    lock_step x (x\<lparr>mach := s, pcs := (pcs x)(c := Outside)\<rparr>)"

inductive lock_reach :: "system \<Rightarrow> bool" where
  start: "(\<And>lk. \<not> locked (locks (mach x) lk) \<and> lk_cpu (locks (mach x) lk) = None) \<Longrightarrow>
    (\<And>c. noff (harts (mach x) c) = 0) \<Longrightarrow> (\<And>c. pcs x c = Outside) \<Longrightarrow> (\<And>c. inside x c = {}) \<Longrightarrow>
    lock_reach x"
| step: "lock_reach x \<Longrightarrow> lock_step x y \<Longrightarrow> lock_reach y"

inductive_cases lock_stepE: "lock_step x y"

text \<open>The hart that owns the lock word.\<close>

definition owns :: "system \<Rightarrow> nat \<Rightarrow> nat \<Rightarrow> bool" where
  "owns x c lk \<longleftrightarrow> lk \<in> inside x c \<or> pcs x c = Swapped lk \<or> pcs x c = Releasing lk"

definition lock_inv :: "system \<Rightarrow> bool" where
  "lock_inv x \<longleftrightarrow>
     (\<forall>lk. locked (locks (mach x) lk) \<longleftrightarrow> (\<exists>c. owns x c lk)) \<and>
     (\<forall>lk c c'. owns x c lk \<longrightarrow> owns x c' lk \<longrightarrow> c = c') \<and>
     (\<forall>lk c. lk_cpu (locks (mach x) lk) = Some c \<longleftrightarrow> lk \<in> inside x c) \<and>
     (\<forall>lk c. lk \<in> inside x c \<longrightarrow> pcs x c \<noteq> Swapped lk \<and> pcs x c \<noteq> Releasing lk)"

text \<open>Interrupts are off while a hart holds or works on a lock, and \<open>noff\<close> counts these.\<close>

definition hart_inv :: "system \<Rightarrow> bool" where
  "hart_inv x \<longleftrightarrow>
     (\<forall>c. finite (inside x c) \<and>
        noff (harts (mach x) c) = int (card (inside x c)) + (if pcs x c = Outside then 0 else 1) \<and>
        (0 < noff (harts (mach x) c) \<longrightarrow> \<not> intr (harts (mach x) c)))"

section \<open>The invariants\<close>

lemmas lock_defs = acquire_enter_def test_and_set_def acquire_done_def release_enter_def
  lock_release_def release_done_def on_hart_def on_lock_def holding_def Let_def

lemma lock_invD:
  assumes "lock_inv x"
  shows "locked (locks (mach x) lk) \<longleftrightarrow> (\<exists>c. owns x c lk)"
    and "owns x c lk \<Longrightarrow> owns x c' lk \<Longrightarrow> c = c'"
    and "lk_cpu (locks (mach x) lk) = Some c \<longleftrightarrow> lk \<in> inside x c"
    and "lk \<in> inside x c \<Longrightarrow> pcs x c \<noteq> Swapped lk \<and> pcs x c \<noteq> Releasing lk"
  using assms unfolding lock_inv_def by blast+

lemma lock_invI:
  assumes "\<And>lk. locked (locks (mach x) lk) \<longleftrightarrow> (\<exists>c. owns x c lk)"
    and "\<And>lk c c'. owns x c lk \<Longrightarrow> owns x c' lk \<Longrightarrow> c = c'"
    and "\<And>lk c. lk_cpu (locks (mach x) lk) = Some c \<longleftrightarrow> lk \<in> inside x c"
    and "\<And>lk c. lk \<in> inside x c \<Longrightarrow> pcs x c \<noteq> Swapped lk \<and> pcs x c \<noteq> Releasing lk"
  shows "lock_inv x"
  using assms unfolding lock_inv_def by blast

text \<open>A step of hart \<open>c\<close> changes ownership for \<open>c\<close> and one lock only. The cases
  differ in how they change the owners, the lock word, the recorded hart and the locks held.\<close>

lemma lock_inv_same:
  assumes inv: "lock_inv x" and "locks (mach y) = locks (mach x)" and "inside y = inside x"
    and "\<And>d l. owns y d l \<longleftrightarrow> owns x d l"
    and "\<And>d l. pcs y d = Swapped l \<or> pcs y d = Releasing l \<Longrightarrow> pcs y d = pcs x d"
  shows "lock_inv y"
  unfolding lock_inv_def assms(2-4)
  using lock_invD(1-3) [OF inv] lock_invD(4) [OF inv] assms(5) by metis

lemma enter_inv:
  assumes inv: "lock_inv x" and "pcs x c = Outside" and "acquire_enter c lk (mach x) = Inr s"
  shows "lock_inv (x\<lparr>mach := s, pcs := (pcs x)(c := Spinning lk)\<rparr>)"
  using assms(2-3) by (intro lock_inv_same [OF inv]) (auto simp: owns_def lock_defs split: if_splits)

lemma left_inv:
  assumes inv: "lock_inv x" and "pcs x c = Released lk" and "release_done c (mach x) = Inr s"
  shows "lock_inv (x\<lparr>mach := s, pcs := (pcs x)(c := Outside)\<rparr>)"
  using assms(2-3) by (intro lock_inv_same [OF inv]) (auto simp: owns_def lock_defs split: if_splits)

lemma busy_inv:
  assumes inv: "lock_inv x" and "pcs x c = Spinning lk" and "test_and_set lk (mach x) = (True, s)"
  shows "lock_inv (x\<lparr>mach := s\<rparr>)"
proof (rule lock_inv_same [OF inv])
  show "locks (mach (x\<lparr>mach := s\<rparr>)) = locks (mach x)"
    using assms(3) by (auto simp: lock_defs fun_eq_iff)
qed (simp_all add: owns_def)

lemma taken_inv:
  assumes inv: "lock_inv x" and pc: "pcs x c = Spinning lk"
    and ts: "test_and_set lk (mach x) = (False, s)"
  defines "y \<equiv> x\<lparr>mach := s, pcs := (pcs x)(c := Swapped lk)\<rparr>"
  shows "lock_inv y"
proof -
  have free: "\<not> owns x d lk" for d
    using ts lock_invD(1) [OF inv, of lk] by (auto simp: lock_defs)
  have o: "owns y d l \<longleftrightarrow> owns x d l \<or> d = c \<and> l = lk" for d l
    using pc by (auto simp: owns_def y_def)
  have w: "locked (locks (mach y) l) \<longleftrightarrow> locked (locks (mach x) l) \<or> l = lk"
    and p: "lk_cpu (locks (mach y) l) = lk_cpu (locks (mach x) l)" for l
    using ts by (auto simp: lock_defs y_def)
  have i: "inside y = inside x" by (simp add: y_def)
  have "lk \<notin> inside x d" for d using free [of d] by (simp add: owns_def)
  then have q: "l \<in> inside x d \<Longrightarrow> pcs y d \<noteq> Swapped l \<and> pcs y d \<noteq> Releasing l" for d l
    using lock_invD(4) [OF inv, of l d] by (auto simp: y_def)
  show ?thesis
  proof (rule lock_invI)
    show "locked (locks (mach y) l) \<longleftrightarrow> (\<exists>d. owns y d l)" for l
      using o w lock_invD(1) [OF inv, of l] by auto
    show "d = d'" if "owns y d l" "owns y d' l" for l d d'
      using that lock_invD(2) [OF inv, of d l d'] free [of d] free [of d'] unfolding o by blast
    show "lk_cpu (locks (mach y) l) = Some d \<longleftrightarrow> l \<in> inside y d" for l d
      using lock_invD(3) [OF inv, of l d] by (simp add: p i)
  qed (simp only: i q simp_thms)
qed

lemma acquired_inv:
  assumes inv: "lock_inv x" and pc: "pcs x c = Swapped lk"
  defines "y \<equiv> x\<lparr>mach := acquire_done c lk (mach x), pcs := (pcs x)(c := Outside),
      inside := (inside x)(c := insert lk (inside x c))\<rparr>"
  shows "lock_inv y"
proof -
  have o: "owns y d l \<longleftrightarrow> owns x d l" for d l using pc by (auto simp: owns_def y_def)
  have own: "owns x c lk" using pc by (simp add: owns_def)
  have no: "lk \<notin> inside x d" for d
    using lock_invD(2) [OF inv _ own, of d] lock_invD(4) [OF inv, of lk c] pc by (auto simp: owns_def)
  have w: "locked (locks (mach y) l) \<longleftrightarrow> locked (locks (mach x) l)" for l
    by (simp add: y_def lock_defs)
  have p: "lk_cpu (locks (mach y) l) = Some d \<longleftrightarrow> l \<in> inside y d" for l d
    using lock_invD(3) [OF inv, of l d] no by (auto simp: y_def lock_defs)
  have q: "l \<in> inside y d \<Longrightarrow> pcs y d \<noteq> Swapped l \<and> pcs y d \<noteq> Releasing l" for d l
    using lock_invD(4) [OF inv, of l d] by (auto simp: y_def split: if_splits)
  show ?thesis
  proof (rule lock_invI)
    show "locked (locks (mach y) l) \<longleftrightarrow> (\<exists>d. owns y d l)" for l
      using lock_invD(1) [OF inv, of l] by (simp add: o w)
    show "d = d'" if "owns y d l" "owns y d' l" for l d d'
      using that lock_invD(2) [OF inv, of d l d'] unfolding o by blast
  qed (fact p, fact q)
qed

lemma leave_inv:
  assumes inv: "lock_inv x" and pc: "pcs x c = Outside"
    and rel: "release_enter c lk (mach x) = Inr s"
  defines "y \<equiv> x\<lparr>mach := s, pcs := (pcs x)(c := Releasing lk),
      inside := (inside x)(c := inside x c - {lk})\<rparr>"
  shows "lock_inv y"
proof -
  have held: "lk \<in> inside x c"
    using rel lock_invD(3) [OF inv, of lk c] by (auto simp: lock_defs split: if_splits)
  have o: "owns y d l \<longleftrightarrow> owns x d l" for d l using pc held by (auto simp: owns_def y_def)
  have w: "locked (locks (mach y) l) \<longleftrightarrow> locked (locks (mach x) l)" for l
    using rel by (auto simp: y_def lock_defs split: if_splits)
  have only: "lk \<notin> inside x d \<or> d = c" for d
    using held lock_invD(2) [OF inv, of d lk c] by (auto simp: owns_def)
  have p: "lk_cpu (locks (mach y) l) = Some d \<longleftrightarrow> l \<in> inside y d" for l d
    using lock_invD(3) [OF inv, of l d] rel only [of d] by (auto simp: y_def lock_defs split: if_splits)
  have q: "l \<in> inside y d \<Longrightarrow> pcs y d \<noteq> Swapped l \<and> pcs y d \<noteq> Releasing l" for d l
    using lock_invD(4) [OF inv, of l d] by (auto simp: y_def split: if_splits)
  show ?thesis
  proof (rule lock_invI)
    show "locked (locks (mach y) l) \<longleftrightarrow> (\<exists>d. owns y d l)" for l
      using lock_invD(1) [OF inv, of l] by (simp add: o w)
    show "d = d'" if "owns y d l" "owns y d' l" for l d d'
      using that lock_invD(2) [OF inv, of d l d'] unfolding o by blast
  qed (fact p, fact q)
qed

lemma freed_inv:
  assumes inv: "lock_inv x" and pc: "pcs x c = Releasing lk"
  defines "y \<equiv> x\<lparr>mach := lock_release lk (mach x), pcs := (pcs x)(c := Released lk)\<rparr>"
  shows "lock_inv y"
proof -
  have own: "owns x c lk" using pc by (simp add: owns_def)
  have only: "\<not> owns x d lk \<or> d = c" for d using lock_invD(2) [OF inv _ own, of d] by blast
  have no: "lk \<notin> inside x d" for d
    using only [of d] lock_invD(4) [OF inv, of lk c] pc by (auto simp: owns_def)
  have o: "owns y d l \<longleftrightarrow> owns x d l \<and> l \<noteq> lk" for d l
    using pc no [of d] only [of d] by (auto simp: owns_def y_def)
  have w: "locked (locks (mach y) l) \<longleftrightarrow> locked (locks (mach x) l) \<and> l \<noteq> lk"
    and p: "lk_cpu (locks (mach y) l) = lk_cpu (locks (mach x) l)" for l
    by (auto simp: y_def lock_defs)
  have i: "inside y = inside x" by (simp add: y_def)
  have q: "l \<in> inside x d \<Longrightarrow> pcs y d \<noteq> Swapped l \<and> pcs y d \<noteq> Releasing l" for d l
    using lock_invD(4) [OF inv, of l d] by (auto simp: y_def split: if_splits)
  show ?thesis
  proof (rule lock_invI)
    show "locked (locks (mach y) l) \<longleftrightarrow> (\<exists>d. owns y d l)" for l
      using lock_invD(1) [OF inv, of l] by (auto simp: o w)
    show "d = d'" if "owns y d l" "owns y d' l" for l d d'
      using that lock_invD(2) [OF inv, of d l d'] unfolding o by blast
    show "lk_cpu (locks (mach y) l) = Some d \<longleftrightarrow> l \<in> inside y d" for l d
      using lock_invD(3) [OF inv, of l d] by (simp add: p i)
  qed (simp only: i q simp_thms)
qed

lemmas lock_inv_steps = enter_inv busy_inv taken_inv acquired_inv leave_inv freed_inv left_inv

lemma lock_inv_step: "lock_inv x \<Longrightarrow> lock_step x y \<Longrightarrow> lock_inv y"
  by (erule lock_step.cases) (auto intro: lock_inv_steps)

lemma lock_reach_inv: "lock_reach x \<Longrightarrow> lock_inv x"
proof (induction rule: lock_reach.induct)
  case (start x)
  then show ?case by (simp add: lock_inv_def owns_def)
qed (rule lock_inv_step)

section \<open>Interrupts\<close>

definition hart_ok :: "hart \<Rightarrow> bool" where
  "hart_ok h \<longleftrightarrow> 0 \<le> noff h \<and> (0 < noff h \<longrightarrow> \<not> intr h)"

lemma push_off_simps [simp]:
  "noff (push_off h) = noff h + 1" "intr (push_off h) = False"
  by (simp_all add: push_off_def Let_def)

lemma hart_ok_push: "hart_ok h \<Longrightarrow> hart_ok (push_off h)"
  by (simp add: hart_ok_def)

lemma pop_push:
  "hart_ok h \<Longrightarrow> pop_off (push_off h) = Inr (if noff h = 0 then h\<lparr>intena := intr h\<rparr> else h)"
  by (cases h) (auto simp: hart_ok_def push_off_def pop_off_def Let_def)

primrec push_n :: "nat \<Rightarrow> hart \<Rightarrow> hart" where
  "push_n 0 h = h"
| "push_n (Suc n) h = push_off (push_n n h)"

primrec pop_n :: "nat \<Rightarrow> hart \<Rightarrow> hart res" where
  "pop_n 0 h = Inr h"
| "pop_n (Suc n) h = bindR (pop_off h) (pop_n n)"

lemma push_n_facts: "hart_ok h \<Longrightarrow> hart_ok (push_n n h) \<and> noff (push_n n h) = noff h + int n"
  by (induction n) (auto simp: hart_ok_push)

lemma pop_push_n:
  "hart_ok h \<Longrightarrow> pop_n (Suc n) (push_n (Suc n) h) =
     Inr (if noff h = 0 then h\<lparr>intena := intr h\<rparr> else h)"
proof (induction n)
  case 0
  then show ?case by (simp add: pop_push)
next
  case (Suc n)
  note f = push_n_facts [OF Suc.prems, of "Suc n"]
  have "0 \<le> noff h" using Suc.prems by (simp add: hart_ok_def)
  then have "pop_off (push_off (push_n (Suc n) h)) = Inr (push_n (Suc n) h)"
    using f pop_push [of "push_n (Suc n) h"] by simp
  with Suc show ?case by simp
qed

lemma hart_inv_step:
  assumes lk: "lock_inv x" and inv: "hart_inv x" and step: "lock_step x y"
  shows "hart_inv y"
proof -
  have I: "finite (inside x d)"
    "noff (harts (mach x) d) = int (card (inside x d)) + (if pcs x d = Outside then 0 else 1)"
    "0 < noff (harts (mach x) d) \<Longrightarrow> \<not> intr (harts (mach x) d)" for d
    using inv by (auto simp: hart_inv_def)
  from step show ?thesis
  proof (cases rule: lock_step.cases)
    case (enter c l s)
    then show ?thesis using I by (auto simp: hart_inv_def lock_defs split: if_splits)
  next
    case (acquired c l)
    then have "l \<notin> inside x c" using lock_invD(4) [OF lk, of l c] by auto
    with acquired show ?thesis using I by (auto simp: hart_inv_def lock_defs)
  next
    case (leave c l s)
    then have "l \<in> inside x c" using lock_invD(3) [OF lk, of l c] by (auto simp: lock_defs split: if_splits)
    then have "int (card (inside x c - {l})) = int (card (inside x c)) - 1"
      using I(1) [of c] card_Suc_Diff1 [of "inside x c" l] by linarith
    with leave show ?thesis using I by (auto simp: hart_inv_def lock_defs split: if_splits)
  next
    case (left c l s)
    then show ?thesis
      using I I(2) [of c] by (auto simp: hart_inv_def lock_defs pop_off_def split: if_splits)
  qed (use I in \<open>auto simp: hart_inv_def lock_defs\<close>)
qed

lemma lock_reach_hart_inv: "lock_reach x \<Longrightarrow> hart_inv x"
proof (induction rule: lock_reach.induct)
  case (start x)
  then show ?case by (simp add: hart_inv_def)
next
  case (step x y)
  then show ?case using hart_inv_step lock_reach_inv by blast
qed

section \<open>Properties\<close>

text \<open>Property C8. Mutual exclusion: whatever the interleaving of the harts' calls of
  \<open>acquire\<close> and \<open>release\<close>, at most one hart is between the two for a given lock;
  that hart is the one \<open>holding\<close> recognises, and its interrupts are off.\<close>

theorem mutual_exclusion:
  assumes "lock_reach x" and "lk \<in> inside x c"
  shows "holding c lk (mach x) \<and> \<not> intr (harts (mach x) c) \<and>
    (\<forall>c'. c' \<noteq> c \<longrightarrow> lk \<notin> inside x c' \<and> \<not> holding c' lk (mach x))"
proof -
  note inv = lock_reach_inv [OF assms(1)]
  have h: "holding d lk (mach x) \<longleftrightarrow> lk \<in> inside x d" for d
    using lock_invD(1,3) [OF inv, of lk] by (auto simp: holding_def owns_def)
  have "d = c" if "lk \<in> inside x d" for d
    using lock_invD(2) [OF inv, of d lk c] that assms(2) by (simp add: owns_def)
  moreover have "0 < card (inside x c)"
    using assms(2) lock_reach_hart_inv [OF assms(1)] card_gt_0_iff by (fastforce simp: hart_inv_def)
  then have "\<not> intr (harts (mach x) c)"
    using lock_reach_hart_inv [OF assms(1)] by (auto simp: hart_inv_def)
  ultimately show ?thesis using h assms(2) by blast
qed

definition ex_start :: system where
  "ex_start = \<lparr>mach = \<lparr>harts = (\<lambda>_. \<lparr>noff = 0, intena = False, intr = True\<rparr>),
      locks = (\<lambda>_. \<lparr>locked = False, lk_name = ''lk'', lk_cpu = None\<rparr>)\<rparr>,
    pcs = (\<lambda>_. Outside), inside = (\<lambda>_. {})\<rparr>"

lemma ex_acquired:
  obtains x where "lock_reach x" and "7 \<in> inside x 1"
proof -
  have r0: "lock_reach ex_start" by (rule lock_reach.start) (simp_all add: ex_start_def)
  obtain x1 where x1: "lock_step ex_start x1" "pcs x1 1 = Spinning 7" "\<not> locked (locks (mach x1) 7)"
    using lock_step.enter [of ex_start 1 7] by (fastforce simp: ex_start_def lock_defs)
  obtain x2 where x2: "lock_step x1 x2" "pcs x2 1 = Swapped 7"
    using lock_step.taken [OF x1(2)] x1(3) by (fastforce simp: lock_defs)
  show ?thesis
    using that [OF lock_reach.step [OF lock_reach.step [OF lock_reach.step [OF r0 x1(1)] x2(1)]
        lock_step.acquired [OF x2(2)]]]
    by simp
qed

theorem mutual_exclusion_witness:
  "\<exists>x. lock_reach x \<and> holding 1 7 (mach x) \<and> \<not> intr (harts (mach x) 1) \<and> 7 \<notin> inside x 2"
proof -
  obtain x where x: "lock_reach x" "7 \<in> inside x 1" by (rule ex_acquired)
  from mutual_exclusion [OF x] x(1) show ?thesis by auto
qed

text \<open>\<open>push_off\<close> and \<open>pop_off\<close> nest: after any number of
  \<open>push_off\<close>s, as many \<open>pop_off\<close>s succeed and restore the interrupt state and
  the nesting depth; in between interrupts are off.\<close>

theorem push_pop_nest:
  assumes "hart_ok h"
  shows "(\<exists>h'. pop_n n (push_n n h) = Inr h' \<and> intr h' = intr h \<and> noff h' = noff h) \<and>
    (0 < n \<longrightarrow> \<not> intr (push_n n h))"
proof (cases n)
  case (Suc k)
  then show ?thesis
    using pop_push_n [OF assms, of k] by (auto simp del: pop_n.simps intro!: exI)
qed simp

theorem push_pop_nest_witness:
  "(\<exists>h'. pop_n 3 (push_n 3 \<lparr>noff = 0, intena = False, intr = True\<rparr>) = Inr h' \<and> intr h' \<and> noff h' = 0) \<and>
    \<not> intr (push_n 3 \<lparr>noff = 0, intena = False, intr = True\<rparr>)"
  using push_pop_nest [of "\<lparr>noff = 0, intena = False, intr = True\<rparr>" 3] by (simp add: hart_ok_def)

end
