(* ===== verification/Pipe.thy ===== *)
theory Pipe
  imports UserMem
begin

text \<open>
  \<open>kernel/pipe.c\<close>. A pipe is a ring of 512 bytes with two free-running 32-bit counters. A
  call of \<open>pipewrite\<close> or \<open>piperead\<close> runs under \<open>pi->lock\<close> until it returns
  or sleeps; its model is a function from the pipe to the outcome, the pipe and the channels it
  woke up, and the same function resumes a sleeper. User memory is read and written one byte at
  a time through \<open>copyin\<close> and \<open>copyout\<close>, modelled by their byte-wise form (theory
  \<open>UserMem\<close>).

  \<open>contents\<close> abstracts the ring to the list of its bytes, on which the operations append
  and remove; \<open>pipe_step\<close> interleaves any number of readers and writers, and shows FIFO
  delivery and that no process sleeps when it could run. The count \<open>n\<close> is a \<open>nat\<close>: a negative
  \<open>int\<close> runs no iteration of either loop, as 0 does.
\<close>

section \<open>Definitions\<close>

abbreviation (input) PIPESIZE :: u32 where "PIPESIZE \<equiv> 512"

record pipe =
  pdata :: "byte list"
  nread :: u32
  nwrite :: u32
  readopen :: bool
  writeopen :: bool

text \<open>The channels the processes sleep on: \<open>&pi->nread\<close> and \<open>&pi->nwrite\<close>.\<close>

datatype pchan = Nread | Nwrite

datatype outcome = Return int | Sleep nat

text \<open>What \<open>pipealloc\<close> puts into a fresh page; the data bytes are whatever the page held.\<close>

definition pipe_init :: "byte list \<Rightarrow> pipe" where
  "pipe_init junk = \<lparr>pdata = junk, nread = 0, nwrite = 0, readopen = True, writeopen = True\<rparr>"

text \<open>The third component tells whether the last reference is gone and the page is freed.\<close>

definition pipeclose :: "bool \<Rightarrow> pipe \<Rightarrow> pipe \<times> pchan \<times> bool" where
  "pipeclose writable pi =
     (let (pi', w) = (if writable then (pi\<lparr>writeopen := False\<rparr>, Nread)
                      else (pi\<lparr>readopen := False\<rparr>, Nwrite))
      in (pi', w, \<not> readopen pi' \<and> \<not> writeopen pi'))"

text \<open>\<open>pi->data[pi->nwrite++ % PIPESIZE] = ch\<close> and \<open>ch = pi->data[pi->nread++ % PIPESIZE]\<close>.\<close>

definition put :: "byte \<Rightarrow> pipe \<Rightarrow> pipe" where
  "put ch pi = pi\<lparr>pdata := (pdata pi)[unat (nwrite pi mod PIPESIZE) := ch], nwrite := nwrite pi + 1\<rparr>"

definition get :: "pipe \<Rightarrow> byte \<times> pipe" where
  "get pi = (pdata pi ! unat (nread pi mod PIPESIZE), pi\<lparr>nread := nread pi + 1\<rparr>)"

text \<open>\<open>pipewrite\<close> from index \<open>i\<close> on. \<open>src k\<close> is the byte \<open>copyin\<close> reads at
  \<open>addr + k\<close>, \<open>None\<close> when it fails. Woken channels come last.\<close>

function pipewrite :: "bool \<Rightarrow> (nat \<Rightarrow> byte option) \<Rightarrow> nat \<Rightarrow> nat \<Rightarrow> pipe \<Rightarrow> outcome \<times> pipe \<times> pchan list" where
  "pipewrite killed src n i pi =
     (if i < n then
        if nwrite pi = nread pi + PIPESIZE then
          if \<not> readopen pi \<or> killed then (Return (-1), pi, [])
          else (Sleep i, pi, [Nread])
        else (case src i of
                None \<Rightarrow> (Return (int i), pi, [Nread])
              | Some ch \<Rightarrow> pipewrite killed src n (i + 1) (put ch pi))
      else (Return (int i), pi, [Nread]))"
  by pat_completeness auto
termination by (relation "measure (\<lambda>(k, src, n, i, pi). n - i)") auto

declare pipewrite.simps [simp del]

text \<open>The source of \<open>pipewrite\<close>: \<open>copyin(pr->pagetable, &ch, addr + i, 1)\<close>.\<close>

definition user_src :: "u64 \<Rightarrow> u64 \<Rightarrow> 'z kmem_scheme \<Rightarrow> nat \<Rightarrow> byte option" where
  "user_src pt addr s i =
     (case copyin_bytes pt (addr + of_nat i) 1 s of ([ch], True) \<Rightarrow> Some ch | _ \<Rightarrow> None)"

text \<open>The copy loop of \<open>piperead\<close>: the count, the pipe and the memory.\<close>

function piperead_copy ::
  "u64 \<Rightarrow> u64 \<Rightarrow> nat \<Rightarrow> nat \<Rightarrow> pipe \<Rightarrow> 'z kmem_scheme \<Rightarrow> nat \<times> pipe \<times> 'z kmem_scheme" where
  "piperead_copy pt addr n i pi s =
     (if i < n then
        if nread pi = nwrite pi then (i, pi, s)
        else let (ch, pi1) = get pi;
                 (r, s1) = copyout_bytes pt (addr + of_nat i) [ch] s
             in if r = -1 then (i, pi1, s1)
                else piperead_copy pt addr n (i + 1) pi1 s1
      else (i, pi, s))"
  by pat_completeness auto
termination by (relation "measure (\<lambda>(pt, addr, n, i, pi, s). n - i)") auto

declare piperead_copy.simps [simp del]

definition piperead ::
  "bool \<Rightarrow> u64 \<Rightarrow> u64 \<Rightarrow> nat \<Rightarrow> pipe \<Rightarrow> 'z kmem_scheme \<Rightarrow> outcome \<times> pipe \<times> 'z kmem_scheme \<times> pchan list" where
  "piperead killed pt addr n pi s =
     (if nread pi = nwrite pi \<and> writeopen pi then
        if killed then (Return (-1), pi, s, [])
        else (Sleep 0, pi, s, [])
      else let (i, pi1, s1) = piperead_copy pt addr n 0 pi s
           in (Return (int i), pi1, s1, [Nwrite]))"

section \<open>The ring as a queue\<close>

definition pipe_inv :: "pipe \<Rightarrow> bool" where
  "pipe_inv pi \<longleftrightarrow> length (pdata pi) = 512 \<and> unat (nwrite pi - nread pi) \<le> 512"

definition contents :: "pipe \<Rightarrow> byte list" where
  "contents pi = map (\<lambda>k. pdata pi ! ((unat (nread pi) + k) mod 512)) [0..<unat (nwrite pi - nread pi)]"

lemma length_contents [simp]: "length (contents pi) = unat (nwrite pi - nread pi)"
  by (simp add: contents_def)

lemma contents_empty: "contents pi = [] \<longleftrightarrow> nread pi = nwrite pi"
  by (auto simp: contents_def unat_eq_zero)

lemma pipe_full: "nwrite pi = nread pi + 512 \<longleftrightarrow> length (contents pi) = 512"
proof -
  have "nwrite pi = nread pi + 512 \<longleftrightarrow> nwrite pi - nread pi = 512" by (auto simp: diff_eq_eq add.commute)
  then show ?thesis by (simp add: word_unat_eq_iff)
qed

text \<open>512 divides \<open>2 ^ 32\<close>: the index is right also after a counter wrapped around.\<close>

lemma nwrite_index:
  "unat (nwrite pi mod 512) = (unat (nread pi) + unat (nwrite pi - nread pi)) mod 512"
proof -
  have "unat (nwrite pi) = unat (nread pi + (nwrite pi - nread pi))" by simp
  also have "\<dots> = (unat (nread pi) + unat (nwrite pi - nread pi)) mod 4294967296"
    by (simp only: unat_word_ariths) simp
  finally have "unat (nwrite pi) = (unat (nread pi) + unat (nwrite pi - nread pi)) mod 4294967296" .
  then show ?thesis by (simp add: unat_mod mod_mod_cancel)
qed

lemma ring_index_neq: "k < d \<Longrightarrow> d < 512 \<Longrightarrow> (r + k) mod 512 \<noteq> (r + d) mod (512::nat)"
proof
  assume d: "k < d" "d < 512" and "(r + k) mod 512 = (r + d) mod 512"
  then have "512 dvd (r + d) - (r + k)" by (subst (asm) eq_commute) (simp add: mod_eq_dvd_iff_nat)
  then have "512 dvd d - k" by simp
  with d show False using nat_dvd_not_less [of "d - k" 512] by simp
qed

lemma put_contents:
  assumes "pipe_inv pi" and "nwrite pi \<noteq> nread pi + 512"
  shows "contents (put ch pi) = contents pi @ [ch]" and "pipe_inv (put ch pi)"
proof -
  let ?d = "unat (nwrite pi - nread pi)"
  have d: "?d < 512" using assms pipe_full [of pi] by (simp add: pipe_inv_def)
  have eq: "nwrite pi + 1 - nread pi = nwrite pi - nread pi + 1" by simp
  have d1: "unat (nwrite pi + 1 - nread pi) = Suc ?d"
    unfolding eq using unat_add_no_wrap [of "nwrite pi - nread pi" 1] d by simp
  then show "pipe_inv (put ch pi)" using assms(1) d by (simp add: pipe_inv_def put_def)
  have "pdata (put ch pi) ! ((unat (nread pi) + k) mod 512) =
      (if k = ?d then ch else pdata pi ! ((unat (nread pi) + k) mod 512))" if "k \<le> ?d" for k
  proof (cases "k = ?d")
    case True
    then show ?thesis using assms(1) by (simp add: put_def nwrite_index pipe_inv_def)
  next
    case False
    then have "k < ?d" using that by linarith
    from ring_index_neq [OF this d, of "unat (nread pi)"] False show ?thesis
      by (simp add: put_def nwrite_index)
  qed
  then have "map (\<lambda>k. pdata (put ch pi) ! ((unat (nread pi) + k) mod 512)) [0..<Suc ?d] = contents pi @ [ch]"
    by (simp add: contents_def)
  moreover have "nread (put ch pi) = nread pi" "nwrite (put ch pi) = nwrite pi + 1"
    by (simp_all add: put_def)
  ultimately show "contents (put ch pi) = contents pi @ [ch]"
    using d1 by (simp only: contents_def [of "put ch pi"])
qed

lemma get_contents:
  assumes "pipe_inv pi" and "nread pi \<noteq> nwrite pi" and "get pi = (ch, pi')"
  shows "contents pi = ch # contents pi'" and "pipe_inv pi'"
proof -
  let ?d = "unat (nwrite pi - nread pi)"
  have nz: "nwrite pi - nread pi \<noteq> 0" using assms(2) by auto
  then have "0 < ?d" by (simp add: unat_gt_0)
  have eq: "nwrite pi - (nread pi + 1) = nwrite pi - nread pi - 1" by simp
  have d1: "unat (nwrite pi - (nread pi + 1)) = ?d - 1"
    unfolding eq using unat_minus_one [OF nz] .
  have pi': "pi' = pi\<lparr>nread := nread pi + 1\<rparr>" "ch = pdata pi ! (unat (nread pi) mod 512)"
    using assms(3) by (auto simp: get_def unat_mod)
  show "pipe_inv pi'" using assms(1) d1 by (auto simp: pipe_inv_def pi')
  have idx: "(unat (nread pi + 1) + k) mod 512 = (unat (nread pi) + Suc k) mod 512" for k
  proof -
    have "unat (nread pi + 1) mod 512 = Suc (unat (nread pi)) mod 512"
      by (simp add: unat_word_ariths mod_mod_cancel)
    then have "(unat (nread pi + 1) mod 512 + k) mod 512 = (Suc (unat (nread pi)) mod 512 + k) mod 512"
      by (simp only:)
    then show ?thesis by (simp only: mod_add_left_eq add_Suc_shift)
  qed
  show "contents pi = ch # contents pi'"
  proof (rule nth_equalityI)
    show "length (contents pi) = length (ch # contents pi')" using d1 \<open>0 < ?d\<close> by (simp add: pi')
    fix k
    assume "k < length (contents pi)"
    then show "contents pi ! k = (ch # contents pi') ! k"
      using d1 idx by (cases k) (auto simp: contents_def pi')
  qed
qed

section \<open>\<open>pipewrite\<close> and \<open>piperead\<close> on the queue\<close>

lemma put_fields [simp]:
  "nread (put ch pi) = nread pi" "readopen (put ch pi) = readopen pi" "writeopen (put ch pi) = writeopen pi"
  by (simp_all add: put_def)

lemma get_fields:
  "get pi = (ch, pi') \<Longrightarrow> nwrite pi' = nwrite pi \<and> readopen pi' = readopen pi \<and> writeopen pi' = writeopen pi"
  by (auto simp: get_def)

definition full :: "pipe \<Rightarrow> bool" where
  "full pi \<longleftrightarrow> nwrite pi = nread pi + 512"

text \<open>The bytes appended are those at the source from \<open>i\<close> on; the call stops because it is
  done, the source fails, or the pipe is full.\<close>

definition write_result ::
  "bool \<Rightarrow> (nat \<Rightarrow> byte option) \<Rightarrow> nat \<Rightarrow> nat \<Rightarrow> pipe \<Rightarrow> byte list \<Rightarrow> outcome \<times> pipe \<times> pchan list \<Rightarrow> bool" where
  "write_result killed src n i pi bs r \<longleftrightarrow>
     (case r of (out, pi', w) \<Rightarrow>
        pipe_inv pi' \<and> contents pi' = contents pi @ bs \<and>
        nread pi' = nread pi \<and> readopen pi' = readopen pi \<and> writeopen pi' = writeopen pi \<and>
        (\<forall>k<length bs. src (i + k) = Some (bs ! k)) \<and> i + length bs \<le> max i n \<and>
        (case out of
           Sleep j \<Rightarrow> j = i + length bs \<and> j < n \<and> full pi' \<and>
             readopen pi \<and> \<not> killed \<and> w = [Nread]
         | Return r \<Rightarrow>
             r = int (i + length bs) \<and> (n \<le> i + length bs \<or> src (i + length bs) = None) \<and> w = [Nread] \<or>
             r = -1 \<and> full pi' \<and> (\<not> readopen pi \<or> killed) \<and> w = []))"

lemma write_result_Cons:
  assumes "write_result killed src n (Suc i) (put ch pi) bs r" and "src i = Some ch"
    and "pipe_inv pi" and "nwrite pi \<noteq> nread pi + 512" and "i < n"
  shows "write_result killed src n i pi (ch # bs) r"
proof -
  have "src (i + k) = Some ((ch # bs) ! k)" if "\<forall>k<length bs. src (Suc i + k) = Some (bs ! k)"
    "k < length (ch # bs)" for k
    using that assms(2) by (cases k) auto
  then show ?thesis
    using assms(1,5) put_contents [OF assms(3,4), of ch]
    by (auto simp: write_result_def split: prod.splits outcome.splits)
qed

lemma pipewrite_result:
  assumes "pipe_inv pi"
  shows "\<exists>bs. write_result killed src n i pi bs (pipewrite killed src n i pi)"
  using assms
proof (induction killed src n i pi rule: pipewrite.induct)
  case (1 killed src n i pi)
  show ?case
  proof (cases "i < n \<and> nwrite pi \<noteq> nread pi + 512 \<and> src i \<noteq> None")
    case True
    then obtain ch where ch: "src i = Some ch" by auto
    have step: "pipewrite killed src n i pi = pipewrite killed src n (Suc i) (put ch pi)"
      using True ch by (subst pipewrite.simps) simp
    have "\<exists>bs. write_result killed src n (Suc i) (put ch pi) bs (pipewrite killed src n (Suc i) (put ch pi))"
      using 1(1) [OF _ _ ch] True put_contents(2) [OF 1(2)] by simp
    then show ?thesis
      unfolding step using write_result_Cons [where src = src and i = i and pi = pi] ch 1(2) True by blast
  next
    case False
    then have "write_result killed src n i pi [] (pipewrite killed src n i pi)"
      using 1(2)
      by (subst pipewrite.simps) (auto simp: write_result_def full_def split: option.splits)
    then show ?thesis ..
  qed
qed

lemma copyout_bytes_Cons:
  "copyout_bytes pt va (b # bs) s =
     (let (r, s1) = copyout_bytes pt va [b] s in if r = -1 then (-1, s1) else copyout_bytes pt (va + 1) bs s1)"
  by (simp split: option.split)

lemma copyout_byte_cases:
  obtains (ok) s1 where "copyout_bytes pt va [b] s = (0, s1)" | (fail) "copyout_bytes pt va [b] s = (-1, s)"
  by (cases "uaddr (pmem s) pt va") auto

text \<open>The bytes copied out are the first ones of the queue; a byte whose copy fails is taken from
  the queue all the same.\<close>

definition read_result ::
  "u64 \<Rightarrow> u64 \<Rightarrow> nat \<Rightarrow> nat \<Rightarrow> byte list \<Rightarrow> bool \<times> bool \<Rightarrow> 'z kmem_scheme \<Rightarrow> nat \<Rightarrow>
   nat \<times> pipe \<times> 'z kmem_scheme \<Rightarrow> bool" where
  "read_result pt addr n i q open s m r \<longleftrightarrow>
     (case r of (j, pi', s') \<Rightarrow>
        open = (readopen pi', writeopen pi') \<and> j = i + m \<and> j \<le> n \<and> pipe_inv pi' \<and> m \<le> length q \<and>
        copyout_bytes pt (addr + of_nat i) (take m q) s = (0, s') \<and>
        (contents pi' = drop m q \<and> (j = n \<or> contents pi' = []) \<or>
         contents pi' = drop (Suc m) q \<and> m < length q \<and> uaddr (pmem s') pt (addr + of_nat j) = None))"

lemma read_result_Cons:
  assumes "read_result pt addr n (i + 1) q open s1 m r"
    and "copyout_bytes pt (addr + of_nat i) [ch] s = (0, s1)"
  shows "read_result pt addr n i (ch # q) open s (Suc m) r"
proof -
  have va: "addr + of_nat i + 1 = addr + of_nat (i + 1)" by simp
  have copy: "copyout_bytes pt (addr + of_nat i) (ch # bs) s = copyout_bytes pt (addr + of_nat (i + 1)) bs s1" for bs
    unfolding copyout_bytes_Cons [of pt "addr + of_nat i" ch bs] assms(2) va by simp
  obtain j pi' s' where r: "r = (j, pi', s')" by (cases r)
  show ?thesis
    using assms(1) unfolding read_result_def r prod.case take_Suc_Cons drop_Suc_Cons copy list.size
    by auto
qed

lemma piperead_copy_result:
  assumes "pipe_inv pi" and "i \<le> n"
  shows "\<exists>m. read_result pt addr n i (contents pi) (readopen pi, writeopen pi) s m (piperead_copy pt addr n i pi s)"
  using assms
proof (induction pt addr n i pi s rule: piperead_copy.induct)
  case (1 pt addr n i pi s)
  note unfold = piperead_copy.simps [of pt addr n i pi s]
  show ?case
  proof (cases "i < n \<and> nread pi \<noteq> nwrite pi")
    case False
    then have "read_result pt addr n i (contents pi) (readopen pi, writeopen pi) s 0 (piperead_copy pt addr n i pi s)"
      using 1(2,3) contents_empty [of pi] unfolding unfold by (auto simp: read_result_def)
    then show ?thesis ..
  next
    case True
    obtain ch pi1 where g: "get pi = (ch, pi1)" by fastforce
    have c: "contents pi = ch # contents pi1" "pipe_inv pi1"
      using get_contents [OF 1(2) _ g] True by auto
    have f: "readopen pi = readopen pi1" "writeopen pi = writeopen pi1"
      using get_fields [OF g] by simp_all
    show ?thesis
    proof (cases rule: copyout_byte_cases [of pt "addr + of_nat i" ch s])
      case (ok s1)
      have step: "piperead_copy pt addr n i pi s = piperead_copy pt addr n (i + 1) pi1 s1"
        using True g ok unfolding unfold by simp
      have "(0::int) \<noteq> -1" "i + 1 \<le> n" using True by simp_all
      from 1(1) [OF conjunct1 [OF True] conjunct2 [OF True] refl g [symmetric] refl ok [symmetric]
          this(1) c(2) this(2)]
      show ?thesis unfolding step c(1) f using read_result_Cons [OF _ ok] by blast
    next
      case fail
      then have "piperead_copy pt addr n i pi s = (i, pi1, s)"
        using True g unfolding unfold by simp
      moreover have "uaddr (pmem s) pt (addr + of_nat i) = None" using fail by (auto split: option.splits)
      ultimately have "read_result pt addr n i (contents pi) (readopen pi, writeopen pi) s 0 (piperead_copy pt addr n i pi s)"
        using c f True by (simp add: read_result_def)
      then show ?thesis ..
    qed
  qed
qed

lemma piperead_result:
  assumes "pipe_inv pi" and "piperead killed pt addr n pi s = (out, pi', s', w)"
  shows "pi' = pi \<and> s' = s \<and> w = [] \<and> contents pi = [] \<and> writeopen pi \<and> out = (if killed then Return (-1) else Sleep 0) \<or>
    (\<exists>m. out = Return (int m) \<and> w = [Nwrite] \<and> \<not> (contents pi = [] \<and> writeopen pi) \<and>
      read_result pt addr n 0 (contents pi) (readopen pi, writeopen pi) s m (m, pi', s'))"
proof (cases "nread pi = nwrite pi \<and> writeopen pi")
  case True
  then show ?thesis using assms(2) contents_empty [of pi] by (auto simp: piperead_def split: if_splits)
next
  case False
  obtain j where j: "piperead_copy pt addr n 0 pi s = (j, pi', s')" "out = Return (int j)" "w = [Nwrite]"
    using assms(2) False by (auto simp: piperead_def split: if_splits prod.splits)
  obtain m where "read_result pt addr n 0 (contents pi) (readopen pi, writeopen pi) s m (j, pi', s')"
    using piperead_copy_result [OF assms(1), of 0 n pt addr s] unfolding j(1) by auto
  moreover from this have "j = m" by (simp add: read_result_def)
  ultimately show ?thesis using j False contents_empty [of pi] by auto
qed

section \<open>Readers and writers\<close>

text \<open>A client of the pipe: not in a pipe call, or in \<open>pipewrite\<close> at index \<open>i\<close>, or in
  \<open>piperead\<close>; the flag tells that it sleeps.\<close>

datatype client = Idle | Writing "nat \<Rightarrow> byte option" nat nat bool | Reading u64 u64 nat bool

fun wake :: "pchan list \<Rightarrow> client \<Rightarrow> client" where
  "wake ws Idle = Idle"
| "wake ws (Writing src n i asleep) = Writing src n i (asleep \<and> Nwrite \<notin> set ws)"
| "wake ws (Reading pt addr n asleep) = Reading pt addr n (asleep \<and> Nread \<notin> set ws)"

text \<open>A run of \<open>pipewrite\<close> from index \<open>i\<close> accounts for the bytes of its source up to the index at
  which it sleeps or that it returns; when it returns \<open>-1\<close>, for as many as the ring has more than
  before.\<close>

definition ring_used :: "pipe \<Rightarrow> nat" where
  "ring_used pi = unat (nwrite pi - nread pi)"

definition wrote_bytes :: "(nat \<Rightarrow> byte option) \<Rightarrow> nat \<Rightarrow> outcome \<Rightarrow> pipe \<Rightarrow> pipe \<Rightarrow> byte list" where
  "wrote_bytes src i out pi pi' =
     (let k = (case out of Sleep j \<Rightarrow> j - i | Return r \<Rightarrow> if r = -1 then ring_used pi' - ring_used pi else nat r - i)
      in map (\<lambda>j. the (src (i + j))) [0..<k])"

text \<open>What the caller of \<open>piperead\<close> finds in its buffer after a return of \<open>r\<close>. When the ring lost one
  byte more and the address behind the bytes read is not mapped, that byte is recorded as
  \<open>None\<close>.\<close>

definition received_bytes :: "u64 \<Rightarrow> u64 \<Rightarrow> int \<Rightarrow> pipe \<Rightarrow> pipe \<Rightarrow> 'z kmem_scheme \<Rightarrow> byte option list" where
  "received_bytes pt addr r pi pi' m' =
     (if r = -1 then []
      else map Some (fst (copyin_bytes pt addr (nat r) m')) @
           (if ring_used pi' + nat r < ring_used pi \<and> uaddr (pmem m') pt (addr + of_nat (nat r)) = None then [None] else []))"

text \<open>\<open>sent\<close> is what the writers sent so far, \<open>got\<close> what the readers received, and \<open>aborted\<close> are the
  processes whose \<open>pipewrite\<close> put bytes into the ring and returned \<open>-1\<close>.\<close>

record psys =
  ring :: pipe
  clients :: "nat \<Rightarrow> client"
  pkilled :: "nat \<Rightarrow> bool"
  sent :: "byte list"
  got :: "byte option list"
  aborted :: "nat list"

text \<open>\<open>pr->killed\<close> is read at most once in a run, just before it returns or sleeps. \<open>kill\<close> does not
  take \<open>pi->lock\<close>, so it can come between this test and \<open>sleep\<close>, when it finds no sleeper to wake
  up: the process then sleeps with \<open>killed\<close> set (\<open>k\<close> below). A reader's memory is any memory with
  well-formed page tables at the time of its run.\<close>

inductive pipe_step :: "psys \<Rightarrow> psys \<Rightarrow> bool" where
  write_call: "clients x p = Idle \<Longrightarrow>
    pipe_step x (x\<lparr>clients := (clients x)(p := Writing src n 0 False)\<rparr>)"
| write_return: "clients x p = Writing src n i False \<Longrightarrow>
    pipewrite (pkilled x p) src n i (ring x) = (Return r, pi', w) \<Longrightarrow>
    pipe_step x (x\<lparr>ring := pi', clients := (\<lambda>q. if q = p then Idle else wake w (clients x q)),
      sent := sent x @ wrote_bytes src i (Return r) (ring x) pi',
      aborted := (if r = -1 \<and> ring_used pi' \<noteq> ring_used (ring x) then [p] else []) @ aborted x\<rparr>)"
| write_sleep: "clients x p = Writing src n i False \<Longrightarrow>
    pipewrite (pkilled x p) src n i (ring x) = (Sleep j, pi', w) \<Longrightarrow>
    pipe_step x (x\<lparr>ring := pi',
      clients := (\<lambda>q. if q = p then Writing src n j True else wake w (clients x q)),
      sent := sent x @ wrote_bytes src i (Sleep j) (ring x) pi', pkilled := (pkilled x)(p := pkilled x p \<or> k)\<rparr>)"
| read_call: "clients x p = Idle \<Longrightarrow>
    pipe_step x (x\<lparr>clients := (clients x)(p := Reading pt addr n False)\<rparr>)"
| read_return: "clients x p = Reading pt addr n False \<Longrightarrow> user_ok (pmem (m :: kmem)) pt \<Longrightarrow>
    piperead (pkilled x p) pt addr n (ring x) m = (Return r, pi', m', w) \<Longrightarrow>
    pipe_step x (x\<lparr>ring := pi', clients := (\<lambda>q. if q = p then Idle else wake w (clients x q)),
      got := got x @ received_bytes pt addr r (ring x) pi' m'\<rparr>)"
| read_sleep: "clients x p = Reading pt addr n False \<Longrightarrow>
    piperead (pkilled x p) pt addr n (ring x) (m :: kmem) = (Sleep j, pi', m', w) \<Longrightarrow>
    pipe_step x (x\<lparr>ring := pi', clients := (\<lambda>q. if q = p then Reading pt addr n True else wake w (clients x q)),
      pkilled := (pkilled x)(p := pkilled x p \<or> k)\<rparr>)"
| close: "pipeclose writable (ring x) = (pi', w, freed) \<Longrightarrow>
    pipe_step x (x\<lparr>ring := pi', clients := (\<lambda>q. wake [w] (clients x q))\<rparr>)"
| kill: "pipe_step x (x\<lparr>pkilled := (pkilled x)(p := True),
      clients := (clients x)(p := wake [Nread, Nwrite] (clients x p))\<rparr>)"

inductive pipe_reach :: "psys \<Rightarrow> bool" where
  start: "length junk = 512 \<Longrightarrow> ring x = pipe_init junk \<Longrightarrow> (\<And>p. clients x p = Idle) \<Longrightarrow>
    sent x = [] \<Longrightarrow> got x = [] \<Longrightarrow> aborted x = [] \<Longrightarrow> pipe_reach x"
| step: "pipe_reach x \<Longrightarrow> pipe_step x y \<Longrightarrow> pipe_reach y"

text \<open>A byte at a place of one sequence is the byte received there, unless it was lost.\<close>

definition carries :: "byte list \<Rightarrow> byte option list \<Rightarrow> bool" where
  "carries bs gs \<longleftrightarrow> list_all2 (\<lambda>b g. g = Some b \<or> g = None) bs gs"

lemma carries_append: "carries bs gs \<Longrightarrow> carries cs hs \<Longrightarrow> carries (bs @ cs) (gs @ hs)"
  by (simp add: carries_def list_all2_appendI)

lemma carries_Some [simp]: "carries bs (map Some cs) \<longleftrightarrow> bs = cs"
  by (auto simp: carries_def list_all2_conv_all_nth intro: nth_equalityI)

lemma carries_lossless: "carries bs gs \<Longrightarrow> None \<notin> set gs \<Longrightarrow> map Some bs = gs"
  by (auto simp: carries_def list_all2_conv_all_nth in_set_conv_nth intro!: nth_equalityI) fastforce

lemma carries_trans:
  assumes "carries bs (gs @ map Some cs)" and "carries cs hs"
  shows "carries bs (gs @ hs)"
proof -
  obtain us vs where "bs = us @ vs" "carries us gs" "carries vs (map Some cs)"
    using assms(1) by (auto simp: carries_def list_all2_append2)
  then show ?thesis using assms(2) by (simp add: carries_append)
qed

definition pipe_sys_inv :: "psys \<Rightarrow> bool" where
  "pipe_sys_inv x \<longleftrightarrow>
     pipe_inv (ring x) \<and> carries (sent x) (got x @ map Some (contents (ring x))) \<and>
     (\<forall>p src n i. clients x p = Writing src n i True \<longrightarrow> length (contents (ring x)) = 512 \<and> readopen (ring x)) \<and>
     (\<forall>p pt addr n. clients x p = Reading pt addr n True \<longrightarrow> writeopen (ring x) \<and> (contents (ring x) = [] \<or> aborted x \<noteq> [])) \<and>
     (\<forall>q\<in>set (aborted x). pkilled x q \<or> \<not> readopen (ring x))"

lemma wake_Writing [simp]:
  "wake ws c = Writing src n i True \<longleftrightarrow> c = Writing src n i True \<and> Nwrite \<notin> set ws"
  by (cases c) auto

lemma wake_Reading [simp]:
  "wake ws c = Reading pt addr n True \<longleftrightarrow> c = Reading pt addr n True \<and> Nread \<notin> set ws"
  by (cases c) auto

lemma pipe_sys_invD:
  assumes "pipe_sys_inv x"
  shows "pipe_inv (ring x)" and "carries (sent x) (got x @ map Some (contents (ring x)))"
    and "clients x p = Writing src n i True \<Longrightarrow> length (contents (ring x)) = 512 \<and> readopen (ring x)"
    and "clients x p = Reading pt addr n True \<Longrightarrow> writeopen (ring x) \<and> (contents (ring x) = [] \<or> aborted x \<noteq> [])"
    and "q \<in> set (aborted x) \<Longrightarrow> pkilled x q \<or> \<not> readopen (ring x)"
  using assms unfolding pipe_sys_inv_def by blast+

lemma pipe_sys_invI:
  assumes "pipe_inv (ring x)" and "carries (sent x) (got x @ map Some (contents (ring x)))"
    and "\<And>p src n i. clients x p = Writing src n i True \<Longrightarrow> length (contents (ring x)) = 512 \<and> readopen (ring x)"
    and "\<And>p pt addr n. clients x p = Reading pt addr n True \<Longrightarrow>
      writeopen (ring x) \<and> (contents (ring x) = [] \<or> aborted x \<noteq> [])"
    and "\<And>q. q \<in> set (aborted x) \<Longrightarrow> pkilled x q \<or> \<not> readopen (ring x)"
  shows "pipe_sys_inv x"
  using assms unfolding pipe_sys_inv_def by blast

text \<open>What a run of \<open>pipewrite\<close> accounts for is what it appended.\<close>

lemma ring_used_contents: "ring_used pi = length (contents pi)"
  by (simp add: ring_used_def)

lemma write_result_wrote:
  assumes "write_result killed src n i pi bs (out, pi', w)"
  shows "wrote_bytes src i out pi pi' = bs" and "ring_used pi' = ring_used pi + length bs"
proof -
  show u: "ring_used pi' = ring_used pi + length bs"
    using assms by (simp add: write_result_def ring_used_contents del: length_contents)
  have "bs = map (\<lambda>j. the (src (i + j))) [0..<length bs]"
    using assms by (auto simp: write_result_def intro!: nth_equalityI)
  moreover have "(case out of Sleep j \<Rightarrow> j - i | Return r \<Rightarrow> if r = -1 then ring_used pi' - ring_used pi else nat r - i) = length bs"
    using assms u by (auto simp: write_result_def split: outcome.splits)
  ultimately show "wrote_bytes src i out pi pi' = bs" by (simp add: wrote_bytes_def)
qed

text \<open>A write while the pipe is full changes nothing; a full pipe is not empty.\<close>

lemma write_result_full:
  assumes "write_result killed src n i pi bs (out, pi', w)" and "length (contents pi) = 512"
  shows "bs = [] \<and> length (contents pi') = 512"
proof -
  have c: "contents pi' = contents pi @ bs" and "pipe_inv pi'" using assms(1) by (auto simp: write_result_def)
  then have "length (contents pi @ bs) \<le> 512" by (simp only: pipe_inv_def length_contents c [symmetric])
  then have "bs = []" unfolding length_append assms(2) by simp
  then show ?thesis using c assms(2) by (simp only: append_Nil2)
qed

lemma pipewriteE:
  assumes "pipe_inv pi" and "pipewrite killed src n i pi = (out, pi', w)"
  obtains bs where "write_result killed src n i pi bs (out, pi', w)"
  using pipewrite_result [OF assms(1), of killed src n i] unfolding assms(2) by blast

lemma write_return_inv:
  assumes inv: "pipe_sys_inv x" and "clients x p = Writing src n i False"
    and run: "pipewrite (pkilled x p) src n i (ring x) = (Return r, pi', w)"
  shows "pipe_sys_inv (x\<lparr>ring := pi', clients := (\<lambda>q. if q = p then Idle else wake w (clients x q)),
      sent := sent x @ wrote_bytes src i (Return r) (ring x) pi',
      aborted := (if r = -1 \<and> ring_used pi' \<noteq> ring_used (ring x) then [p] else []) @ aborted x\<rparr>)"
proof -
  note D = pipe_sys_invD [OF inv]
  obtain bs where res: "write_result (pkilled x p) src n i (ring x) bs (Return r, pi', w)"
    using pipewriteE [OF D(1) run] .
  note wr = write_result_wrote [OF res]
  have pi': "pipe_inv pi'" "readopen pi' = readopen (ring x)" "writeopen pi' = writeopen (ring x)"
    "contents pi' = contents (ring x) @ bs"
    "w = [Nread] \<and> r \<noteq> -1 \<or> w = [] \<and> r = -1 \<and> (\<not> readopen (ring x) \<or> pkilled x p)"
    using res by (auto simp: write_result_def)
  show ?thesis
  proof (rule pipe_sys_invI, simp_all del: length_contents split: if_splits, goal_cases)
    case 1
    then show ?case by (rule pi')
  next
    case 2
    then show ?case using carries_append [OF D(2), of bs "map Some bs"] by (simp add: wr(1) pi'(4))
  next
    case (3 q src n i)
    then show ?case using D(3) [of q] write_result_full [OF res] pi'(2) by (auto simp del: length_contents)
  next
    case (4 q pt addr n)
    then show ?case using D(4) [of q] pi' wr(2) by auto
  next
    case (5 q)
    then show ?case using D(5) [of q] pi' by (auto split: if_splits)
  qed
qed

lemma write_sleep_inv:
  assumes inv: "pipe_sys_inv x" and "clients x p = Writing src n i False"
    and run: "pipewrite (pkilled x p) src n i (ring x) = (Sleep j, pi', w)"
  shows "pipe_sys_inv (x\<lparr>ring := pi',
      clients := (\<lambda>q. if q = p then Writing src n j True else wake w (clients x q)),
      sent := sent x @ wrote_bytes src i (Sleep j) (ring x) pi', pkilled := (pkilled x)(p := pkilled x p \<or> k)\<rparr>)"
proof -
  note D = pipe_sys_invD [OF inv]
  obtain bs where res: "write_result (pkilled x p) src n i (ring x) bs (Sleep j, pi', w)"
    using pipewriteE [OF D(1) run] .
  have pi': "pipe_inv pi'" "readopen pi'" "readopen (ring x)" "w = [Nread]"
    "length (contents pi') = 512" "contents pi' = contents (ring x) @ bs"
    using res pipe_full [of pi'] by (auto simp: write_result_def full_def simp del: length_contents)
  have "carries (sent x @ bs) (got x @ map Some (contents pi'))"
    using carries_append [OF D(2), of bs "map Some bs"] by (simp add: pi'(6))
  then show ?thesis
    by (intro pipe_sys_invI)
      (use pi'(1-5) D(3,5) write_result_wrote(1) [OF res] in \<open>auto simp del: length_contents split: if_splits\<close>)
qed

text \<open>The bytes a \<open>piperead\<close> took are those its caller finds in its buffer.\<close>

lemma read_result_delivers:
  assumes "user_ok (pmem s) pt" and "pipe_inv pi"
    and "read_result pt addr n 0 (contents pi) op s m (m, pi', s')"
  shows "m \<le> n \<and> m \<le> length (contents pi) \<and> copyin_bytes pt addr m s' = (take m (contents pi), True)"
proof -
  have m: "m \<le> n" "m \<le> length (contents pi)" "copyout_bytes pt addr (take m (contents pi)) s = (0, s')"
    using assms(3) unfolding read_result_def by simp_all
  have "length (contents pi) \<le> 512" using assms(2) by (simp add: pipe_inv_def)
  then have "length (take m (contents pi)) < 2 ^ 64" by simp
  from copyout_bytes_spec [OF assms(1) m(3) this] m show ?thesis by (simp del: length_contents)
qed

lemma read_result_received:
  assumes "user_ok (pmem s) pt" and "pipe_inv pi"
    and res: "read_result pt addr n 0 (contents pi) op s m (m, pi', s')"
  shows "carries (contents pi) (received_bytes pt addr (int m) pi pi' s' @ map Some (contents pi'))"
proof -
  let ?q = "contents pi"
  note d = read_result_delivers [OF assms]
  have int: "int m \<noteq> -1" by simp
  have "contents pi' = drop m ?q \<or>
      contents pi' = drop (Suc m) ?q \<and> m < length ?q \<and> uaddr (pmem s') pt (addr + of_nat m) = None"
    using res by (auto simp: read_result_def)
  then show ?thesis
  proof
    assume c: "contents pi' = drop m ?q"
    then have "received_bytes pt addr (int m) pi pi' s' = map Some (take m ?q)"
      using d int by (simp add: received_bytes_def ring_used_contents del: length_contents)
    then show ?thesis unfolding c by (simp add: map_append [symmetric] del: map_append)
  next
    assume c: "contents pi' = drop (Suc m) ?q \<and> m < length ?q \<and> uaddr (pmem s') pt (addr + of_nat m) = None"
    then have r: "received_bytes pt addr (int m) pi pi' s' = map Some (take m ?q) @ [None]"
      using d int by (auto simp: received_bytes_def ring_used_contents simp del: length_contents)
    have "carries (take m ?q @ [?q ! m] @ drop (Suc m) ?q) (map Some (take m ?q) @ [None] @ map Some (drop (Suc m) ?q))"
      by (intro carries_append) (simp_all, simp add: carries_def)
    moreover have "?q = take m ?q @ [?q ! m] @ drop (Suc m) ?q" using c by (simp add: id_take_nth_drop del: length_contents)
    ultimately show ?thesis using c r by simp
  qed
qed

lemma read_return_inv:
  assumes inv: "pipe_sys_inv x" and "clients x p = Reading pt addr n False" and ok: "user_ok (pmem m) pt"
    and run: "piperead (pkilled x p) pt addr n (ring x) m = (Return r, pi', m', w)"
  shows "pipe_sys_inv (x\<lparr>ring := pi', clients := (\<lambda>q. if q = p then Idle else wake w (clients x q)),
      got := got x @ received_bytes pt addr r (ring x) pi' m'\<rparr>)"
proof -
  note D = pipe_sys_invD [OF inv]
  from piperead_result [OF D(1) run] show ?thesis
  proof (elim disjE exE conjE)
    assume pi': "pi' = ring x" and "w = []" and "Return r = (if pkilled x p then Return (-1) else Sleep 0)"
    moreover from this have "r = -1" by (simp split: if_splits)
    ultimately show ?thesis
      by (intro pipe_sys_invI) (use D in \<open>auto simp: received_bytes_def simp del: length_contents split: if_splits\<close>)
  next
    fix k
    assume r: "Return r = Return (int k)" and w: "w = [Nwrite]" and ne: "\<not> (contents (ring x) = [] \<and> writeopen (ring x))"
      and res: "read_result pt addr n 0 (contents (ring x)) (readopen (ring x), writeopen (ring x)) m k (k, pi', m')"
    then have pi': "pipe_inv pi'" "readopen pi' = readopen (ring x)" "writeopen pi' = writeopen (ring x)"
      and r: "r = int k" by (simp_all add: read_result_def)
    have "carries (sent x) (got x @ received_bytes pt addr r (ring x) pi' m' @ map Some (contents pi'))"
      using carries_trans [OF D(2) read_result_received [OF ok D(1) res]] r by simp
    then show ?thesis
      by (intro pipe_sys_invI) (use D(4,5) w ne pi' in \<open>auto simp del: length_contents split: if_splits\<close>)
  qed
qed

lemma read_sleep_inv:
  assumes inv: "pipe_sys_inv x" and "clients x p = Reading pt addr n False"
    and run: "piperead (pkilled x p) pt addr n (ring x) m = (Sleep j, pi', m', w)"
  shows "pipe_sys_inv (x\<lparr>ring := pi', clients := (\<lambda>q. if q = p then Reading pt addr n True else wake w (clients x q)),
      pkilled := (pkilled x)(p := pkilled x p \<or> k)\<rparr>)"
proof -
  note D = pipe_sys_invD [OF inv]
  have "pi' = ring x" "w = []" "contents (ring x) = []" "writeopen (ring x)"
    using piperead_result [OF D(1) run] by (auto split: if_splits)
  then show ?thesis
    by (intro pipe_sys_invI) (use D in \<open>auto simp del: length_contents split: if_splits\<close>)
qed

lemma contents_openness [simp]:
  "contents (pi\<lparr>readopen := b\<rparr>) = contents pi" "contents (pi\<lparr>writeopen := b\<rparr>) = contents pi"
  by (simp_all add: contents_def)

lemma close_inv:
  assumes inv: "pipe_sys_inv x" and close: "pipeclose writable (ring x) = (pi', w, freed)"
  shows "pipe_sys_inv (x\<lparr>ring := pi', clients := (\<lambda>q. wake [w] (clients x q))\<rparr>)"
proof -
  note D = pipe_sys_invD [OF inv]
  have "pi' = (ring x)\<lparr>writeopen := False\<rparr> \<and> w = Nread \<or> pi' = (ring x)\<lparr>readopen := False\<rparr> \<and> w = Nwrite"
    using close by (auto simp: pipeclose_def split: if_splits)
  then show ?thesis
    by (intro pipe_sys_invI; elim disjE conjE)
      (use D in \<open>auto simp: pipe_inv_def simp del: length_contents\<close>)
qed

lemma kill_inv:
  assumes inv: "pipe_sys_inv x"
  shows "pipe_sys_inv (x\<lparr>pkilled := (pkilled x)(p := True),
      clients := (clients x)(p := wake [Nread, Nwrite] (clients x p))\<rparr>)"
  by (rule pipe_sys_invI) (use pipe_sys_invD [OF inv] in \<open>auto simp del: length_contents split: if_splits\<close>)

lemma call_inv:
  "pipe_sys_inv x \<Longrightarrow> pipe_sys_inv (x\<lparr>clients := (clients x)(p := Writing src n i False)\<rparr>)"
  "pipe_sys_inv x \<Longrightarrow> pipe_sys_inv (x\<lparr>clients := (clients x)(p := Reading pt addr n False)\<rparr>)"
  by (auto simp: pipe_sys_inv_def)

lemmas pipe_inv_steps = call_inv write_return_inv write_sleep_inv read_return_inv read_sleep_inv
  close_inv kill_inv

lemma pipe_step_inv: "pipe_sys_inv x \<Longrightarrow> pipe_step x y \<Longrightarrow> pipe_sys_inv y"
  by (erule pipe_step.cases) (auto simp only: intro: pipe_inv_steps)

lemma pipe_reach_inv: "pipe_reach x \<Longrightarrow> pipe_sys_inv x"
proof (induction rule: pipe_reach.induct)
  case (start junk x)
  then show ?case by (simp add: pipe_sys_inv_def pipe_inv_def pipe_init_def contents_def carries_def)
qed (rule pipe_step_inv)

section \<open>Concrete runs\<close>

definition ex_junk :: "byte list" where
  "ex_junk = replicate 512 0"

lemma length_ex_junk [simp]: "length ex_junk = 512"
  by (simp add: ex_junk_def)

definition ex_psys :: psys where
  "ex_psys = \<lparr>ring = pipe_init ex_junk, clients = (\<lambda>_. Idle), pkilled = (\<lambda>_. False), sent = [], got = [], aborted = []\<rparr>"

lemma ex_psys_reach: "pipe_reach ex_psys"
  by (rule pipe_reach.start [of ex_junk]) (simp_all add: ex_psys_def)

lemma pipe_init_facts: "contents (pipe_init junk) = []" "length junk = 512 \<Longrightarrow> pipe_inv (pipe_init junk)"
  by (simp_all add: contents_def pipe_init_def pipe_inv_def)

definition ex_pipe :: pipe where
  "ex_pipe = put 65 (pipe_init ex_junk)"

lemma ex_pipe_facts: "contents ex_pipe = [65]" "pipe_inv ex_pipe"
proof -
  have "nwrite (pipe_init ex_junk) \<noteq> nread (pipe_init ex_junk) + 512" by (simp add: pipe_init_def)
  then show "contents ex_pipe = [65]" "pipe_inv ex_pipe"
    using put_contents [OF pipe_init_facts(2), of ex_junk 65] by (simp_all add: pipe_init_facts(1) ex_pipe_def)
qed

lemma ex_write_one:
  obtains x where "pipe_reach x" and "sent x = [65]" and "got x = []" and "ring x = ex_pipe" and "clients x 2 = Idle" and "\<not> pkilled x 2"
proof -
  let ?x = "ex_psys\<lparr>clients := (clients ex_psys)(1 := Writing (\<lambda>_. Some 65) 1 0 False)\<rparr>"
  have x: "pipe_reach ?x"
    by (rule pipe_reach.step [OF ex_psys_reach], rule pipe_step.write_call) (simp add: ex_psys_def)
  have run: "pipewrite (pkilled ?x 1) (\<lambda>_. Some 65) 1 0 (ring ?x) = (Return 1, ex_pipe, [Nread])"
    by (simp add: pipewrite.simps [of _ _ _ 0] pipewrite.simps [of _ _ _ "Suc 0"] ex_psys_def pipe_init_def ex_pipe_def)
  have "clients ?x 1 = Writing (\<lambda>_. Some 65) 1 0 False" by simp
  from pipe_reach.step [OF x pipe_step.write_return [OF this run]] show ?thesis
    by (rule that) (simp_all add: wrote_bytes_def ex_psys_def)
qed

text \<open>A reader with one mapped page finds the byte in its buffer.\<close>

lemma ex_read_one:
  obtains s :: kmem and pi' s' w where "user_ok (pmem s) 0x80002000"
    and "piperead False 0x80002000 10 5 ex_pipe s = (Return (int 1), pi', s', w)"
proof -
  obtain s :: kmem where s: "user_ok (pmem s) 0x80002000"
    "\<And>va. uaddr (pmem s) 0x80002000 va = (if va < 4096 then Some (0x80005000 + va) else None)"
    using ex_user by blast
  obtain out pi' s' w where run: "piperead False 0x80002000 10 5 ex_pipe s = (out, pi', s', w)"
    by (rule prod_cases4)
  obtain m where m: "out = Return (int m)"
    "read_result 0x80002000 10 5 0 [65] (readopen ex_pipe, writeopen ex_pipe) s m (m, pi', s')"
    using piperead_result [OF ex_pipe_facts(2) run] ex_pipe_facts(1) by auto
  have "m \<noteq> 0" using m(2) s(2) [of 10] by (auto simp: read_result_def)
  moreover have "m \<le> 1" using m(2) by (simp add: read_result_def)
  ultimately have "m = 1" by simp
  with that [OF s(1)] run m(1) show ?thesis by blast
qed

lemma ex_write_read:
  obtains x where "pipe_reach x" and "sent x = [65]" and "got x = [Some 65]"
proof -
  obtain x where x: "pipe_reach x" "sent x = [65]" "got x = []" "ring x = ex_pipe" "clients x 2 = Idle" "\<not> pkilled x 2"
    by (rule ex_write_one)
  obtain s :: kmem and pi' s' w where s: "user_ok (pmem s) 0x80002000"
    "piperead False 0x80002000 10 5 ex_pipe s = (Return (int 1), pi', s', w)" by (rule ex_read_one)
  let ?y = "x\<lparr>clients := (clients x)(2 := Reading 0x80002000 10 5 False)\<rparr>"
  have y: "pipe_reach ?y" by (rule pipe_reach.step [OF x(1)], rule pipe_step.read_call [OF x(5)])
  have "piperead (pkilled ?y 2) 0x80002000 10 5 (ring ?y) s = (Return (int 1), pi', s', w)" using s x by simp
  then have z: "pipe_reach (?y\<lparr>ring := pi', clients := (\<lambda>q. if q = 2 then Idle else wake w (clients ?y q)),
      got := got ?y @ received_bytes 0x80002000 10 (int 1) (ring ?y) pi' s'\<rparr>)"
    by (intro pipe_reach.step [OF y] pipe_step.read_return [OF _ s(1)]) simp_all
  have "received_bytes 0x80002000 10 (int 1) ex_pipe pi' s' = [Some 65]"
  proof -
    obtain m where m: "Return (int 1) = Return (int m)"
      "read_result 0x80002000 10 5 0 [65] (readopen ex_pipe, writeopen ex_pipe) s m (m, pi', s')"
      using piperead_result [OF ex_pipe_facts(2) s(2)] ex_pipe_facts(1) by auto
    then have "copyin_bytes 0x80002000 10 1 s' = ([65], True)"
      using read_result_delivers [OF s(1) ex_pipe_facts(2), of 10 5 _ 1 pi' s'] ex_pipe_facts(1) by simp
    then show ?thesis by (simp add: received_bytes_def ring_used_contents ex_pipe_facts(1) del: length_contents)
  qed
  with that [OF z] x show ?thesis by simp
qed

lemma ex_reader_asleep:
  obtains x where "pipe_reach x" and "clients x 0 = Reading 0 0 8 True" and "aborted x = []"
    and "ring x = pipe_init ex_junk" and "clients x 1 = Idle"
proof -
  let ?x = "ex_psys\<lparr>clients := (clients ex_psys)(0 := Reading 0 0 8 False)\<rparr>" and ?m = "undefined :: kmem"
  have x: "pipe_reach ?x"
    by (rule pipe_reach.step [OF ex_psys_reach], rule pipe_step.read_call) (simp add: ex_psys_def)
  have "piperead (pkilled ?x 0) 0 0 8 (ring ?x) ?m = (Sleep 0, ring ?x, ?m, [])"
    by (simp add: piperead_def ex_psys_def pipe_init_def)
  from pipe_step.read_sleep [OF _ this] show ?thesis
    using that [OF pipe_reach.step [OF x]] by (fastforce simp: ex_psys_def)
qed

text \<open>A killed writer fills the pipe and returns \<open>-1\<close> without a wakeup.\<close>

lemma killed_write:
  assumes "length junk = 512"
  obtains pi' where "pipewrite True (\<lambda>_. Some b) 513 0 (pipe_init junk) = (Return (-1), pi', [])"
    and "length (contents pi') = 512" and "readopen pi'" and "writeopen pi'"
proof -
  obtain out pi' w where run: "pipewrite True (\<lambda>_. Some b) 513 0 (pipe_init junk) = (out, pi', w)"
    by (metis prod_cases3)
  obtain bs where res: "write_result True (\<lambda>_. Some b) 513 0 (pipe_init junk) bs (out, pi', w)"
    using pipewriteE [OF pipe_init_facts(2) [OF assms] run] .
  then have c: "contents pi' = bs" and inv: "pipe_inv pi'" and op: "readopen pi' = readopen (pipe_init junk)"
    "writeopen pi' = writeopen (pipe_init junk)" by (simp_all add: write_result_def pipe_init_facts(1))
  have o: "readopen pi'" "writeopen pi'" unfolding op by (simp_all add: pipe_init_def)
  have "length (contents pi') \<le> 512" using inv by (simp add: pipe_inv_def)
  then have le: "length bs \<le> 512" by (simp only: c)
  have "out = Return (-1) \<and> w = [] \<and> full pi'"
    using res le by (auto simp: write_result_def split: outcome.splits)
  then show ?thesis using that run c o pipe_full [of pi'] by (auto simp: full_def simp del: length_contents)
qed

section \<open>Properties\<close>

text \<open>Property C9. With any number of concurrent readers and writers, the pipe carries the bytes of
  the writers' sources to the readers' buffers in order: the bytes the readers found in their
  buffers, followed by those still in the ring, are the bytes the writers sent, except that a byte
  whose copy to an unmapped address failed is lost. Nothing is duplicated, changed or reordered,
  also when the 32-bit counters wrap around.\<close>

theorem pipe_fifo:
  assumes "pipe_reach x"
  shows "carries (sent x) (got x @ map Some (contents (ring x))) \<and>
    (None \<notin> set (got x) \<longrightarrow> map Some (sent x) = got x @ map Some (contents (ring x))) \<and>
    length (contents (ring x)) \<le> 512"
  using pipe_sys_invD(1,2) [OF pipe_reach_inv [OF assms]]
    carries_lossless [of "sent x" "got x @ map Some (contents (ring x))"]
  by (auto simp: pipe_inv_def)

theorem pipe_fifo_witness:
  "\<exists>x. pipe_reach x \<and> sent x = [65] \<and> got x = [Some 65] \<and> contents (ring x) = []"
proof -
  obtain x where "pipe_reach x" "sent x = [65]" "got x = [Some 65]" by (rule ex_write_read)
  with pipe_fifo [of x] show ?thesis by auto
qed

text \<open>Property C20. No process sleeps in a pipe call when it could go on: while a writer sleeps, the
  pipe is full and its read end open; while a reader sleeps, the write end is open and the pipe
  is empty, unless some \<open>pipewrite\<close> that had put bytes into the ring returned \<open>-1\<close>, and the process
  that called it was killed or the read end is closed.\<close>

theorem pipe_no_lost_wakeup:
  assumes "pipe_reach x"
  shows "(\<forall>p src n i. clients x p = Writing src n i True \<longrightarrow> length (contents (ring x)) = 512 \<and> readopen (ring x)) \<and>
    (\<forall>p pt addr n. clients x p = Reading pt addr n True \<longrightarrow> writeopen (ring x) \<and>
      (contents (ring x) = [] \<or> (\<exists>q\<in>set (aborted x). pkilled x q \<or> \<not> readopen (ring x))))"
proof -
  note D = pipe_sys_invD [OF pipe_reach_inv [OF assms]]
  have "\<exists>q\<in>set (aborted x). pkilled x q \<or> \<not> readopen (ring x)" if "aborted x \<noteq> []"
    using that D(5) hd_in_set by blast
  then show ?thesis using D(3,4) by blast
qed

theorem pipe_no_lost_wakeup_witness:
  "\<exists>x. pipe_reach x \<and> clients x 0 = Reading 0 0 8 True \<and> contents (ring x) = [] \<and> writeopen (ring x)"
proof -
  obtain x where "pipe_reach x" "clients x 0 = Reading 0 0 8 True" "aborted x = []"
    by (rule ex_reader_asleep)
  with pipe_no_lost_wakeup [of x] show ?thesis by auto
qed

text \<open>Property C29. The exception is real: from a reachable state in which process 0 sleeps in
  \<open>piperead\<close> on an empty pipe with both ends open, the killed process 1 writes 512 bytes, its
  \<open>pipewrite\<close> returns \<open>-1\<close> and wakes up no channel, and process 0 still sleeps, now in front of a
  full pipe with both ends open.\<close>

theorem pipe_killed_writer_strands_reader:
  "\<exists>x y. pipe_reach x \<and> clients x 0 = Reading 0 0 8 True \<and> contents (ring x) = [] \<and>
     pkilled x 1 \<and> clients x 1 = Writing (\<lambda>_. Some 65) 513 0 False \<and>
     pipewrite (pkilled x 1) (\<lambda>_. Some 65) 513 0 (ring x) = (Return (-1), ring y, []) \<and> pipe_step x y \<and>
     clients y 1 = Idle \<and> clients y 0 = Reading 0 0 8 True \<and> length (contents (ring y)) = 512 \<and>
     readopen (ring y) \<and> writeopen (ring y)"
proof -
  let ?src = "\<lambda>_. Some 65"
  obtain x where x: "pipe_reach x" "clients x 0 = Reading 0 0 8 True" "ring x = pipe_init ex_junk" "clients x 1 = Idle"
    by (rule ex_reader_asleep)
  let ?x1 = "x\<lparr>clients := (clients x)(1 := Writing ?src 513 0 False)\<rparr>"
  let ?x2 = "?x1\<lparr>pkilled := (pkilled ?x1)(1 := True),
    clients := (clients ?x1)(1 := wake [Nread, Nwrite] (clients ?x1 1))\<rparr>"
  have x2: "pipe_reach ?x2"
    by (rule pipe_reach.step [OF pipe_reach.step [OF x(1) pipe_step.write_call [OF x(4)]] pipe_step.kill])
  obtain pi' where run: "pipewrite True ?src 513 0 (pipe_init ex_junk) = (Return (-1), pi', [])"
    "length (contents pi') = 512" "readopen pi'" "writeopen pi'" using killed_write [of ex_junk 65] by auto
  have r2: "pipewrite (pkilled ?x2 1) ?src 513 0 (ring ?x2) = (Return (-1), pi', [])" using run x(3) by simp
  have c1: "clients ?x2 1 = Writing ?src 513 0 False" by simp
  from pipe_step.write_return [OF c1 r2]
  obtain y where y: "pipe_step ?x2 y" "ring y = pi'" "clients y = (\<lambda>q. if q = 1 then Idle else wake [] (clients ?x2 q))"
    by fastforce
  show ?thesis
    by (rule exI [of _ ?x2], rule exI [of _ y])
      (use x2 x r2 y run in \<open>auto simp: pipe_init_facts(1) simp del: length_contents\<close>)
qed

text \<open>Property C28. A \<open>piperead\<close> that returns a count delivers exactly that many bytes, the
  oldest of the pipe, to the user's buffer, at most as many as asked for.\<close>

theorem piperead_delivers:
  assumes "user_ok (pmem s) pt" and "pipe_inv pi"
    and "piperead killed pt addr n pi s = (Return (int m), pi', s', w)"
  shows "m \<le> n \<and> m \<le> length (contents pi) \<and> copyin_bytes pt addr m s' = (take m (contents pi), True)"
proof -
  have "int k \<noteq> -1" for k by simp
  then have "read_result pt addr n 0 (contents pi) (readopen pi, writeopen pi) s m (m, pi', s')"
    using piperead_result [OF assms(2,3)] by (auto split: if_splits)
  from read_result_delivers [OF assms(1,2) this] show ?thesis .
qed

theorem piperead_delivers_witness:
  "\<exists>(s :: kmem) pi' s' w. piperead False 0x80002000 10 5 ex_pipe s = (Return 1, pi', s', w) \<and>
     copyin_bytes 0x80002000 10 1 s' = ([65], True)"
proof -
  obtain s :: kmem and pi' s' w where s: "user_ok (pmem s) 0x80002000"
    "piperead False 0x80002000 10 5 ex_pipe s = (Return (int 1), pi', s', w)" by (rule ex_read_one)
  have "copyin_bytes 0x80002000 10 1 s' = ([65], True)"
    using piperead_delivers [OF s(1) ex_pipe_facts(2) s(2)] ex_pipe_facts(1) by simp
  moreover have "piperead False 0x80002000 10 5 ex_pipe s = (Return 1, pi', s', w)" using s(2) by (simp only: of_nat_1)
  ultimately show ?thesis by blast
qed

end
