(* ===== verification/Sleeplock.thy ===== *)
theory Sleeplock
  imports Prelude
begin

text \<open>
  \<open>kernel/sleeplock.c\<close>. Each function runs under the spin lock \<open>lk->lk\<close>, so it is one
  step on the lock's record; \<open>acquiresleep\<close> on a held lock sleeps, which is the value
  \<open>None\<close>, and is run again after a wakeup. \<open>sl_step\<close> interleaves any number of
  processes that take and give back one lock; at most one holds it and none sleeps on a free
  lock.
\<close>

section \<open>Definitions\<close>

record sleeplock =
  sl_locked :: bool
  sl_pid :: int

definition initsleeplock :: sleeplock where
  "initsleeplock = \<lparr>sl_locked = False, sl_pid = 0\<rparr>"

definition acquiresleep :: "int \<Rightarrow> sleeplock \<Rightarrow> sleeplock option" where
  "acquiresleep pid lk = (if sl_locked lk then None else Some (lk\<lparr>sl_locked := True, sl_pid := pid\<rparr>))"

text \<open>\<open>releasesleep\<close> ends with \<open>wakeup(lk)\<close>, see \<open>sl_step\<close>.\<close>

definition releasesleep :: "sleeplock \<Rightarrow> sleeplock" where
  "releasesleep lk = lk\<lparr>sl_locked := False, sl_pid := 0\<rparr>"

definition holdingsleep :: "int \<Rightarrow> sleeplock \<Rightarrow> bool" where
  "holdingsleep pid lk \<longleftrightarrow> sl_locked lk \<and> sl_pid lk = pid"

lemma acquiresleep_simps [simp]:
  "acquiresleep pid lk = None \<longleftrightarrow> sl_locked lk"
  "acquiresleep pid lk = Some lk' \<longleftrightarrow> \<not> sl_locked lk \<and> lk' = lk\<lparr>sl_locked := True, sl_pid := pid\<rparr>"
  by (auto simp: acquiresleep_def)

lemma releasesleep_simps [simp]: "sl_locked (releasesleep lk) = False"
  by (simp add: releasesleep_def)

section \<open>Processes around a sleep lock\<close>

datatype sl_state = Away | Trying | Asleep | Holding

record sl_sys =
  the_lock :: sleeplock
  procs :: "int \<Rightarrow> sl_state"

inductive sl_step :: "sl_sys \<Rightarrow> sl_sys \<Rightarrow> bool" where
  call: "procs x p = Away \<Longrightarrow> sl_step x (x\<lparr>procs := (procs x)(p := Trying)\<rparr>)"
| wait: "procs x p = Trying \<Longrightarrow> acquiresleep p (the_lock x) = None \<Longrightarrow>
    sl_step x (x\<lparr>procs := (procs x)(p := Asleep)\<rparr>)"
| take: "procs x p = Trying \<Longrightarrow> acquiresleep p (the_lock x) = Some lk \<Longrightarrow>
    sl_step x (x\<lparr>the_lock := lk, procs := (procs x)(p := Holding)\<rparr>)"
| give: "procs x p = Holding \<Longrightarrow>
    sl_step x (x\<lparr>the_lock := releasesleep (the_lock x),
      procs := (\<lambda>q. if q = p then Away else if procs x q = Asleep then Trying else procs x q)\<rparr>)"

inductive sl_reach :: "sl_sys \<Rightarrow> bool" where
  start: "the_lock x = initsleeplock \<Longrightarrow> (\<And>p. procs x p = Away) \<Longrightarrow> sl_reach x"
| step: "sl_reach x \<Longrightarrow> sl_step x y \<Longrightarrow> sl_reach y"

definition sl_inv :: "sl_sys \<Rightarrow> bool" where
  "sl_inv x \<longleftrightarrow>
     (\<forall>p. procs x p = Holding \<longleftrightarrow> holdingsleep p (the_lock x)) \<and>
     (\<forall>p. procs x p = Asleep \<longrightarrow> sl_locked (the_lock x))"

lemma sl_inv_step: "sl_inv x \<Longrightarrow> sl_step x y \<Longrightarrow> sl_inv y"
  by (erule sl_step.cases;
      auto simp: sl_inv_def holdingsleep_def releasesleep_def split: if_splits; metis sl_state.distinct)

lemma sl_reach_inv: "sl_reach x \<Longrightarrow> sl_inv x"
proof (induction rule: sl_reach.induct)
  case (start x)
  then show ?case by (simp add: sl_inv_def initsleeplock_def holdingsleep_def)
qed (rule sl_inv_step)

section \<open>Properties\<close>

text \<open>Property C33. At most one process holds a sleep lock, it is the one \<open>holdingsleep\<close>
  recognises, and a process sleeps in \<open>acquiresleep\<close> only while the lock is held, so no
  wakeup is lost.\<close>

theorem sleeplock_exclusive:
  assumes "sl_reach x"
  shows "(\<forall>p q. procs x p = Holding \<longrightarrow> procs x q = Holding \<longrightarrow> p = q) \<and>
    (\<forall>p. procs x p = Holding \<longleftrightarrow> holdingsleep p (the_lock x)) \<and>
    (\<forall>p. procs x p = Asleep \<longrightarrow> (\<exists>q. procs x q = Holding))"
  using sl_reach_inv [OF assms] unfolding sl_inv_def holdingsleep_def by metis

theorem sleeplock_exclusive_witness:
  "\<exists>x. sl_reach x \<and> procs x 3 = Holding \<and> holdingsleep 3 (the_lock x)"
proof -
  let ?x0 = "\<lparr>the_lock = initsleeplock, procs = (\<lambda>_. Away)\<rparr>"
  have r0: "sl_reach ?x0" by (rule sl_reach.start) simp_all
  have r1: "sl_reach (?x0\<lparr>procs := (procs ?x0)(3 := Trying)\<rparr>)"
    by (rule sl_reach.step [OF r0], rule sl_step.call) simp
  have "acquiresleep 3 initsleeplock = Some (initsleeplock\<lparr>sl_locked := True, sl_pid := 3\<rparr>)"
    by (simp add: initsleeplock_def)
  then obtain x where x: "sl_reach x" "procs x 3 = Holding"
    using sl_reach.step [OF r1 sl_step.take [of _ 3]] by fastforce
  with sleeplock_exclusive [OF x(1)] show ?thesis by blast
qed

end
