(* ===== verification/Bio.thy ===== *)
theory Bio
  imports Vm Sleeplock
begin

text \<open>
  \<open>kernel/bio.c\<close>, the buffer cache. The 30 buffers and the list head are records indexed by
  number, linked through \<open>prev\<close> and \<open>next\<close> as in the code; the head has number 30.
  Each function runs under \<open>bcache.lock\<close> up to the acquisition of the buffer's sleep lock;
  \<open>acquiresleep\<close> on a buffer that is held ends the run with \<open>Sleeps\<close>.

  The disk is a map from block numbers to blocks of 1024 bytes; \<open>virtio_disk_rw\<close> copies one
  block and its writes are recorded in \<open>dwrites\<close>, oldest first, so that a crash between
  two of them can be expressed (theory \<open>Log\<close>). \<open>mypid\<close> and \<open>mypagetable\<close> are
  the fields of \<open>myproc()\<close> the file system uses.
\<close>

section \<open>Definitions\<close>

abbreviation (input) NBUF :: nat where "NBUF \<equiv> 30"
abbreviation (input) BSIZE :: nat where "BSIZE \<equiv> 1024"

type_synonym block = "byte list"

record buf =
  valid :: bool
  dev :: u32
  blockno :: u32
  blk :: sleeplock
  refcnt :: u32
  prev :: nat
  nxt :: nat
  data :: block

record bio = vm +
  mypid :: int
  mypagetable :: u64
  bufs :: "nat \<Rightarrow> buf"
  disk :: "u32 \<Rightarrow> block"
  dwrites :: "(u32 \<times> block) list"

abbreviation (input) HEAD :: nat where "HEAD \<equiv> NBUF"

definition upd_buf :: "nat \<Rightarrow> (buf \<Rightarrow> buf) \<Rightarrow> 'z bio_scheme \<Rightarrow> 'z bio_scheme" where
  "upd_buf b f s = s\<lparr>bufs := (bufs s)(b := f (bufs s b))\<rparr>"

text \<open>Inserting a buffer after the head of the list, at the front.\<close>

definition link_front :: "nat \<Rightarrow> (nat \<Rightarrow> buf) \<Rightarrow> nat \<Rightarrow> buf" where
  "link_front b bs =
     (let bs1 = bs(b := (bs b)\<lparr>nxt := nxt (bs HEAD)\<rparr>);
          bs2 = bs1(b := (bs1 b)\<lparr>prev := HEAD\<rparr>);
          bs3 = bs2(nxt (bs2 HEAD) := (bs2 (nxt (bs2 HEAD)))\<lparr>prev := b\<rparr>)
      in bs3(HEAD := (bs3 HEAD)\<lparr>nxt := b\<rparr>))"

definition unlink :: "nat \<Rightarrow> (nat \<Rightarrow> buf) \<Rightarrow> nat \<Rightarrow> buf" where
  "unlink b bs =
     (let bs1 = bs(nxt (bs b) := (bs (nxt (bs b)))\<lparr>prev := prev (bs b)\<rparr>)
      in bs1(prev (bs1 b) := (bs1 (prev (bs1 b)))\<lparr>nxt := nxt (bs1 b)\<rparr>))"

primrec binit_loop :: "nat \<Rightarrow> (nat \<Rightarrow> buf) \<Rightarrow> nat \<Rightarrow> buf" where
  "binit_loop 0 bs = bs"
| "binit_loop (Suc b) bs =
     (let bs1 = binit_loop b bs
      in link_front b (bs1(b := (bs1 b)\<lparr>blk := initsleeplock\<rparr>)))"

definition binit :: "'z bio_scheme \<Rightarrow> 'z bio_scheme" where
  "binit s =
     s\<lparr>bufs := binit_loop NBUF ((bufs s)(HEAD := (bufs s HEAD)\<lparr>prev := HEAD, nxt := HEAD\<rparr>))\<rparr>"

text \<open>The two searches of \<open>bget\<close>. The list has at most \<open>NBUF\<close> elements, so
  \<open>NBUF + 1\<close> rounds reach its end; a cyclic list that misses the head gives
  \<open>Diverges\<close>.\<close>

fun find_cached :: "nat \<Rightarrow> (nat \<Rightarrow> buf) \<Rightarrow> u32 \<Rightarrow> u32 \<Rightarrow> nat \<Rightarrow> nat option res" where
  "find_cached 0 bs d bn b = Inl Diverges"
| "find_cached (Suc k) bs d bn b =
     (if b = HEAD then Inr None
      else if dev (bs b) = d \<and> blockno (bs b) = bn then Inr (Some b)
      else find_cached k bs d bn (nxt (bs b)))"

fun find_unused :: "nat \<Rightarrow> (nat \<Rightarrow> buf) \<Rightarrow> nat \<Rightarrow> nat option res" where
  "find_unused 0 bs b = Inl Diverges"
| "find_unused (Suc k) bs b =
     (if b = HEAD then Inr None
      else if refcnt (bs b) = 0 then Inr (Some b)
      else find_unused k bs (prev (bs b)))"

definition lock_buf :: "nat \<Rightarrow> 'z bio_scheme \<Rightarrow> 'z bio_scheme res" where
  "lock_buf b s =
     (case acquiresleep (mypid s) (blk (bufs s b)) of
        None \<Rightarrow> Inl (Sleeps ''buffer'')
      | Some lk \<Rightarrow> Inr (upd_buf b (blk_update (\<lambda>_. lk)) s))"

definition bget :: "u32 \<Rightarrow> u32 \<Rightarrow> 'z bio_scheme \<Rightarrow> (nat \<times> 'z bio_scheme) res" where
  "bget d bn s =
     bindR (find_cached (NBUF + 1) (bufs s) d bn (nxt (bufs s HEAD))) (\<lambda>r. case r of
       Some b \<Rightarrow>
         bindR (lock_buf b (upd_buf b (\<lambda>x. x\<lparr>refcnt := refcnt x + 1\<rparr>) s)) (\<lambda>s1. Inr (b, s1))
     | None \<Rightarrow>
         bindR (find_unused (NBUF + 1) (bufs s) (prev (bufs s HEAD))) (\<lambda>r. case r of
           Some b \<Rightarrow>
             bindR (lock_buf b (upd_buf b (\<lambda>x. x\<lparr>dev := d, blockno := bn, valid := False, refcnt := 1\<rparr>) s))
               (\<lambda>s1. Inr (b, s1))
         | None \<Rightarrow> Inl (Panic ''bget: no buffers'')))"

text \<open>The disk operation: a read fills the buffer, a write stores it.\<close>

definition virtio_disk_rw :: "nat \<Rightarrow> bool \<Rightarrow> 'z bio_scheme \<Rightarrow> 'z bio_scheme" where
  "virtio_disk_rw b write s =
     (let x = bufs s b
      in if write then s\<lparr>disk := (disk s)(blockno x := data x), dwrites := dwrites s @ [(blockno x, data x)]\<rparr>
         else upd_buf b (data_update (\<lambda>_. disk s (blockno x))) s)"

definition bread :: "u32 \<Rightarrow> u32 \<Rightarrow> 'z bio_scheme \<Rightarrow> (nat \<times> 'z bio_scheme) res" where
  "bread d bn s =
     bindR (bget d bn s) (\<lambda>(b, s1).
       if \<not> valid (bufs s1 b)
       then Inr (b, upd_buf b (valid_update (\<lambda>_. True)) (virtio_disk_rw b False s1))
       else Inr (b, s1))"

definition bwrite :: "nat \<Rightarrow> 'z bio_scheme \<Rightarrow> 'z bio_scheme res" where
  "bwrite b s =
     (if \<not> holdingsleep (mypid s) (blk (bufs s b)) then Inl (Panic ''bwrite'')
      else Inr (virtio_disk_rw b True s))"

definition brelse :: "nat \<Rightarrow> 'z bio_scheme \<Rightarrow> 'z bio_scheme res" where
  "brelse b s =
     (if \<not> holdingsleep (mypid s) (blk (bufs s b)) then Inl (Panic ''brelse'')
      else let s1 = upd_buf b (\<lambda>x. x\<lparr>blk := releasesleep (blk x)\<rparr>) s;
               s2 = upd_buf b (\<lambda>x. x\<lparr>refcnt := refcnt x - 1\<rparr>) s1
           in Inr (if refcnt (bufs s2 b) = 0
                   then s2\<lparr>bufs := link_front b (unlink b (bufs s2))\<rparr> else s2))"

definition bpin :: "nat \<Rightarrow> 'z bio_scheme \<Rightarrow> 'z bio_scheme" where
  "bpin b s = upd_buf b (\<lambda>x. x\<lparr>refcnt := refcnt x + 1\<rparr>) s"

definition bunpin :: "nat \<Rightarrow> 'z bio_scheme \<Rightarrow> 'z bio_scheme" where
  "bunpin b s = upd_buf b (\<lambda>x. x\<lparr>refcnt := refcnt x - 1\<rparr>) s"

section \<open>The list of buffers\<close>

text \<open>\<open>linked bs b xs c\<close>: from \<open>b\<close> the \<open>nxt\<close> links lead through \<open>xs\<close> to
  \<open>c\<close>, and the \<open>prev\<close> links lead back.\<close>

fun linked :: "(nat \<Rightarrow> buf) \<Rightarrow> nat \<Rightarrow> nat list \<Rightarrow> nat \<Rightarrow> bool" where
  "linked bs b [] c \<longleftrightarrow> nxt (bs b) = c \<and> prev (bs c) = b"
| "linked bs b (x # xs) c \<longleftrightarrow> nxt (bs b) = x \<and> prev (bs x) = b \<and> linked bs x xs c"

text \<open>The list in the order from most to least recently used.\<close>

definition lru_list :: "(nat \<Rightarrow> buf) \<Rightarrow> nat list \<Rightarrow> bool" where
  "lru_list bs xs \<longleftrightarrow> linked bs HEAD xs HEAD \<and> distinct xs \<and> set xs = {..<NBUF}"

lemma linked_append:
  "linked bs b (xs @ y # ys) c \<longleftrightarrow> linked bs b xs y \<and> linked bs y ys c"
  by (induction xs arbitrary: b) auto

lemma linked_cong:
  "(\<And>x. x \<in> insert b (set xs) \<Longrightarrow> nxt (bs' x) = nxt (bs x)) \<Longrightarrow>
   (\<And>x. x \<in> insert c (set xs) \<Longrightarrow> prev (bs' x) = prev (bs x)) \<Longrightarrow>
   linked bs b xs c \<Longrightarrow> linked bs' b xs c"
  by (induction xs arbitrary: b) auto

lemma link_fields [simp]:
  "valid (link_front b bs x) = valid (bs x)" "dev (link_front b bs x) = dev (bs x)"
  "blockno (link_front b bs x) = blockno (bs x)" "blk (link_front b bs x) = blk (bs x)"
  "refcnt (link_front b bs x) = refcnt (bs x)" "data (link_front b bs x) = data (bs x)"
  by (simp_all add: link_front_def Let_def)

lemma unlink_fields [simp]:
  "valid (unlink b bs x) = valid (bs x)" "dev (unlink b bs x) = dev (bs x)"
  "blockno (unlink b bs x) = blockno (bs x)" "blk (unlink b bs x) = blk (bs x)"
  "refcnt (unlink b bs x) = refcnt (bs x)" "data (unlink b bs x) = data (bs x)"
  by (simp_all add: unlink_def Let_def)

lemma linked_link_front:
  assumes "linked bs 30 xs 30" and "b \<notin> set xs" and "b \<noteq> 30" and "30 \<notin> set xs" and "distinct xs"
  shows "linked (link_front b bs) 30 (b # xs) 30"
proof (cases xs)
  case Nil
  then show ?thesis using assms by (simp add: link_front_def Let_def)
next
  case (Cons y ys)
  have n: "nxt (bs 30) = y" "prev (bs y) = 30" "linked bs y ys 30" using assms(1) Cons by simp_all
  have "linked (link_front b bs) y ys 30"
    using assms(2-5) Cons n(1) by (intro linked_cong [OF _ _ n(3)]) (auto simp: link_front_def Let_def)
  then show ?thesis using assms(2-5) Cons n by (auto simp: link_front_def Let_def)
qed

lemma linked_ends: "linked bs p xs c \<Longrightarrow> nxt (bs p) = hd (xs @ [c]) \<and> prev (bs c) = last (p # xs)"
  by (induction xs arbitrary: p) auto

lemma linked_unlink:
  assumes l: "linked bs 30 (xs @ b # ys) 30" and d: "distinct (xs @ b # ys)" and "30 \<notin> set (xs @ b # ys)"
  shows "linked (unlink b bs) 30 (xs @ ys) 30"
proof -
  let ?p = "last (30 # xs)" and ?n = "hd (ys @ [30])"
  have lr: "linked bs 30 xs b" "linked bs b ys 30" using l by (simp_all add: linked_append)
  have ends: "prev (bs b) = ?p" "nxt (bs b) = ?n"
    using linked_ends [OF lr(1)] linked_ends [OF lr(2)] by simp_all
  have pb: "?p \<noteq> b" "?n \<noteq> b" using d assms(3) by (auto split: if_splits simp: hd_append)
  have u: "unlink b bs x = (if x = ?p \<and> x = ?n then (bs x)\<lparr>prev := ?p, nxt := ?n\<rparr>
      else if x = ?n then (bs x)\<lparr>prev := ?p\<rparr> else if x = ?p then (bs x)\<lparr>nxt := ?n\<rparr> else bs x)" for x
    using pb ends by (simp add: unlink_def Let_def)
  show ?thesis
  proof (cases xs rule: rev_cases)
    case Nil
    show ?thesis
    proof (cases ys)
      case Nil
      with \<open>xs = []\<close> show ?thesis by (simp add: u)
    next
      case (Cons y zs)
      have tl: "linked bs y zs 30" using lr(2) Cons by simp
      have "linked (unlink b bs) y zs 30"
        using d assms(3) \<open>xs = []\<close> Cons by (intro linked_cong [OF _ _ tl]) (auto simp: u)
      then show ?thesis using \<open>xs = []\<close> Cons assms(3) by (auto simp: u)
    qed
  next
    case (snoc us p)
    have us: "linked bs 30 us p" using lr(1) snoc by (simp add: linked_append)
    have left: "linked (unlink b bs) 30 us p"
      using d assms(3) snoc by (intro linked_cong [OF _ _ us]) (auto simp: u hd_append split: if_splits)
    have "linked (unlink b bs) p ys 30"
    proof (cases ys)
      case Nil
      then show ?thesis using snoc assms(3) by (auto simp: u)
    next
      case (Cons y zs)
      have tl: "linked bs y zs 30" using lr(2) Cons by simp
      have "linked (unlink b bs) y zs 30"
        using d assms(3) snoc Cons by (intro linked_cong [OF _ _ tl]) (auto simp: u)
      then show ?thesis using snoc Cons assms(3) d by (auto simp: u)
    qed
    with left show ?thesis using snoc by (simp add: linked_append)
  qed
qed

lemma lru_touch:
  assumes "lru_list bs (xs @ b # ys)"
  shows "lru_list (link_front b (unlink b bs)) (b # xs @ ys)"
proof -
  have l: "linked bs 30 (xs @ b # ys) 30" "distinct (xs @ b # ys)" "set (xs @ b # ys) = {..<30}"
    using assms by (auto simp: lru_list_def)
  then have "30 \<notin> set (xs @ b # ys)" by auto
  then have "linked (link_front b (unlink b bs)) 30 (b # xs @ ys) 30"
    using linked_unlink [OF l(1,2)] l(2) by (intro linked_link_front) auto
  moreover have "set (b # xs @ ys) = {..<30}" using l(3) by auto
  ultimately show ?thesis using l(2) by (auto simp: lru_list_def)
qed

text \<open>The searches of \<open>bget\<close> as searches of the list.\<close>

lemma find_cached_list:
  "linked bs p xs 30 \<Longrightarrow> 30 \<notin> set xs \<Longrightarrow> length xs \<le> k \<Longrightarrow>
   find_cached (Suc k) bs d bn (nxt (bs p)) =
     Inr (List.find (\<lambda>b. dev (bs b) = d \<and> blockno (bs b) = bn) xs)"
proof (induction xs arbitrary: p k)
  case (Cons x xs)
  then show ?case by (cases k) auto
qed simp

lemma find_unused_list:
  "linked bs 30 xs c \<Longrightarrow> 30 \<notin> set xs \<Longrightarrow> length xs \<le> k \<Longrightarrow>
   find_unused (Suc k) bs (prev (bs c)) = Inr (List.find (\<lambda>b. refcnt (bs b) = 0) (rev xs))"
proof (induction xs arbitrary: c k rule: rev_induct)
  case (snoc x xs)
  then have "linked bs 30 xs x" "prev (bs c) = x" by (simp_all add: linked_append)
  with snoc show ?case by (cases k) auto
qed simp

lemma lru_listD:
  assumes "lru_list bs xs"
  shows "linked bs 30 xs 30" and "distinct xs" and "set xs = {..<30}" and "30 \<notin> set xs" and "length xs = 30"
proof -
  show "linked bs 30 xs 30" "distinct xs" "set xs = {..<30}" using assms by (simp_all add: lru_list_def)
  then show "30 \<notin> set xs" by simp
  show "length xs = 30" using distinct_card [OF \<open>distinct xs\<close>] \<open>set xs = {..<30}\<close> by simp
qed

lemma bget_list:
  assumes "lru_list (bufs s) xs"
  shows "bget d bn s =
    (case List.find (\<lambda>b. dev (bufs s b) = d \<and> blockno (bufs s b) = bn) xs of
       Some b \<Rightarrow> bindR (lock_buf b (upd_buf b (\<lambda>x. x\<lparr>refcnt := refcnt x + 1\<rparr>) s)) (\<lambda>s1. Inr (b, s1))
     | None \<Rightarrow> (case List.find (\<lambda>b. refcnt (bufs s b) = 0) (rev xs) of
         Some b \<Rightarrow> bindR (lock_buf b (upd_buf b
             (\<lambda>x. x\<lparr>dev := d, blockno := bn, valid := False, refcnt := 1\<rparr>) s)) (\<lambda>s1. Inr (b, s1))
       | None \<Rightarrow> Inl (Panic ''bget: no buffers'')))"
  using lru_listD [OF assms] find_cached_list [of "bufs s" 30 xs 30 d bn]
    find_unused_list [of "bufs s" xs 30 30]
  by (simp add: bget_def split: option.split)

lemma binit_loop_linked:
  assumes "n \<le> 30" and "nxt (bs 30) = 30" and "prev (bs 30) = 30"
  shows "linked (binit_loop n bs) 30 (rev [0..<n]) 30"
  using assms
proof (induction n)
  case (Suc b)
  let ?bs = "binit_loop b bs"
  have "linked (?bs(b := (?bs b)\<lparr>blk := initsleeplock\<rparr>)) 30 (rev [0..<b]) 30"
    by (rule linked_cong [of _ _ _ ?bs]) (use Suc in auto)
  then have "linked (link_front b (?bs(b := (?bs b)\<lparr>blk := initsleeplock\<rparr>))) 30 (b # rev [0..<b]) 30"
    using Suc.prems(1) by (intro linked_link_front) auto
  then show ?case by (simp add: Let_def)
qed simp

lemma binit_lru: "lru_list (bufs (binit s)) (rev [0..<30])"
  using binit_loop_linked [of 30 "(bufs s)(30 := (bufs s 30)\<lparr>prev := 30, nxt := 30\<rparr>)"]
  unfolding lru_list_def binit_def by (auto simp del: binit_loop.simps upt.simps)

section \<open>The cache as a view of the disk\<close>

text \<open>The buffer that caches a block, and the contents of a block as seen through the cache.\<close>

definition cached :: "'z bio_scheme \<Rightarrow> u32 \<Rightarrow> u32 \<Rightarrow> nat \<Rightarrow> bool" where
  "cached s d bn b \<longleftrightarrow> b < 30 \<and> dev (bufs s b) = d \<and> blockno (bufs s b) = bn"

definition cbuf :: "u32 \<Rightarrow> 'z bio_scheme \<Rightarrow> u32 \<Rightarrow> nat option" where
  "cbuf d s bn = List.find (\<lambda>b. dev (bufs s b) = d \<and> blockno (bufs s b) = bn) [0..<30]"

definition view :: "u32 \<Rightarrow> 'z bio_scheme \<Rightarrow> u32 \<Rightarrow> block" where
  "view d s bn =
     (case cbuf d s bn of
        Some b \<Rightarrow> if valid (bufs s b) then data (bufs s b) else disk s bn
      | None \<Rightarrow> disk s bn)"

text \<open>References to the buffer of a block; a block that is not cached has none.\<close>

definition refs :: "u32 \<Rightarrow> 'z bio_scheme \<Rightarrow> u32 \<Rightarrow> u32" where
  "refs d s bn = (case cbuf d s bn of Some b \<Rightarrow> refcnt (bufs s b) | None \<Rightarrow> 0)"

text \<open>All buffers in use belong to the one device \<open>d\<close>; a block has at most one buffer; a valid
  buffer nobody refers to agrees with the disk. The buffers in \<open>held\<close> are those locked by
  the running process.\<close>

definition bio_inv :: "u32 \<Rightarrow> 'z bio_scheme \<Rightarrow> nat list \<Rightarrow> nat set \<Rightarrow> bool" where
  "bio_inv d s xs held \<longleftrightarrow>
     lru_list (bufs s) xs \<and>
     (\<forall>b<30. \<forall>b'<30. dev (bufs s b) = d \<longrightarrow> dev (bufs s b') = d \<longrightarrow>
        blockno (bufs s b) = blockno (bufs s b') \<longrightarrow> b = b') \<and>
     (\<forall>b<30. dev (bufs s b) \<noteq> d \<longrightarrow> refcnt (bufs s b) = 0) \<and>
     (\<forall>b<30. refcnt (bufs s b) = 0 \<longrightarrow> dev (bufs s b) = d \<longrightarrow> valid (bufs s b) \<longrightarrow>
        data (bufs s b) = disk s (blockno (bufs s b))) \<and>
     (\<forall>b<30. b \<in> held \<longleftrightarrow> sl_locked (blk (bufs s b))) \<and>
     (\<forall>b\<in>held. b < 30 \<and> holdingsleep (mypid s) (blk (bufs s b)) \<and> valid (bufs s b) \<and> dev (bufs s b) = d)"

lemma bio_invD:
  assumes "bio_inv d s xs held"
  shows "lru_list (bufs s) xs"
    and "cached s d bn b \<Longrightarrow> cached s d bn b' \<Longrightarrow> b = b'"
    and "b < 30 \<Longrightarrow> dev (bufs s b) \<noteq> d \<Longrightarrow> refcnt (bufs s b) = 0"
    and "cached s d bn b \<Longrightarrow> refcnt (bufs s b) = 0 \<Longrightarrow> valid (bufs s b) \<Longrightarrow> data (bufs s b) = disk s bn"
    and "b < 30 \<Longrightarrow> b \<in> held \<longleftrightarrow> sl_locked (blk (bufs s b))"
    and "b \<in> held \<Longrightarrow> b < 30 \<and> holdingsleep (mypid s) (blk (bufs s b)) \<and> valid (bufs s b) \<and> dev (bufs s b) = d"
  using assms unfolding bio_inv_def cached_def by blast+

lemma bio_invI:
  assumes "lru_list (bufs s) xs"
    and "\<And>bn b b'. cached s d bn b \<Longrightarrow> cached s d bn b' \<Longrightarrow> b = b'"
    and "\<And>b. b < 30 \<Longrightarrow> dev (bufs s b) \<noteq> d \<Longrightarrow> refcnt (bufs s b) = 0"
    and "\<And>bn b. cached s d bn b \<Longrightarrow> refcnt (bufs s b) = 0 \<Longrightarrow> valid (bufs s b) \<Longrightarrow> data (bufs s b) = disk s bn"
    and "\<And>b. b < 30 \<Longrightarrow> b \<in> held \<longleftrightarrow> sl_locked (blk (bufs s b))"
    and "\<And>b. b \<in> held \<Longrightarrow> b < 30 \<and> holdingsleep (mypid s) (blk (bufs s b)) \<and> valid (bufs s b) \<and> dev (bufs s b) = d"
  shows "bio_inv d s xs held"
  using assms unfolding bio_inv_def cached_def by blast

lemma cbuf_cached: "bio_inv d s xs held \<Longrightarrow> cached s d bn b \<Longrightarrow> cbuf d s bn = Some b"
proof -
  assume inv: "bio_inv d s xs held" and c: "cached s d bn b"
  then have "cbuf d s bn \<noteq> None" by (auto simp: cbuf_def cached_def find_None_iff)
  then obtain b' where b': "cbuf d s bn = Some b'" by blast
  then have "cached s d bn b'" by (auto simp: cbuf_def cached_def find_Some_iff)
  then show ?thesis using b' bio_invD(2) [OF inv _ c] by blast
qed

lemma cbuf_None: "cbuf d s bn = None \<longleftrightarrow> \<not> (\<exists>b. cached s d bn b)"
  by (auto simp: cbuf_def cached_def find_None_iff)

lemma view_cached:
  assumes "bio_inv d s xs held" and "cached s d bn b"
  shows "view d s bn = (if valid (bufs s b) then data (bufs s b) else disk s bn)"
    and "refs d s bn = refcnt (bufs s b)"
  using cbuf_cached [OF assms] by (simp_all add: view_def refs_def)

lemma view_uncached:
  "\<not> (\<exists>b. cached s d bn b) \<Longrightarrow> view d s bn = disk s bn \<and> refs d s bn = 0"
  by (simp add: view_def refs_def cbuf_None [THEN iffD2])

text \<open>Replacing one buffer, its links apart.\<close>

definition set_buf :: "nat \<Rightarrow> buf \<Rightarrow> 'z bio_scheme \<Rightarrow> 'z bio_scheme" where
  "set_buf b x s = s\<lparr>bufs := (bufs s)(b := x)\<rparr>"

lemma set_buf_simps [simp]:
  "bufs (set_buf b x s) = (bufs s)(b := x)" "disk (set_buf b x s) = disk s" "mypid (set_buf b x s) = mypid s"
  "dwrites (set_buf b x s) = dwrites s"
  by (simp_all add: set_buf_def)

lemma cached_set_buf:
  "cached (set_buf b x s) d n b' \<longleftrightarrow> (if b' = b then b < 30 \<and> dev x = d \<and> blockno x = n else cached s d n b')"
  by (auto simp: cached_def)

lemma lru_list_cong:
  "lru_list bs xs \<Longrightarrow> (\<And>b. nxt (bs' b) = nxt (bs b)) \<Longrightarrow> (\<And>b. prev (bs' b) = prev (bs b)) \<Longrightarrow>
   lru_list bs' xs"
  by (auto simp: lru_list_def intro: linked_cong [of 30 xs bs' bs])

lemma bio_inv_set_buf:
  assumes inv: "bio_inv d s xs held" and b: "b < 30"
    and links: "nxt x = nxt (bufs s b)" "prev x = prev (bufs s b)" and dx: "dev x = d"
    and uniq: "\<And>b'. b' \<noteq> b \<Longrightarrow> \<not> cached s d (blockno x) b'"
    and clean: "refcnt x = 0 \<Longrightarrow> valid x \<Longrightarrow> data x = disk s (blockno x)"
    and lock: "sl_locked (blk x) \<Longrightarrow> sl_pid (blk x) = mypid s \<and> valid x"
  shows "bio_inv d (set_buf b x s) xs (if sl_locked (blk x) then insert b held else held - {b})"
proof -
  have l: "lru_list (bufs (set_buf b x s)) xs"
    using bio_invD(1) [OF inv] links by (elim lru_list_cong) auto
  show ?thesis
  proof (rule bio_invI [OF l])
    fix n b1 b2
    assume "cached (set_buf b x s) d n b1" "cached (set_buf b x s) d n b2"
    then show "b1 = b2"
      using uniq [of b1] uniq [of b2] bio_invD(2) [OF inv, of n b1 b2]
      by (auto simp: cached_set_buf split: if_splits)
  next
    fix c
    assume "c < 30" "dev (bufs (set_buf b x s) c) \<noteq> d"
    then show "refcnt (bufs (set_buf b x s) c) = 0"
      using dx bio_invD(3) [OF inv, of c] by (auto split: if_splits)
  next
    fix n c
    assume "cached (set_buf b x s) d n c" "refcnt (bufs (set_buf b x s) c) = 0" "valid (bufs (set_buf b x s) c)"
    then show "data (bufs (set_buf b x s) c) = disk (set_buf b x s) n"
      using clean bio_invD(4) [OF inv, of n c] by (auto simp: cached_set_buf split: if_splits)
  next
    fix c
    assume "c < (30::nat)"
    then show "c \<in> (if sl_locked (blk x) then insert b held else held - {b}) \<longleftrightarrow>
        sl_locked (blk (bufs (set_buf b x s) c))"
      using bio_invD(5) [OF inv, of c] by auto
  next
    fix c
    assume "c \<in> (if sl_locked (blk x) then insert b held else held - {b})"
    then show "c < 30 \<and> holdingsleep (mypid (set_buf b x s)) (blk (bufs (set_buf b x s) c)) \<and>
        valid (bufs (set_buf b x s) c) \<and> dev (bufs (set_buf b x s) c) = d"
      using bio_invD(6) [OF inv, of c] dx lock b by (auto simp: holdingsleep_def split: if_splits)
  qed
qed

text \<open>What the other blocks look like afterwards.\<close>

lemma view_set_buf:
  assumes inv: "bio_inv d s xs held" and inv': "bio_inv d (set_buf b x s) xs' held'"
    and b: "b < 30" and dx: "dev x = d"
    and old: "blockno x \<noteq> blockno (bufs s b) \<or> dev (bufs s b) \<noteq> d \<Longrightarrow> refcnt (bufs s b) = 0"
  shows "view d (set_buf b x s) n =
      (if n = blockno x then (if valid x then data x else disk s n) else view d s n)"
    and "refs d (set_buf b x s) n = (if n = blockno x then refcnt x else refs d s n)"
proof -
  have "view d (set_buf b x s) n = (if n = blockno x then (if valid x then data x else disk s n) else view d s n) \<and>
    refs d (set_buf b x s) n = (if n = blockno x then refcnt x else refs d s n)"
  proof (cases "n = blockno x")
    case True
    then have "cached (set_buf b x s) d n b" using b dx by (simp add: cached_set_buf)
    from view_cached [OF inv' this] True show ?thesis by simp
  next
    case ne: False
    show ?thesis
    proof (cases "\<exists>b'. cached (set_buf b x s) d n b'")
      case True
      then obtain b' where b': "cached (set_buf b x s) d n b'" by blast
      then have "b' \<noteq> b" "cached s d n b'" using ne by (auto simp: cached_set_buf split: if_splits)
      with view_cached [OF inv' b'] view_cached [OF inv, of n b'] ne show ?thesis by simp
    next
      case False
      note un = view_uncached [OF False]
      show ?thesis
      proof (cases "cached s d n b")
        case True
        then have r: "refcnt (bufs s b) = 0" using old ne by (auto simp: cached_def)
        from view_cached [OF inv True] bio_invD(4) [OF inv True r] un ne r show ?thesis by auto
      next
        case False
        then have "\<not> (\<exists>b'. cached s d n b')"
          using \<open>\<not> (\<exists>b'. cached (set_buf b x s) d n b')\<close> by (metis cached_set_buf)
        from view_uncached [OF this] un ne show ?thesis by simp
      qed
    qed
  qed
  then show "view d (set_buf b x s) n =
      (if n = blockno x then (if valid x then data x else disk s n) else view d s n)"
    and "refs d (set_buf b x s) n = (if n = blockno x then refcnt x else refs d s n)" by simp_all
qed

section \<open>\<open>bread\<close>\<close>

lemma find_unique:
  assumes "\<And>y. y \<in> set xs \<Longrightarrow> P y \<Longrightarrow> y = x" and "x \<in> set xs" and "P x"
  shows "List.find P xs = Some x"
proof -
  have "List.find P xs \<noteq> None" using assms(2,3) by (auto simp: find_None_iff)
  then obtain y where y: "List.find P xs = Some y" by blast
  then have "P y" "y \<in> set xs" by (auto simp: find_Some_iff)
  with assms(1) y show ?thesis by blast
qed

lemma find_SomeD: "List.find P xs = Some x \<Longrightarrow> P x \<and> x \<in> set xs"
  by (induction xs) (auto split: if_splits)

lemma set_valid: "valid x \<Longrightarrow> x\<lparr>refcnt := r, blk := k, valid := True\<rparr> = x\<lparr>refcnt := r, blk := k\<rparr>"
  by (cases x) simp

lemma bread_cached:
  assumes inv: "bio_inv d s xs held" and c: "cached s d bn b" and free: "b \<notin> held"
  shows "bread d bn s = Inr (b, set_buf b ((bufs s b)\<lparr>refcnt := refcnt (bufs s b) + 1,
      blk := (blk (bufs s b))\<lparr>sl_locked := True, sl_pid := mypid s\<rparr>,
      data := (if valid (bufs s b) then data (bufs s b) else disk s bn), valid := True\<rparr>) s)"
proof -
  have b: "b < 30" "dev (bufs s b) = d" "blockno (bufs s b) = bn" using c by (auto simp: cached_def)
  note lru = lru_listD [OF bio_invD(1) [OF inv]]
  have "List.find (\<lambda>b. dev (bufs s b) = d \<and> blockno (bufs s b) = bn) xs = Some b"
  proof (rule find_unique)
    fix y
    assume "y \<in> set xs" "dev (bufs s y) = d \<and> blockno (bufs s y) = bn"
    then have "cached s d bn y" using lru(3) by (auto simp: cached_def)
    then show "y = b" using bio_invD(2) [OF inv _ c] by blast
  qed (use b lru(3) in auto)
  moreover have "\<not> sl_locked (blk (bufs s b))" using bio_invD(5) [OF inv b(1)] free by simp
  ultimately show ?thesis
    using b unfolding bread_def bget_list [OF bio_invD(1) [OF inv]]
    by (simp add: lock_buf_def upd_buf_def acquiresleep_def virtio_disk_rw_def set_buf_def Let_def set_valid)
qed

lemma bread_recycle:
  assumes inv: "bio_inv d s xs held" and c: "\<not> (\<exists>b. cached s d bn b)"
    and b: "List.find (\<lambda>b. refcnt (bufs s b) = 0) (rev xs) = Some b" and free: "b \<notin> held"
  shows "bread d bn s = Inr (b, set_buf b ((bufs s b)\<lparr>dev := d, blockno := bn, refcnt := 1,
      blk := (blk (bufs s b))\<lparr>sl_locked := True, sl_pid := mypid s\<rparr>,
      data := disk s bn, valid := True\<rparr>) s)"
proof -
  note lru = lru_listD [OF bio_invD(1) [OF inv]]
  have "b \<in> set (rev xs)" using find_SomeD [OF b] by simp
  then have b30: "b < 30" using lru(3) by auto
  have "List.find (\<lambda>b. dev (bufs s b) = d \<and> blockno (bufs s b) = bn) xs = None"
    using c lru(3) by (auto simp: find_None_iff cached_def)
  moreover have "\<not> sl_locked (blk (bufs s b))" using bio_invD(5) [OF inv b30] free by simp
  ultimately show ?thesis
    using b unfolding bread_def bget_list [OF bio_invD(1) [OF inv]]
    by (simp add: lock_buf_def upd_buf_def acquiresleep_def virtio_disk_rw_def set_buf_def Let_def)
qed

text \<open>A block can be read when its buffer is not held by the caller, or some buffer is unused.\<close>

definition readable :: "u32 \<Rightarrow> 'z bio_scheme \<Rightarrow> nat set \<Rightarrow> u32 \<Rightarrow> bool" where
  "readable d s held bn \<longleftrightarrow>
     (\<exists>b. cached s d bn b) \<and> (\<forall>b. cached s d bn b \<longrightarrow> b \<notin> held) \<or>
     \<not> (\<exists>b. cached s d bn b) \<and> (\<exists>b<30. refcnt (bufs s b) = 0)"

text \<open>The effect of \<open>bread\<close>: the caller holds a buffer with the contents of the block, and
  nothing else is different in the view of the disk.\<close>

definition got_buf :: "u32 \<Rightarrow> u32 \<Rightarrow> 'z bio_scheme \<Rightarrow> nat set \<Rightarrow> nat \<Rightarrow> 'z bio_scheme \<Rightarrow> bool" where
  "got_buf d bn s held b s' \<longleftrightarrow>
     b \<notin> held \<and> cached s' d bn b \<and> data (bufs s' b) = view d s bn \<and>
     (\<forall>n. view d s' n = view d s n) \<and>
     (\<forall>n. refs d s' n = refs d s n + (if n = bn then 1 else 0)) \<and>
     (\<forall>c. c \<noteq> b \<longrightarrow> bufs s' c = bufs s c) \<and>
     refcnt (bufs s b) = refs d s bn \<and> s' = set_buf b (bufs s' b) s"

lemma bread_spec:
  assumes inv: "bio_inv d s xs held" and r: "readable d s held bn"
    and held: "\<And>b. b \<in> held \<Longrightarrow> refcnt (bufs s b) \<noteq> 0" and wrap: "refs d s bn + 1 \<noteq> 0"
  shows "\<exists>b s'. bread d bn s = Inr (b, s') \<and> bio_inv d s' xs (insert b held) \<and> got_buf d bn s held b s'"
proof (cases "\<exists>b. cached s d bn b")
  case True
  then obtain b where c: "cached s d bn b" and free: "b \<notin> held" using r by (auto simp: readable_def)
  let ?x = "(bufs s b)\<lparr>refcnt := refcnt (bufs s b) + 1,
      blk := (blk (bufs s b))\<lparr>sl_locked := True, sl_pid := mypid s\<rparr>,
      data := (if valid (bufs s b) then data (bufs s b) else disk s bn), valid := True\<rparr>"
  have b: "b < 30" "dev (bufs s b) = d" "blockno (bufs s b) = bn" using c by (auto simp: cached_def)
  have uniq: "\<not> cached s d (blockno ?x) b'" if "b' \<noteq> b" for b'
    using bio_invD(2) [OF inv _ c, of b'] that b(3) by auto
  have v: "view d s bn = data ?x" "refs d s bn = refcnt (bufs s b)"
    using view_cached [OF inv c] by simp_all
  have inv': "bio_inv d (set_buf b ?x s) xs (insert b held)"
    using bio_inv_set_buf [OF inv b(1), of ?x] b uniq wrap v(2) by simp
  have "view d (set_buf b ?x s) n = view d s n" "refs d (set_buf b ?x s) n = refs d s n + (if n = bn then 1 else 0)" for n
    using view_set_buf [OF inv inv' b(1), of n] b v by auto
  then show ?thesis
    using bread_cached [OF inv c free] inv' free b v
    by (intro exI [of _ b] exI [of _ "set_buf b ?x s"]) (simp add: got_buf_def cached_set_buf)
next
  case False
  then have "\<exists>b\<in>set (rev xs). refcnt (bufs s b) = 0"
    using r lru_listD(3) [OF bio_invD(1) [OF inv]] by (auto simp: readable_def)
  then have "List.find (\<lambda>b. refcnt (bufs s b) = 0) (rev xs) \<noteq> None" by (auto simp: find_None_iff)
  then obtain b where f: "List.find (\<lambda>b. refcnt (bufs s b) = 0) (rev xs) = Some b" by blast
  have "b \<in> set (rev xs)" and r0: "refcnt (bufs s b) = 0" using find_SomeD [OF f] by simp_all
  then have b: "b < 30" using lru_listD(3) [OF bio_invD(1) [OF inv]] by auto
  have free: "b \<notin> held" using held r0 by auto
  let ?x = "(bufs s b)\<lparr>dev := d, blockno := bn, refcnt := 1,
      blk := (blk (bufs s b))\<lparr>sl_locked := True, sl_pid := mypid s\<rparr>, data := disk s bn, valid := True\<rparr>"
  have v: "view d s bn = disk s bn" "refs d s bn = 0" using view_uncached [OF False] by simp_all
  have inv': "bio_inv d (set_buf b ?x s) xs (insert b held)"
    using bio_inv_set_buf [OF inv b, of ?x] False by simp
  have "view d (set_buf b ?x s) n = view d s n" "refs d (set_buf b ?x s) n = refs d s n + (if n = bn then 1 else 0)" for n
    using view_set_buf [OF inv inv' b, of n] v r0 by auto
  then show ?thesis
    using bread_recycle [OF inv False f free] inv' free b v r0
    by (intro exI [of _ b] exI [of _ "set_buf b ?x s"]) (simp add: got_buf_def cached_set_buf)
qed

section \<open>The other operations\<close>

text \<open>The caller changes the data of a buffer.\<close>

definition set_data :: "nat \<Rightarrow> block \<Rightarrow> 'z bio_scheme \<Rightarrow> 'z bio_scheme" where
  "set_data b bs s = upd_buf b (data_update (\<lambda>_. bs)) s"

lemma upd_buf_set_buf: "upd_buf b f s = set_buf b (f (bufs s b)) s"
  by (simp add: upd_buf_def set_buf_def)

lemma held_facts:
  assumes "bio_inv d s xs held" and "b \<in> held"
  shows "b < 30" and "valid (bufs s b)" and "dev (bufs s b) = d" and "sl_locked (blk (bufs s b))"
    and "sl_pid (blk (bufs s b)) = mypid s" and "cached s d (blockno (bufs s b)) b"
    and "b' \<noteq> b \<Longrightarrow> \<not> cached s d (blockno (bufs s b)) b'"
    and "view d s (blockno (bufs s b)) = data (bufs s b)"
    and "refs d s (blockno (bufs s b)) = refcnt (bufs s b)"
proof -
  note h = bio_invD(6) [OF assms]
  then show c: "b < 30" "valid (bufs s b)" "dev (bufs s b) = d" "sl_locked (blk (bufs s b))"
    "sl_pid (blk (bufs s b)) = mypid s" "cached s d (blockno (bufs s b)) b"
    by (simp_all add: holdingsleep_def cached_def)
  show "b' \<noteq> b \<Longrightarrow> \<not> cached s d (blockno (bufs s b)) b'"
    using bio_invD(2) [OF assms(1) c(6), of b'] by blast
  show "view d s (blockno (bufs s b)) = data (bufs s b)" "refs d s (blockno (bufs s b)) = refcnt (bufs s b)"
    using view_cached [OF assms(1) c(6)] c(2) by simp_all
qed

text \<open>A change of data or reference count of a held buffer.\<close>

lemma held_set_buf:
  assumes inv: "bio_inv d s xs held" and b: "b \<in> held"
    and clean: "r = 0 \<Longrightarrow> v = disk s (blockno (bufs s b))"
  shows "bio_inv d (set_buf b ((bufs s b)\<lparr>data := v, refcnt := r\<rparr>) s) xs held"
    and "view d (set_buf b ((bufs s b)\<lparr>data := v, refcnt := r\<rparr>) s) n =
      (if n = blockno (bufs s b) then v else view d s n)"
    and "refs d (set_buf b ((bufs s b)\<lparr>data := v, refcnt := r\<rparr>) s) n =
      (if n = blockno (bufs s b) then r else refs d s n)"
proof -
  let ?x = "(bufs s b)\<lparr>data := v, refcnt := r\<rparr>"
  note h = held_facts [OF inv b]
  have inv': "bio_inv d (set_buf b ?x s) xs (insert b held)"
    using bio_inv_set_buf [OF inv h(1), of ?x] h(2-5,7) clean by simp
  then show "bio_inv d (set_buf b ?x s) xs held" using b by (simp add: insert_absorb)
  show "view d (set_buf b ?x s) n = (if n = blockno (bufs s b) then v else view d s n)"
    "refs d (set_buf b ?x s) n = (if n = blockno (bufs s b) then r else refs d s n)"
    using view_set_buf [OF inv inv' h(1), of n] h(2,3) by simp_all
qed

lemma set_data_spec:
  assumes inv: "bio_inv d s xs held" and b: "b \<in> held" and "refcnt (bufs s b) \<noteq> 0"
  shows "bio_inv d (set_data b v s) xs held"
    and "view d (set_data b v s) n = (if n = blockno (bufs s b) then v else view d s n)"
    and "refs d (set_data b v s) n = refs d s n"
proof -
  let ?x = "(bufs s b)\<lparr>data := v, refcnt := refcnt (bufs s b)\<rparr>"
  have e: "set_data b v s = set_buf b ?x s" by (cases "bufs s b") (simp add: set_data_def upd_buf_set_buf)
  note hs = held_set_buf [OF inv b, of "refcnt (bufs s b)" v]
  show "bio_inv d (set_data b v s) xs held" unfolding e using hs(1) assms(3) by simp
  show "view d (set_data b v s) n = (if n = blockno (bufs s b) then v else view d s n)"
    unfolding e using hs(2) assms(3) by simp
  show "refs d (set_data b v s) n = refs d s n"
    unfolding e using hs(3) [of n] assms(3) held_facts(9) [OF inv b] by simp
qed

lemma pin_spec:
  assumes inv: "bio_inv d s xs held" and b: "b \<in> held"
  shows "refcnt (bufs s b) + 1 \<noteq> 0 \<Longrightarrow> bio_inv d (bpin b s) xs held"
    and "refcnt (bufs s b) + 1 \<noteq> 0 \<Longrightarrow> view d (bpin b s) n = view d s n"
    and "refcnt (bufs s b) + 1 \<noteq> 0 \<Longrightarrow>
      refs d (bpin b s) n = refs d s n + (if n = blockno (bufs s b) then 1 else 0)"
    and "refcnt (bufs s b) \<noteq> 1 \<or> data (bufs s b) = disk s (blockno (bufs s b)) \<Longrightarrow>
      bio_inv d (bunpin b s) xs held"
    and "refcnt (bufs s b) \<noteq> 1 \<or> data (bufs s b) = disk s (blockno (bufs s b)) \<Longrightarrow>
      view d (bunpin b s) n = view d s n"
    and "refcnt (bufs s b) \<noteq> 1 \<or> data (bufs s b) = disk s (blockno (bufs s b)) \<Longrightarrow>
      refs d (bunpin b s) n = refs d s n - (if n = blockno (bufs s b) then 1 else 0)"
proof -
  let ?x = "\<lambda>r. (bufs s b)\<lparr>data := data (bufs s b), refcnt := r\<rparr>"
  have e: "bpin b s = set_buf b (?x (refcnt (bufs s b) + 1)) s"
    "bunpin b s = set_buf b (?x (refcnt (bufs s b) - 1)) s"
    by (cases "bufs s b"; simp add: bpin_def bunpin_def upd_buf_set_buf)+
  note h = held_facts(8,9) [OF inv b]
  have u: "data (bufs s b) = disk s (blockno (bufs s b))"
    if "refcnt (bufs s b) \<noteq> 1 \<or> data (bufs s b) = disk s (blockno (bufs s b))" "refcnt (bufs s b) - 1 = 0"
    using that by simp
  note up = held_set_buf [OF inv b, of "refcnt (bufs s b) + 1" "data (bufs s b)"]
  note down = held_set_buf [OF inv b, of "refcnt (bufs s b) - 1" "data (bufs s b)"]
  show "bio_inv d (bpin b s) xs held" "view d (bpin b s) n = view d s n"
    "refs d (bpin b s) n = refs d s n + (if n = blockno (bufs s b) then 1 else 0)"
    if "refcnt (bufs s b) + 1 \<noteq> 0"
    unfolding e using up(1) up(2,3) [of n] that h by simp_all
  show "bio_inv d (bunpin b s) xs held" "view d (bunpin b s) n = view d s n"
    "refs d (bunpin b s) n = refs d s n - (if n = blockno (bufs s b) then 1 else 0)"
    if "refcnt (bufs s b) \<noteq> 1 \<or> data (bufs s b) = disk s (blockno (bufs s b))"
    unfolding e using down(1) down(2,3) [of n] u [OF that] h by simp_all
qed

lemma bwrite_spec:
  assumes inv: "bio_inv d s xs held" and b: "b \<in> held"
  defines "bn \<equiv> blockno (bufs s b)" and "v \<equiv> data (bufs s b)"
  defines "s' \<equiv> s\<lparr>disk := (disk s)(bn := v), dwrites := dwrites s @ [(bn, v)]\<rparr>"
  shows "bwrite b s = Inr s'" and "bio_inv d s' xs held"
    and "view d s' n = view d s n" and "refs d s' n = refs d s n"
proof -
  note h = held_facts [OF inv b]
  have c: "cached s' d' n' c \<longleftrightarrow> cached s d' n' c" for d' n' c by (simp add: s'_def cached_def)
  show "bwrite b s = Inr s'"
    using h by (simp add: bwrite_def holdingsleep_def virtio_disk_rw_def s'_def bn_def v_def Let_def)
  show "bio_inv d s' xs held"
  proof (rule bio_invI)
    fix n c assume n: "cached s' d n c" "refcnt (bufs s' c) = 0" "valid (bufs s' c)"
    show "data (bufs s' c) = disk s' n"
    proof (cases "c = b")
      case True
      with n h show ?thesis by (simp add: s'_def bn_def v_def cached_def)
    next
      case False
      with h(7) [of c] n have "n \<noteq> bn" by (auto simp: c bn_def)
      with n bio_invD(4) [OF inv, of n c] show ?thesis by (simp add: c) (simp add: s'_def)
    qed
  qed (use bio_invD [OF inv] in \<open>unfold c, auto simp: s'_def\<close>)
  have cb: "cbuf d s' n = cbuf d s n" for n by (simp add: cbuf_def s'_def)
  have s'f: "bufs s' = bufs s" "disk s' = (disk s)(bn := v)" by (simp_all add: s'_def)
  from cb show "refs d s' n = refs d s n" by (simp add: refs_def s'f split: option.split)
  show "view d s' n = view d s n"
  proof (cases "n = bn")
    case True
    with cbuf_cached [OF inv h(6)] h(2) show ?thesis by (simp add: view_def cb s'f bn_def)
  next
    case False
    then show ?thesis by (simp add: view_def cb s'f split: option.split)
  qed
qed

text \<open>Moving a buffer to the front of the list changes no other field.\<close>

lemma touch_spec:
  assumes inv: "bio_inv d s (xs @ b # ys) held"
  defines "s' \<equiv> s\<lparr>bufs := link_front b (unlink b (bufs s))\<rparr>"
  shows "bio_inv d s' (b # xs @ ys) held" and "view d s' n = view d s n" and "refs d s' n = refs d s n"
proof -
  have c: "cached s' d' n' c \<longleftrightarrow> cached s d' n' c" for d' n' c by (simp add: s'_def cached_def)
  have cb: "cbuf d s' n = cbuf d s n" by (simp add: cbuf_def s'_def)
  then show "view d s' n = view d s n" "refs d s' n = refs d s n"
    by (simp_all add: view_def refs_def s'_def split: option.split)
  have l: "lru_list (bufs s') (b # xs @ ys)"
    using lru_touch [OF bio_invD(1) [OF inv]] by (simp add: s'_def)
  show "bio_inv d s' (b # xs @ ys) held"
    by (rule bio_invI [OF l]) (use bio_invD(2-6) [OF inv] in \<open>unfold c, auto simp: s'_def\<close>)
qed

lemma brelse_spec:
  assumes inv: "bio_inv d s xs held" and b: "b \<in> held"
    and clean: "refcnt (bufs s b) \<noteq> 1 \<or> data (bufs s b) = disk s (blockno (bufs s b))"
  shows "\<exists>s'. brelse b s = Inr s' \<and>
      bio_inv d s' (if refcnt (bufs s b) = 1 then b # remove1 b xs else xs) (held - {b}) \<and>
      (\<forall>n. view d s' n = view d s n) \<and>
      (\<forall>n. refs d s' n = refs d s n - (if n = blockno (bufs s b) then 1 else 0)) \<and>
      s' = s\<lparr>bufs := bufs s'\<rparr> \<and>
      (\<forall>c. c \<noteq> b \<longrightarrow> refcnt (bufs s' c) = refcnt (bufs s c))"
proof -
  note h = held_facts [OF inv b]
  let ?x = "(bufs s b)\<lparr>blk := releasesleep (blk (bufs s b)), refcnt := refcnt (bufs s b) - 1\<rparr>"
  let ?s = "set_buf b ?x s"
  have rb: "brelse b s = Inr (if refcnt (bufs s b) = 1 then ?s\<lparr>bufs := link_front b (unlink b (bufs ?s))\<rparr> else ?s)"
    using h(4,5) by (simp add: brelse_def holdingsleep_def upd_buf_def set_buf_def Let_def fun_upd_upd)
  have inv1: "bio_inv d ?s xs (held - {b})"
    using bio_inv_set_buf [OF inv h(1), of ?x] h(2,3,7) clean by (simp add: releasesleep_def)
  have v: "view d ?s n = view d s n" "refs d ?s n = refs d s n - (if n = blockno (bufs s b) then 1 else 0)" for n
    using view_set_buf [OF inv inv1 h(1), of n] h by simp_all
  show ?thesis
  proof (cases "refcnt (bufs s b) = 1")
    case False
    then show ?thesis using rb inv1 v by (simp add: set_buf_def)
  next
    case True
    have "b \<in> set xs" using lru_listD(3) [OF bio_invD(1) [OF inv]] h(1) by simp
    then obtain us vs where xs: "xs = us @ b # vs" "b \<notin> set us" by (meson split_list_first)
    have "bio_inv d (?s\<lparr>bufs := link_front b (unlink b (bufs ?s))\<rparr>) (b # remove1 b xs) (held - {b})"
      "view d (?s\<lparr>bufs := link_front b (unlink b (bufs ?s))\<rparr>) n = view d ?s n"
      "refs d (?s\<lparr>bufs := link_front b (unlink b (bufs ?s))\<rparr>) n = refs d ?s n" for n
      using touch_spec [of d ?s us b vs] inv1 xs by (simp_all add: remove1_append)
    with True rb v show ?thesis by (simp add: set_buf_def)
  qed
qed

end
