(* ===== verification/BufCache.thy ===== *)
theory BufCache
  imports Bio
begin

text \<open>
  What the buffer cache promises its clients, the log and the file system, with the buffers
  hidden: the contents of a block (\<open>view\<close>), the number of references to its buffer
  (\<open>refs\<close>) and the set \<open>H\<close> of blocks whose buffers the caller holds. Each operation of
  \<open>kernel/bio.c\<close> has one lemma here that gives its effect on these.
\<close>

section \<open>The abstract state\<close>

definition bc :: "u32 \<Rightarrow> 'z bio_scheme \<Rightarrow> u32 set \<Rightarrow> bool" where
  "bc d s H \<longleftrightarrow> (\<exists>xs held. bio_inv d s xs held \<and> H = (\<lambda>b. blockno (bufs s b)) ` held)"

text \<open>The blocks that keep a buffer in use.\<close>

definition used :: "u32 \<Rightarrow> 'z bio_scheme \<Rightarrow> u32 set" where
  "used d s = {n. refs d s n \<noteq> 0}"

text \<open>The buffers the caller holds stay where they are.\<close>

definition keeps :: "u32 \<Rightarrow> 'z bio_scheme \<Rightarrow> u32 set \<Rightarrow> 'z bio_scheme \<Rightarrow> bool" where
  "keeps d s H s' \<longleftrightarrow> (\<forall>n\<in>H. \<forall>b. cached s d n b \<longrightarrow> cached s' d n b)"

text \<open>Nothing but the buffers and the disk changes.\<close>

definition bio_only :: "'z bio_scheme \<Rightarrow> 'z bio_scheme \<Rightarrow> bool" where
  "bio_only s s' \<longleftrightarrow> (\<exists>bs dk dw. s' = s\<lparr>bufs := bs, disk := dk, dwrites := dw\<rparr>)"

lemma bio_only_refl [simp]: "bio_only s s"
  unfolding bio_only_def by (intro exI [of _ "bufs s"] exI [of _ "disk s"] exI [of _ "dwrites s"]) simp

lemma bio_only_trans: "bio_only s s' \<Longrightarrow> bio_only s' s'' \<Longrightarrow> bio_only s s''"
  unfolding bio_only_def by (elim exE) (simp, blast)

lemma bio_only_bufs: "s' = s\<lparr>bufs := bs\<rparr> \<Longrightarrow> bio_only s s'"
  unfolding bio_only_def by (intro exI [of _ bs] exI [of _ "disk s"] exI [of _ "dwrites s"]) simp

lemma bio_only_set_buf [simp]: "bio_only s (set_buf b x s)"
  by (rule bio_only_bufs) (simp add: set_buf_def)

lemma keepsD: "keeps d s H s' \<Longrightarrow> n \<in> H \<Longrightarrow> cached s d n b \<Longrightarrow> cached s' d n b"
  by (auto simp: keeps_def)

lemma bcE:
  assumes "bc d s H"
  obtains xs held where "bio_inv d s xs held" and "H = (\<lambda>b. blockno (bufs s b)) ` held"
  using assms by (auto simp: bc_def)

lemma bc_held:
  assumes inv: "bio_inv d s xs held" and H: "H = (\<lambda>b. blockno (bufs s b)) ` held"
    and c: "cached s d n b"
  shows "n \<in> H \<longleftrightarrow> b \<in> held"
proof
  assume "n \<in> H"
  then obtain b' where b': "b' \<in> held" "blockno (bufs s b') = n" using H by auto
  then have "cached s d n b'" using held_facts(6) [OF inv b'(1)] by simp
  with bio_invD(2) [OF inv _ c, of b'] b' show "b \<in> held" by blast
next
  assume "b \<in> held"
  with H c show "n \<in> H" by (auto simp: cached_def)
qed

lemma refs_cached_ex: "refs d s n \<noteq> 0 \<Longrightarrow> \<exists>b. cached s d n b"
  using view_uncached by blast

lemma finite_used: "finite (used d s)"
proof (rule finite_subset)
  show "used d s \<subseteq> (\<lambda>b. blockno (bufs s b)) ` {..<30}"
    using refs_cached_ex by (auto simp: used_def cached_def image_iff Bex_def) blast
qed simp

lemma free_buffer:
  assumes inv: "bio_inv d s xs held" and "card (used d s) < 30"
  shows "\<exists>b<30. refcnt (bufs s b) = 0"
proof (rule ccontr)
  assume "\<not> ?thesis"
  then have nz: "refcnt (bufs s b) \<noteq> 0" if "b < 30" for b using that by blast
  then have c: "cached s d (blockno (bufs s b)) b" if "b < 30" for b
    using that bio_invD(3) [OF inv, of b] by (auto simp: cached_def)
  have "inj_on (\<lambda>b. blockno (bufs s b)) {..<30}"
  proof (rule inj_onI)
    fix b b'
    assume a: "b \<in> {..<30}" "b' \<in> {..<30}" and e: "blockno (bufs s b) = blockno (bufs s b')"
    have "cached s d (blockno (bufs s b)) b" "cached s d (blockno (bufs s b)) b'"
      using c [of b] c [of b'] a unfolding e by simp_all
    then show "b = b'" using bio_invD(2) [OF inv] by blast
  qed
  then have "card ((\<lambda>b. blockno (bufs s b)) ` {..<30}) = 30" by (simp add: card_image)
  moreover have "(\<lambda>b. blockno (bufs s b)) ` {..<30} \<subseteq> used d s"
    using nz view_cached(2) [OF inv c] by (auto simp: used_def)
  ultimately have "30 \<le> card (used d s)" using card_mono [OF finite_used] by metis
  then show False using assms(2) by simp
qed

section \<open>The operations\<close>

lemma bc_view_clean:
  assumes "bc d s H" and "refs d s n = 0"
  shows "view d s n = disk s n"
proof -
  obtain xs held where inv: "bio_inv d s xs held" using assms(1) by (rule bcE)
  show ?thesis
  proof (cases "\<exists>b. cached s d n b")
    case True
    then obtain b where c: "cached s d n b" by blast
    from view_cached [OF inv c] bio_invD(4) [OF inv c] assms(2) show ?thesis by auto
  qed (use view_uncached in blast)
qed

lemma bc_data:
  assumes "bc d s H" and "n \<in> H" and "cached s d n b"
  shows "data (bufs s b) = view d s n" and "blockno (bufs s b) = n" and "refcnt (bufs s b) = refs d s n"
proof -
  obtain xs held where inv: "bio_inv d s xs held" and H: "H = (\<lambda>b. blockno (bufs s b)) ` held"
    using assms(1) by (rule bcE)
  have b: "b \<in> held" using bc_held [OF inv H assms(3)] assms(2) by simp
  show n: "blockno (bufs s b) = n" using assms(3) by (simp add: cached_def)
  show "data (bufs s b) = view d s n" "refcnt (bufs s b) = refs d s n"
    using held_facts(8,9) [OF inv b] n by simp_all
qed

lemma bc_bread:
  assumes bc: "bc d s H" and n: "n \<notin> H" and free: "refs d s n \<noteq> 0 \<or> card (used d s) < 30"
    and held: "\<And>m. m \<in> H \<Longrightarrow> refs d s m \<noteq> 0" and wrap: "refs d s n + 1 \<noteq> 0"
  shows "\<exists>b s'. bread d n s = Inr (b, s') \<and> bc d s' (insert n H) \<and> cached s' d n b \<and>
      view d s' = view d s \<and> refs d s' = (refs d s)(n := refs d s n + 1) \<and>
      keeps d s H s' \<and> bio_only s s' \<and> disk s' = disk s \<and> dwrites s' = dwrites s"
proof -
  obtain xs hb where inv: "bio_inv d s xs hb" and H: "H = (\<lambda>b. blockno (bufs s b)) ` hb"
    using bc by (rule bcE)
  have "readable d s hb n"
  proof (cases "\<exists>b. cached s d n b")
    case True
    then show ?thesis using bc_held [OF inv H] n by (auto simp: readable_def)
  next
    case False
    then have "refs d s n = 0" using refs_cached_ex by blast
    with free free_buffer [OF inv] False show ?thesis by (auto simp: readable_def)
  qed
  moreover have "refcnt (bufs s b) \<noteq> 0" if "b \<in> hb" for b
    using held_facts(9) [OF inv that] held that H by force
  ultimately obtain b s' where r: "bread d n s = Inr (b, s')" and inv': "bio_inv d s' xs (insert b hb)"
    and g: "got_buf d n s hb b s'"
    using bread_spec [OF inv _ _ wrap] by blast
  have e: "bufs s' c = bufs s c" if "c \<in> hb" for c using g that by (auto simp: got_buf_def)
  have bn: "cached s' d n b" "b \<notin> hb" using g by (simp_all add: got_buf_def)
  then have "insert n H = (\<lambda>b. blockno (bufs s' b)) ` insert b hb"
    using e H by (simp add: cached_def)
  then have "bc d s' (insert n H)" using inv' by (auto simp: bc_def)
  moreover have "keeps d s H s'"
    using e bc_held [OF inv H] by (auto simp: keeps_def cached_def)
  moreover obtain x where "s' = set_buf b x s" using g unfolding got_buf_def by blast
  moreover have "view d s' = view d s" "refs d s' = (refs d s)(n := refs d s n + 1)"
    using g unfolding got_buf_def by (auto simp: fun_eq_iff)
  ultimately show ?thesis using r bn(1) by (intro exI [of _ b] exI [of _ s']) simp
qed

text \<open>An operation on a held buffer, from its lemma in \<open>Bio\<close>.\<close>

lemma bc_holdE:
  assumes "bc d s H" and "n \<in> H" and "cached s d n b"
  obtains xs held where "bio_inv d s xs held" and "H = (\<lambda>b. blockno (bufs s b)) ` held"
    and "b \<in> held" and "blockno (bufs s b) = n"
proof -
  obtain xs held where inv: "bio_inv d s xs held" and H: "H = (\<lambda>b. blockno (bufs s b)) ` held"
    using assms(1) by (rule bcE)
  with bc_held [OF inv H assms(3)] assms(2,3) that show ?thesis by (auto simp: cached_def)
qed

lemma bcI_same:
  assumes "bio_inv d s' xs held" and "H = (\<lambda>b. blockno (bufs s b)) ` held"
    and "\<And>c. blockno (bufs s' c) = blockno (bufs s c)"
  shows "bc d s' H"
  using assms by (auto simp: bc_def)

lemma keepsI_same:
  "(\<And>c. blockno (bufs s' c) = blockno (bufs s c)) \<Longrightarrow> (\<And>c. dev (bufs s' c) = dev (bufs s c)) \<Longrightarrow>
   keeps d s H s'"
  by (simp add: keeps_def cached_def)

lemma bc_set_data:
  assumes "bc d s H" and "n \<in> H" and "cached s d n b" and "refs d s n \<noteq> 0"
  shows "bc d (set_data b v s) H" and "view d (set_data b v s) = (view d s)(n := v)"
    and "refs d (set_data b v s) = refs d s" and "keeps d s H (set_data b v s)"
    and "bio_only s (set_data b v s)" and "disk (set_data b v s) = disk s"
    and "dwrites (set_data b v s) = dwrites s"
proof -
  obtain xs held where inv: "bio_inv d s xs held" and H: "H = (\<lambda>b. blockno (bufs s b)) ` held"
    and b: "b \<in> held" "blockno (bufs s b) = n"
    using assms(1-3) by (rule bc_holdE)
  have "refcnt (bufs s b) \<noteq> 0" using held_facts(9) [OF inv b(1)] b(2) assms(4) by simp
  note sd = set_data_spec [OF inv b(1) this, of v]
  have f: "blockno (bufs (set_data b v s) c) = blockno (bufs s c)" "dev (bufs (set_data b v s) c) = dev (bufs s c)" for c
    by (simp_all add: set_data_def upd_buf_set_buf)
  show "bc d (set_data b v s) H" using bcI_same [OF sd(1) H f(1)] .
  show "view d (set_data b v s) = (view d s)(n := v)" "refs d (set_data b v s) = refs d s"
    using sd(2,3) b(2) by (auto simp: fun_eq_iff)
  show "keeps d s H (set_data b v s)" using f by (rule keepsI_same)
  show "bio_only s (set_data b v s)" "disk (set_data b v s) = disk s" "dwrites (set_data b v s) = dwrites s"
    by (simp_all add: set_data_def upd_buf_set_buf)
qed

lemma bc_bwrite:
  assumes "bc d s H" and "n \<in> H" and "cached s d n b"
  shows "\<exists>s'. bwrite b s = Inr s' \<and> bc d s' H \<and> view d s' = view d s \<and> refs d s' = refs d s \<and>
      keeps d s H s' \<and> bio_only s s' \<and> disk s' = (disk s)(n := view d s n) \<and>
      dwrites s' = dwrites s @ [(n, view d s n)]"
proof -
  obtain xs held where inv: "bio_inv d s xs held" and H: "H = (\<lambda>b. blockno (bufs s b)) ` held"
    and b: "b \<in> held" "blockno (bufs s b) = n"
    using assms by (rule bc_holdE)
  let ?s = "s\<lparr>disk := (disk s)(n := view d s n), dwrites := dwrites s @ [(n, view d s n)]\<rparr>"
  have v: "data (bufs s b) = view d s n" using bc_data(1) [OF assms] .
  note bw = bwrite_spec [OF inv b(1), unfolded b(2) v]
  have "bc d ?s H" by (rule bcI_same [OF bw(2) H]) simp
  moreover have "keeps d s H ?s" by (rule keepsI_same) simp_all
  moreover have "bio_only s ?s" unfolding bio_only_def by (intro exI [of _ "bufs s"]) (simp, blast)
  ultimately show ?thesis using bw(1,3,4) by (intro exI [of _ ?s]) (auto simp: fun_eq_iff)
qed

lemma bc_brelse:
  assumes "bc d s H" and "n \<in> H" and "cached s d n b" and "refs d s n \<noteq> 1 \<or> view d s n = disk s n"
  shows "\<exists>s'. brelse b s = Inr s' \<and> bc d s' (H - {n}) \<and> view d s' = view d s \<and>
      refs d s' = (refs d s)(n := refs d s n - 1) \<and> keeps d s (H - {n}) s' \<and> bio_only s s' \<and>
      disk s' = disk s \<and> dwrites s' = dwrites s"
proof -
  obtain xs held where inv: "bio_inv d s xs held" and H: "H = (\<lambda>b. blockno (bufs s b)) ` held"
    and b: "b \<in> held" "blockno (bufs s b) = n"
    using assms(1-3) by (rule bc_holdE)
  note d = bc_data [OF assms(1-3)]
  obtain s' where r: "brelse b s = Inr s'"
    and inv': "bio_inv d s' (if refcnt (bufs s b) = 1 then b # remove1 b xs else xs) (held - {b})"
    and v: "\<And>m. view d s' m = view d s m" "\<And>m. refs d s' m = refs d s m - (if m = n then 1 else 0)"
    and e: "s' = s\<lparr>bufs := bufs s'\<rparr>"
    using brelse_spec [OF inv b(1)] assms(4) b(2) d by metis
  have f: "blockno (bufs s' c) = blockno (bufs s c) \<and> dev (bufs s' c) = dev (bufs s c)" for c
    using r by (auto simp: brelse_def Let_def upd_buf_def split: if_splits)
  have "H - {n} = (\<lambda>b. blockno (bufs s' b)) ` (held - {b})"
  proof -
    have "m \<noteq> b \<Longrightarrow> m \<in> held \<Longrightarrow> blockno (bufs s m) \<noteq> n" for m
      using held_facts(7) [OF inv b(1), of m] held_facts(6) [OF inv, of m] b(2) by auto
    then show ?thesis using f b H by auto
  qed
  then have "bc d s' (H - {n})" unfolding bc_def using inv' by blast
  moreover have "keeps d s (H - {n}) s'" using f by (intro keepsI_same) blast+
  moreover have "bio_only s s'" using e by (rule bio_only_bufs)
  moreover have "disk s' = disk s" "dwrites s' = dwrites s" by (subst e, simp)+
  ultimately show ?thesis using r v by (intro exI [of _ s']) (auto simp: fun_eq_iff)
qed

lemma bc_bpin:
  assumes "bc d s H" and "n \<in> H" and "cached s d n b" and "refs d s n + 1 \<noteq> 0"
  shows "bc d (bpin b s) H" and "view d (bpin b s) = view d s"
    and "refs d (bpin b s) = (refs d s)(n := refs d s n + 1)" and "keeps d s H (bpin b s)"
    and "bio_only s (bpin b s)" and "disk (bpin b s) = disk s" and "dwrites (bpin b s) = dwrites s"
proof -
  obtain xs held where inv: "bio_inv d s xs held" and H: "H = (\<lambda>b. blockno (bufs s b)) ` held"
    and b: "b \<in> held" "blockno (bufs s b) = n"
    using assms(1-3) by (rule bc_holdE)
  note p = pin_spec(1-3) [OF inv b(1), unfolded bc_data(3) [OF assms(1-3)] b(2), OF assms(4)]
  have f: "blockno (bufs (bpin b s) c) = blockno (bufs s c)" "dev (bufs (bpin b s) c) = dev (bufs s c)" for c
    by (simp_all add: bpin_def upd_buf_set_buf)
  show "bc d (bpin b s) H" using bcI_same [OF p(1) H f(1)] .
  show "view d (bpin b s) = view d s" "refs d (bpin b s) = (refs d s)(n := refs d s n + 1)"
    using p(2,3) by (auto simp: fun_eq_iff)
  show "keeps d s H (bpin b s)" using f by (rule keepsI_same)
  show "bio_only s (bpin b s)" "disk (bpin b s) = disk s" "dwrites (bpin b s) = dwrites s"
    by (simp_all add: bpin_def upd_buf_set_buf)
qed

lemma bc_bunpin:
  assumes "bc d s H" and "n \<in> H" and "cached s d n b" and "refs d s n \<noteq> 1 \<or> view d s n = disk s n"
  shows "bc d (bunpin b s) H" and "view d (bunpin b s) = view d s"
    and "refs d (bunpin b s) = (refs d s)(n := refs d s n - 1)" and "keeps d s H (bunpin b s)"
    and "bio_only s (bunpin b s)" and "disk (bunpin b s) = disk s" and "dwrites (bunpin b s) = dwrites s"
proof -
  obtain xs held where inv: "bio_inv d s xs held" and H: "H = (\<lambda>b. blockno (bufs s b)) ` held"
    and b: "b \<in> held" "blockno (bufs s b) = n"
    using assms(1-3) by (rule bc_holdE)
  note p = pin_spec(4-6) [OF inv b(1), unfolded bc_data(1,3) [OF assms(1-3)] b(2), OF assms(4)]
  have f: "blockno (bufs (bunpin b s) c) = blockno (bufs s c)" "dev (bufs (bunpin b s) c) = dev (bufs s c)" for c
    by (simp_all add: bunpin_def upd_buf_set_buf)
  show "bc d (bunpin b s) H" using bcI_same [OF p(1) H f(1)] .
  show "view d (bunpin b s) = view d s" "refs d (bunpin b s) = (refs d s)(n := refs d s n - 1)"
    using p(2,3) by (auto simp: fun_eq_iff)
  show "keeps d s H (bunpin b s)" using f by (rule keepsI_same)
  show "bio_only s (bunpin b s)" "disk (bunpin b s) = disk s" "dwrites (bunpin b s) = dwrites s"
    by (simp_all add: bunpin_def upd_buf_set_buf)
qed

section \<open>Reading or rewriting one block\<close>

lemma bc_read_block:
  assumes "bc d s H" and "n \<notin> H" and "refs d s n \<noteq> 0 \<or> card (used d s) < 30"
    and "\<And>m. m \<in> H \<Longrightarrow> refs d s m \<noteq> 0" and "refs d s n + 1 \<noteq> 0"
  shows "\<exists>b s1 s2. bread d n s = Inr (b, s1) \<and> data (bufs s1 b) = view d s n \<and> bio_only s s1 \<and>
      brelse b s1 = Inr s2 \<and> bc d s2 H \<and> view d s2 = view d s \<and> refs d s2 = refs d s \<and>
      keeps d s H s2 \<and> bio_only s s2 \<and> disk s2 = disk s \<and> dwrites s2 = dwrites s"
proof -
  obtain b s1 where r: "bread d n s = Inr (b, s1)" "bc d s1 (insert n H)" "cached s1 d n b"
    "view d s1 = view d s" "refs d s1 = (refs d s)(n := refs d s n + 1)" "keeps d s H s1" "bio_only s s1"
    "disk s1 = disk s" "dwrites s1 = dwrites s"
    using bc_bread [OF assms] by blast
  have "refs d s1 n \<noteq> 1 \<or> view d s1 n = disk s1 n" using r bc_view_clean [OF assms(1), of n] by auto
  then obtain s2 where q: "brelse b s1 = Inr s2" "bc d s2 (insert n H - {n})" "view d s2 = view d s1"
    "refs d s2 = (refs d s1)(n := refs d s1 n - 1)" "keeps d s1 (insert n H - {n}) s2" "bio_only s1 s2"
    "disk s2 = disk s1" "dwrites s2 = dwrites s1"
    using bc_brelse [OF r(2) _ r(3)] by auto
  have "insert n H - {n} = H" using assms(2) by auto
  moreover have "keeps d s H s2" using r(6) q(5) assms(2) by (auto simp: keeps_def)
  moreover have "data (bufs s1 b) = view d s n" using bc_data(1) [OF r(2) _ r(3)] r(4) by simp
  ultimately show ?thesis
    using r q bio_only_trans [OF r(7) q(6)] by (intro exI [of _ b] exI [of _ s1] exI [of _ s2]) simp
qed

lemma bc_write_block:
  assumes "bc d s {}" and "card (used d s) < 30" and "refs d s n + 1 \<noteq> 0"
  shows "\<exists>b s1. bread d n s = Inr (b, s1) \<and> data (bufs s1 b) = view d s n \<and> bio_only s s1 \<and>
      (\<forall>v. \<exists>s2 s3. bwrite b (set_data b v s1) = Inr s2 \<and> brelse b s2 = Inr s3 \<and> bc d s3 {} \<and>
        bio_only s s3 \<and> disk s3 = (disk s)(n := v) \<and> view d s3 = (view d s)(n := v) \<and>
        refs d s3 = refs d s \<and> dwrites s3 = dwrites s @ [(n, v)])"
proof -
  obtain b s1 where r: "bread d n s = Inr (b, s1)" and b1: "bc d s1 {n}" and c1: "cached s1 d n b"
    and v1: "view d s1 = view d s" "refs d s1 = (refs d s)(n := refs d s n + 1)" "disk s1 = disk s"
      "dwrites s1 = dwrites s" "bio_only s s1"
    using bc_bread [OF assms(1) _ _ _ assms(3)] assms(2) by auto
  have nz: "refs d s1 n \<noteq> 0" using v1 assms(3) by simp
  have "\<exists>s2 s3. bwrite b (set_data b v s1) = Inr s2 \<and> brelse b s2 = Inr s3 \<and> bc d s3 {} \<and>
        bio_only s s3 \<and> disk s3 = (disk s)(n := v) \<and> view d s3 = (view d s)(n := v) \<and>
        refs d s3 = refs d s \<and> dwrites s3 = dwrites s @ [(n, v)]" for v
  proof -
    note sd = bc_set_data [OF b1 _ c1 nz, of v, simplified]
    have c2: "cached (set_data b v s1) d n b" using keepsD [OF sd(4) _ c1] by simp
    obtain s2 where w: "bwrite b (set_data b v s1) = Inr s2" and b2: "bc d s2 {n}"
      and v2: "view d s2 = (view d s)(n := v)" "refs d s2 = (refs d s)(n := refs d s n + 1)"
        "disk s2 = (disk s)(n := v)" "dwrites s2 = dwrites s @ [(n, v)]" "bio_only (set_data b v s1) s2"
      and k2: "keeps d (set_data b v s1) {n} s2"
      using bc_bwrite [OF sd(1) _ c2] sd v1 by auto
    have c3: "cached s2 d n b" using keepsD [OF k2 _ c2] by simp
    obtain s3 where "brelse b s2 = Inr s3" "bc d s3 {}" "view d s3 = (view d s)(n := v)"
        "refs d s3 = refs d s" "disk s3 = (disk s)(n := v)" "dwrites s3 = dwrites s @ [(n, v)]" "bio_only s2 s3"
      using bc_brelse [OF b2 _ c3] v2 by auto
    moreover from this have "bio_only s s3" using v1(5) sd(5) v2(5) by (blast intro: bio_only_trans)
    ultimately show ?thesis using w by blast
  qed
  moreover have "data (bufs s1 b) = view d s n" using bc_data(1) [OF b1 _ c1] v1 by simp
  ultimately show ?thesis using r v1(5) by blast
qed

section \<open>The initial cache\<close>

lemma binit_loop_fields:
  "valid (binit_loop k bs c) = valid (bs c)" "dev (binit_loop k bs c) = dev (bs c)"
  "blockno (binit_loop k bs c) = blockno (bs c)" "refcnt (binit_loop k bs c) = refcnt (bs c)"
  "data (binit_loop k bs c) = data (bs c)"
  "c < k \<Longrightarrow> blk (binit_loop k bs c) = initsleeplock"
  by (induction k) (auto simp: Let_def less_Suc_eq)

lemma binit_fields:
  "dev (bufs (binit s) c) = dev (bufs s c)" "refcnt (bufs (binit s) c) = refcnt (bufs s c)"
  "c < 30 \<Longrightarrow> blk (bufs (binit s) c) = initsleeplock"
  "disk (binit s) = disk s" "dwrites (binit s) = dwrites s" "mypid (binit s) = mypid s"
  by (simp_all add: binit_def binit_loop_fields del: binit_loop.simps)

lemma binit_inv:
  assumes "\<And>b. b < 30 \<Longrightarrow> refcnt (bufs s b) = 0 \<and> dev (bufs s b) \<noteq> d"
  shows "bio_inv d (binit s) (rev [0..<30]) {}"
  by (rule bio_invI [OF binit_lru])
    (use assms in \<open>auto simp: binit_fields cached_def initsleeplock_def\<close>)

lemma binit_bc:
  assumes "\<And>b. b < 30 \<Longrightarrow> refcnt (bufs s b) = 0 \<and> dev (bufs s b) \<noteq> d"
  shows "bc d (binit s) {}" and "view d (binit s) = disk s" and "refs d (binit s) = (\<lambda>_. 0)"
proof -
  show "bc d (binit s) {}" using binit_inv [OF assms] by (auto simp: bc_def)
  have "\<not> (\<exists>b. cached (binit s) d n b)" for n using assms by (auto simp: cached_def binit_fields)
  from view_uncached [OF this] show "view d (binit s) = disk s" "refs d (binit s) = (\<lambda>_. 0)"
    by (auto simp: fun_eq_iff binit_fields)
qed

text \<open>A machine after reset: the statically allocated cache is zero.\<close>

definition zero_buf :: buf where
  "zero_buf = \<lparr>valid = False, dev = 0, blockno = 0, blk = initsleeplock, refcnt = 0, prev = 0, nxt = 0,
     data = replicate 1024 0\<rparr>"

definition ex_bio :: bio where
  "ex_bio = \<lparr>pmem = (\<lambda>_. 0), freelist = 0, kend = 0, kernel_pagetable = 0, etext = 0, trampoline = 0, satp = 0,
     mypid = 1, mypagetable = 0, bufs = (\<lambda>_. zero_buf), disk = (\<lambda>_. replicate 1024 0), dwrites = []\<rparr>"

lemma ex_bio_zero: "refcnt (bufs ex_bio b) = 0 \<and> dev (bufs ex_bio b) = 0"
  by (simp add: ex_bio_def zero_buf_def)

lemma ex_bio_bc: "bc 1 (binit ex_bio) {}" "refs 1 (binit ex_bio) = (\<lambda>_. 0)" "used 1 (binit ex_bio) = {}"
  using binit_bc [of ex_bio 1] ex_bio_zero by (simp_all add: used_def)

section \<open>Properties\<close>

text \<open>\<open>binit\<close> makes of the zeroed buffers a list through all thirty, none of
  them locked or in use, with every block of a device reading as it is on the disk.\<close>

theorem binit_correct:
  assumes "\<forall>b<30. refcnt (bufs s b) = 0 \<and> dev (bufs s b) = 0" and "d \<noteq> 0"
  shows "lru_list (bufs (binit s)) (rev [0..<30]) \<and> bio_inv d (binit s) (rev [0..<30]) {} \<and>
    view d (binit s) n = disk s n \<and> refs d (binit s) n = 0"
  using binit_lru [of s] binit_inv [of s d] binit_bc(2,3) [of s d] assms by simp_all

theorem binit_correct_witness: "bio_inv 1 (binit ex_bio) (rev [0..<30]) {}"
  using binit_correct [of ex_bio 1] by (simp add: ex_bio_zero)

text \<open>Property C17. \<open>bread\<close> on a block the caller does not hold, with a buffer in use for it
  or one to spare: it returns a buffer locked by the caller with the block's current contents,
  counts one more reference to it, leaves the contents of every block and the disk alone, and
  moves no buffer the caller holds.\<close>

theorem bread_correct:
  assumes "bc d s H" and "n \<notin> H" and "refs d s n \<noteq> 0 \<or> card (used d s) < 30"
    and "\<forall>m\<in>H. refs d s m \<noteq> 0" and "refs d s n + 1 \<noteq> 0"
  shows "\<exists>b s'. bread d n s = Inr (b, s') \<and> bc d s' (insert n H) \<and> cached s' d n b \<and>
      data (bufs s' b) = view d s n \<and> holdingsleep (mypid s) (blk (bufs s' b)) \<and>
      view d s' = view d s \<and> refs d s' = (refs d s)(n := refs d s n + 1) \<and>
      (\<forall>m\<in>H. \<forall>c. cached s d m c \<longrightarrow> cached s' d m c) \<and> disk s' = disk s \<and> dwrites s' = dwrites s"
proof -
  obtain b s' where r: "bread d n s = Inr (b, s')" and bc: "bc d s' (insert n H)" and c: "cached s' d n b"
    and v: "view d s' = view d s" "refs d s' = (refs d s)(n := refs d s n + 1)"
    and k: "keeps d s H s'" "bio_only s s'" "disk s' = disk s" "dwrites s' = dwrites s"
    using bc_bread [OF assms(1-3) _ assms(5)] assms(4) by blast
  obtain xs held where inv: "bio_inv d s' xs held" and b: "b \<in> held"
    using bc_holdE [OF bc _ c] by blast
  have "mypid s' = mypid s" using k(2) by (auto simp: bio_only_def)
  with held_facts(4,5) [OF inv b] have "holdingsleep (mypid s) (blk (bufs s' b))" by (simp add: holdingsleep_def)
  moreover have "data (bufs s' b) = view d s n" using bc_data(1) [OF bc _ c] v by simp
  ultimately show ?thesis using r bc c v k by (intro exI [of _ b] exI [of _ s']) (auto simp: keeps_def)
qed

theorem bread_correct_witness:
  "\<exists>b s'. bread 1 5 (binit ex_bio) = Inr (b, s') \<and> data (bufs s' b) = replicate 1024 0"
proof -
  have "view 1 (binit ex_bio) 5 = replicate 1024 0"
    using binit_bc(2) [of ex_bio 1] ex_bio_zero by (simp add: ex_bio_def)
  with bread_correct [of 1 "binit ex_bio" "{}" 5] ex_bio_bc show ?thesis by auto
qed

text \<open>Property C32. A block read, changed, written with \<open>bwrite\<close> and released is on the disk,
  no other block of the disk changes, and a later \<open>bread\<close> of it gives the new contents.\<close>

theorem bwrite_bread:
  assumes "bc d s {}" and "card (used d s) < 30" and "refs d s n + 1 \<noteq> 0"
  shows "\<exists>b s1 s2 s3 c s4. bread d n s = Inr (b, s1) \<and>
      bwrite b (set_data b v s1) = Inr s2 \<and> brelse b s2 = Inr s3 \<and> bc d s3 {} \<and>
      disk s3 = (disk s)(n := v) \<and> view d s3 = (view d s)(n := v) \<and> refs d s3 = refs d s \<and>
      bread d n s3 = Inr (c, s4) \<and> data (bufs s4 c) = v"
proof -
  obtain b s1 s2 s3 where w: "bread d n s = Inr (b, s1)" "bwrite b (set_data b v s1) = Inr s2"
    "brelse b s2 = Inr s3" "bc d s3 {}" "disk s3 = (disk s)(n := v)" "view d s3 = (view d s)(n := v)"
    "refs d s3 = refs d s"
    using bc_write_block [OF assms] by blast
  have "used d s3 = used d s" using w(7) by (simp add: used_def)
  then obtain c s4 s5 where "bread d n s3 = Inr (c, s4)" "data (bufs s4 c) = view d s3 n"
    using bc_read_block [OF w(4), of n] assms(2,3) w(7) by auto
  with w show ?thesis by auto
qed

theorem bwrite_bread_witness:
  "\<exists>b s1 s2 s3 c s4. bread 1 5 (binit ex_bio) = Inr (b, s1) \<and>
     bwrite b (set_data b (replicate 1024 7) s1) = Inr s2 \<and> brelse b s2 = Inr s3 \<and>
     bread 1 5 s3 = Inr (c, s4) \<and> data (bufs s4 c) = replicate 1024 7"
  using bwrite_bread [of 1 "binit ex_bio" 5 "replicate 1024 7"] ex_bio_bc by auto

end
