(* ===== verification/Layout.thy ===== *)
theory Layout
  imports Memory
begin

text \<open>
  The on-disk format of \<open>kernel/fs.h\<close>: the C structures the kernel overlays on the bytes of
  a block. A field is read with \<open>get16\<close>, \<open>get32\<close> at its offset and written with
  \<open>put16\<close>, \<open>put32\<close>, little endian; \<open>get_superblock\<close>, \<open>get_dinode\<close> and
  \<open>get_dirent\<close> read a whole structure.
\<close>

section \<open>Fields of a byte array\<close>

definition put_bytes :: "nat \<Rightarrow> byte list \<Rightarrow> byte list \<Rightarrow> byte list" where
  "put_bytes k vs bs = take k bs @ vs @ drop (k + length vs) bs"

definition get32 :: "nat \<Rightarrow> byte list \<Rightarrow> u32" where
  "get32 k bs = word_of_bytes (take 4 (drop k bs))"

definition put32 :: "nat \<Rightarrow> u32 \<Rightarrow> byte list \<Rightarrow> byte list" where
  "put32 k v bs = put_bytes k (bytes_of_word 4 v) bs"

definition get16 :: "nat \<Rightarrow> byte list \<Rightarrow> u16" where
  "get16 k bs = word_of_bytes (take 2 (drop k bs))"

definition put16 :: "nat \<Rightarrow> u16 \<Rightarrow> byte list \<Rightarrow> byte list" where
  "put16 k v bs = put_bytes k (bytes_of_word 2 v) bs"

lemma length_put_bytes [simp]: "k + length vs \<le> length bs \<Longrightarrow> length (put_bytes k vs bs) = length bs"
  by (simp add: put_bytes_def)

lemma take_drop_put_bytes:
  "k + length vs \<le> length bs \<Longrightarrow> take (length vs) (drop k (put_bytes k vs bs)) = vs"
  by (simp add: put_bytes_def)

lemma nth_put_bytes:
  "k + length vs \<le> length bs \<Longrightarrow> i < length bs \<Longrightarrow>
   put_bytes k vs bs ! i = (if k \<le> i \<and> i < k + length vs then vs ! (i - k) else bs ! i)"
  by (auto simp: put_bytes_def nth_append)

lemma take_drop_put_other:
  assumes "k + length vs \<le> length bs" and "j + n \<le> k \<or> k + length vs \<le> j"
  shows "take n (drop j (put_bytes k vs bs)) = take n (drop j bs)"
proof (rule nth_equalityI)
  fix i
  assume "i < length (take n (drop j (put_bytes k vs bs)))"
  then show "take n (drop j (put_bytes k vs bs)) ! i = take n (drop j bs) ! i"
    using assms by (auto simp: nth_put_bytes)
qed (use assms in simp)

lemma length_put32 [simp]: "k + 4 \<le> length bs \<Longrightarrow> length (put32 k v bs) = length bs"
  by (simp add: put32_def)

lemma length_put16 [simp]: "k + 2 \<le> length bs \<Longrightarrow> length (put16 k v bs) = length bs"
  by (simp add: put16_def)

lemma get32_put32 [simp]: "k + 4 \<le> length bs \<Longrightarrow> get32 k (put32 k v bs) = v"
  using take_drop_put_bytes [of k "bytes_of_word 4 v" bs]
  by (simp add: get32_def put32_def word_of_bytes_of_word)

lemma get32_put32_other [simp]:
  "k + 4 \<le> length bs \<Longrightarrow> j + 4 \<le> k \<or> k + 4 \<le> j \<Longrightarrow> get32 j (put32 k v bs) = get32 j bs"
  by (simp add: get32_def put32_def take_drop_put_other)

lemma get16_put16 [simp]: "k + 2 \<le> length bs \<Longrightarrow> get16 k (put16 k v bs) = v"
  using take_drop_put_bytes [of k "bytes_of_word 2 v" bs]
  by (simp add: get16_def put16_def word_of_bytes_of_word)

lemma get16_put16_other [simp]:
  "k + 2 \<le> length bs \<Longrightarrow> j + 2 \<le> k \<or> k + 2 \<le> j \<Longrightarrow> get16 j (put16 k v bs) = get16 j bs"
  by (simp add: get16_def put16_def take_drop_put_other)

lemma get16_put32_other [simp]:
  "k + 4 \<le> length bs \<Longrightarrow> j + 2 \<le> k \<or> k + 4 \<le> j \<Longrightarrow> get16 j (put32 k v bs) = get16 j bs"
  by (simp add: get16_def put32_def take_drop_put_other)

lemma get32_put16_other [simp]:
  "k + 2 \<le> length bs \<Longrightarrow> j + 4 \<le> k \<or> k + 2 \<le> j \<Longrightarrow> get32 j (put16 k v bs) = get32 j bs"
  by (simp add: get32_def put16_def take_drop_put_other)

text \<open>An array of 32-bit integers.\<close>

fun put_array :: "nat \<Rightarrow> u32 list \<Rightarrow> byte list \<Rightarrow> byte list" where
  "put_array k [] bs = bs"
| "put_array k (v # vs) bs = put_array (k + 4) vs (put32 k v bs)"

lemma length_put_array [simp]:
  "k + 4 * length vs \<le> length bs \<Longrightarrow> length (put_array k vs bs) = length bs"
  by (induction vs arbitrary: k bs) auto

lemma get32_put_array_other:
  "k + 4 * length vs \<le> length bs \<Longrightarrow> j + 4 \<le> k \<or> k + 4 * length vs \<le> j \<Longrightarrow>
   get32 j (put_array k vs bs) = get32 j bs"
  by (induction vs arbitrary: k bs) auto

lemma get16_put_array_other:
  "k + 4 * length vs \<le> length bs \<Longrightarrow> j + 2 \<le> k \<or> k + 4 * length vs \<le> j \<Longrightarrow>
   get16 j (put_array k vs bs) = get16 j bs"
  by (induction vs arbitrary: k bs) auto

lemma get32_put_array:
  "k + 4 * length vs \<le> length bs \<Longrightarrow> i < length vs \<Longrightarrow> get32 (k + 4 * i) (put_array k vs bs) = vs ! i"
proof (induction vs arbitrary: k bs i)
  case (Cons v vs)
  show ?case
  proof (cases i)
    case 0
    then show ?thesis using Cons.prems by (simp add: get32_put_array_other)
  next
    case (Suc m)
    then show ?thesis using Cons.IH [of "k + 4" "put32 k v bs" m] Cons.prems by (simp add: algebra_simps)
  qed
qed simp

section \<open>The structures\<close>

record superblock =
  sb_magic :: u32
  sb_size :: u32
  sb_nblocks :: u32
  sb_ninodes :: u32
  sb_nlog :: u32
  sb_logstart :: u32
  sb_inodestart :: u32
  sb_bmapstart :: u32

abbreviation (input) FSMAGIC :: u32 where "FSMAGIC \<equiv> 0x10203040"

definition get_superblock :: "byte list \<Rightarrow> superblock" where
  "get_superblock bs = \<lparr>sb_magic = get32 0 bs, sb_size = get32 4 bs, sb_nblocks = get32 8 bs,
     sb_ninodes = get32 12 bs, sb_nlog = get32 16 bs, sb_logstart = get32 20 bs,
     sb_inodestart = get32 24 bs, sb_bmapstart = get32 28 bs\<rparr>"

definition put_superblock :: "superblock \<Rightarrow> byte list \<Rightarrow> byte list" where
  "put_superblock sb bs = put_array 0 [sb_magic sb, sb_size sb, sb_nblocks sb, sb_ninodes sb,
     sb_nlog sb, sb_logstart sb, sb_inodestart sb, sb_bmapstart sb] bs"

text \<open>An inode on the disk takes 64 bytes, so \<open>IPB\<close> is 16 and a block of the bitmap has
  8192 bits.\<close>

abbreviation (input) NDIRECT :: nat where "NDIRECT \<equiv> 12"
abbreviation (input) NINDIRECT :: nat where "NINDIRECT \<equiv> 256"
abbreviation (input) MAXFILE :: nat where "MAXFILE \<equiv> 268"

record dinode =
  di_type :: u16
  di_major :: u16
  di_minor :: u16
  di_nlink :: u16
  di_size :: u32
  di_addrs :: "u32 list"

definition get_dinode :: "nat \<Rightarrow> byte list \<Rightarrow> dinode" where
  "get_dinode k bs = \<lparr>di_type = get16 k bs, di_major = get16 (k + 2) bs, di_minor = get16 (k + 4) bs,
     di_nlink = get16 (k + 6) bs, di_size = get32 (k + 8) bs,
     di_addrs = map (\<lambda>i. get32 (k + 12 + 4 * i) bs) [0..<NDIRECT + 1]\<rparr>"

definition put_dinode :: "nat \<Rightarrow> dinode \<Rightarrow> byte list \<Rightarrow> byte list" where
  "put_dinode k x bs =
     put_array (k + 12) (di_addrs x)
       (put32 (k + 8) (di_size x)
         (put16 (k + 6) (di_nlink x)
           (put16 (k + 4) (di_minor x) (put16 (k + 2) (di_major x) (put16 k (di_type x) bs)))))"

definition IBLOCK :: "u32 \<Rightarrow> superblock \<Rightarrow> u32" where
  "IBLOCK i sb = i div 16 + sb_inodestart sb"

definition BBLOCK :: "u32 \<Rightarrow> superblock \<Rightarrow> u32" where
  "BBLOCK b sb = b div 8192 + sb_bmapstart sb"

abbreviation (input) DIRSIZ :: nat where "DIRSIZ \<equiv> 14"

record dirent =
  de_inum :: u16
  de_name :: "byte list"

definition get_dirent :: "byte list \<Rightarrow> dirent" where
  "get_dirent bs = \<lparr>de_inum = get16 0 bs, de_name = take DIRSIZ (drop 2 bs)\<rparr>"

definition dirent_bytes :: "dirent \<Rightarrow> byte list" where
  "dirent_bytes e = bytes_of_word 2 (de_inum e) @ de_name e"

section \<open>Round trips\<close>

lemma get_put_superblock:
  assumes "32 \<le> length bs"
  shows "get_superblock (put_superblock sb bs) = sb"
  using assms by (cases sb) (simp add: get_superblock_def put_superblock_def)

lemma get_put_dinode:
  assumes "k + 64 \<le> length bs" and "length (di_addrs x) = 13"
  shows "get_dinode k (put_dinode k x bs) = x"
proof -
  have "map (\<lambda>i. get32 (k + 12 + 4 * i) (put_dinode k x bs)) [0..<13] = di_addrs x"
    using assms by (intro nth_equalityI) (simp_all add: put_dinode_def get32_put_array del: upt_Suc)
  then show ?thesis
    using assms
    by (cases x) (simp add: get_dinode_def get16_put_array_other get32_put_array_other put_dinode_def del: upt_Suc)
qed

lemma length_put_dinode [simp]:
  "k + 64 \<le> length bs \<Longrightarrow> length (di_addrs x) = 13 \<Longrightarrow> length (put_dinode k x bs) = length bs"
  by (simp add: put_dinode_def)

lemma get_put_dinode_other:
  assumes "k + 64 \<le> length bs" and "length (di_addrs x) = 13" and "j + 64 \<le> k \<or> k + 64 \<le> j"
  shows "get_dinode j (put_dinode k x bs) = get_dinode j bs"
  using assms
  by (auto simp: get_dinode_def put_dinode_def get16_put_array_other get32_put_array_other simp del: upt_Suc)

lemma get_dirent_bytes:
  "length (de_name e) = 14 \<Longrightarrow> get_dirent (dirent_bytes e @ bs) = e"
  by (cases e) (simp add: get_dirent_def dirent_bytes_def get16_def word_of_bytes_of_word)

lemma length_dirent_bytes [simp]: "length (de_name e) = 14 \<Longrightarrow> length (dirent_bytes e) = 16"
  by (simp add: dirent_bytes_def)

text \<open>A disk inode written into its 64 bytes of a block is read back, and the
  other inodes of the block are as before.\<close>

theorem dinode_round_trip:
  assumes "length bs = 1024" and "i < 16" and "j < 16" and "length (di_addrs x) = 13"
  shows "get_dinode (64 * j) (put_dinode (64 * i) x bs) = (if j = i then x else get_dinode (64 * j) bs)"
proof (cases "j = i")
  case True
  then show ?thesis using get_put_dinode [of "64 * i" bs x] assms by simp
next
  case False
  then have "64 * j + 64 \<le> 64 * i \<or> 64 * i + 64 \<le> 64 * j" by auto
  then show ?thesis using get_put_dinode_other [of "64 * i" bs x "64 * j"] assms False by simp
qed

theorem dinode_round_trip_witness:
  "get_dinode 64 (put_dinode 64 \<lparr>di_type = 2, di_major = 0, di_minor = 0, di_nlink = 1, di_size = 1500,
      di_addrs = [46, 47, 0, 0, 0, 0, 0, 0, 0, 0, 0, 0, 0]\<rparr> (replicate 1024 0)) =
    \<lparr>di_type = 2, di_major = 0, di_minor = 0, di_nlink = 1, di_size = 1500,
      di_addrs = [46, 47, 0, 0, 0, 0, 0, 0, 0, 0, 0, 0, 0]\<rparr>"
  using dinode_round_trip [of "replicate 1024 0" 1 1] by simp

end
