(* ===== verification/Log.thy ===== *)
theory Log
  imports BufCache Layout
begin

text \<open>
  \<open>kernel/log.c\<close>, the write-ahead log. The in-memory header \<open>log.lh\<close> is \<open>lh_n\<close> and
  the array \<open>lh_block\<close> of 30 block numbers; an access outside the array is
  \<open>Undefined\<close>. \<open>begin_op\<close> runs until it returns or sleeps. Every function takes and
  returns the whole state, with the buffer cache and the disk below it.
\<close>

section \<open>Definitions\<close>

abbreviation (input) LOGSIZE :: int where "LOGSIZE \<equiv> 30"
abbreviation (input) MAXOPBLOCKS :: int where "MAXOPBLOCKS \<equiv> 10"

record log = bio +
  lstart :: u32
  lsize :: int
  outstanding :: int
  committing :: bool
  ldev :: u32
  lh_n :: int
  lh_block :: "u32 list"

definition log_block :: "nat \<Rightarrow> 'z log_scheme \<Rightarrow> u32 res" where
  "log_block i s = (if i < length (lh_block s) then Inr (lh_block s ! i) else Inl (Undefined ''log.lh.block''))"

text \<open>The bodies of the loops of \<open>install_trans\<close> and \<open>write_log\<close>, for one value of
  \<open>tail\<close>.\<close>

definition install_block :: "nat \<Rightarrow> 'z log_scheme \<Rightarrow> 'z log_scheme res" where
  "install_block tail s =
     bindR (bread (ldev s) (lstart s + of_nat tail + 1) s) (\<lambda>(lbuf, s1).
     bindR (log_block tail s1) (\<lambda>bn.
     bindR (bread (ldev s1) bn s1) (\<lambda>(dbuf, s2).
     bindR (bwrite dbuf (set_data dbuf (data (bufs s2 lbuf)) s2)) (\<lambda>s3.
     bindR (brelse lbuf (bunpin dbuf s3)) (\<lambda>s4.
     brelse dbuf s4)))))"

definition log_one :: "nat \<Rightarrow> 'z log_scheme \<Rightarrow> 'z log_scheme res" where
  "log_one tail s =
     bindR (bread (ldev s) (lstart s + of_nat tail + 1) s) (\<lambda>(to, s1).
     bindR (log_block tail s1) (\<lambda>bn.
     bindR (bread (ldev s1) bn s1) (\<lambda>(from, s2).
     bindR (bwrite to (set_data to (data (bufs s2 from)) s2)) (\<lambda>s3.
     bindR (brelse from s3) (\<lambda>s4.
     brelse to s4)))))"

text \<open>\<open>for(tail = i; tail < i + k; tail++)\<close>\<close>

fun tail_loop :: "(nat \<Rightarrow> 's \<Rightarrow> 's res) \<Rightarrow> nat \<Rightarrow> nat \<Rightarrow> 's \<Rightarrow> 's res" where
  "tail_loop body i 0 s = Inr s"
| "tail_loop body i (Suc k) s = bindR (body i s) (tail_loop body (Suc i) k)"

definition install_trans :: "'z log_scheme \<Rightarrow> 'z log_scheme res" where
  "install_trans s = tail_loop install_block 0 (nat (lh_n s)) s"

definition write_log :: "'z log_scheme \<Rightarrow> 'z log_scheme res" where
  "write_log s = tail_loop log_one 0 (nat (lh_n s)) s"

text \<open>The header block: \<open>n\<close> at offset 0, \<open>block[i]\<close> at offset \<open>4 + 4 * i\<close>.\<close>

fun read_blocks :: "nat \<Rightarrow> nat \<Rightarrow> block \<Rightarrow> u32 list \<Rightarrow> u32 list res" where
  "read_blocks i 0 bs xs = Inr xs"
| "read_blocks i (Suc k) bs xs =
     (if i < length xs then read_blocks (Suc i) k bs (xs[i := get32 (4 + 4 * i) bs])
      else Inl (Undefined ''log.lh.block''))"

definition read_head :: "'z log_scheme \<Rightarrow> 'z log_scheme res" where
  "read_head s =
     bindR (bread (ldev s) (lstart s) s) (\<lambda>(b, s1).
     let bs = data (bufs s1 b); n = sint (get32 0 bs)
     in bindR (read_blocks 0 (nat n) bs (lh_block s1)) (\<lambda>xs.
        brelse b (s1\<lparr>lh_n := n, lh_block := xs\<rparr>)))"

fun write_blocks :: "nat \<Rightarrow> nat \<Rightarrow> u32 list \<Rightarrow> block \<Rightarrow> block res" where
  "write_blocks i 0 xs bs = Inr bs"
| "write_blocks i (Suc k) xs bs =
     (if i < length xs then write_blocks (Suc i) k xs (put32 (4 + 4 * i) (xs ! i) bs)
      else Inl (Undefined ''log.lh.block''))"

definition write_head :: "'z log_scheme \<Rightarrow> 'z log_scheme res" where
  "write_head s =
     bindR (bread (ldev s) (lstart s) s) (\<lambda>(b, s1).
     bindR (write_blocks 0 (nat (lh_n s1)) (lh_block s1)
              (put32 0 (word_of_int (lh_n s1)) (data (bufs s1 b)))) (\<lambda>bs.
     bindR (bwrite b (set_data b bs s1)) (brelse b)))"

definition recover_from_log :: "'z log_scheme \<Rightarrow> 'z log_scheme res" where
  "recover_from_log s =
     bindR (read_head s) (\<lambda>s1. bindR (install_trans s1) (\<lambda>s2. write_head (s2\<lparr>lh_n := 0\<rparr>)))"

text \<open>\<open>sizeof(struct logheader)\<close> is \<open>4 + 4 * LOGSIZE\<close>, below \<open>BSIZE\<close>.\<close>

definition initlog :: "u32 \<Rightarrow> superblock \<Rightarrow> 'z log_scheme \<Rightarrow> 'z log_scheme res" where
  "initlog d sb s =
     (if (4::nat) + 4 * 30 \<ge> BSIZE then Inl (Panic ''initlog: too big logheader'')
      else recover_from_log (s\<lparr>lstart := sb_logstart sb, lsize := sint (sb_nlog sb), ldev := d\<rparr>))"

definition begin_op :: "'z log_scheme \<Rightarrow> 'z log_scheme res" where
  "begin_op s =
     (if committing s then Inl (Sleeps ''log'')
      else if lh_n s + (outstanding s + 1) * MAXOPBLOCKS > LOGSIZE then Inl (Sleeps ''log'')
      else Inr (s\<lparr>outstanding := outstanding s + 1\<rparr>))"

definition commit :: "'z log_scheme \<Rightarrow> 'z log_scheme res" where
  "commit s =
     (if lh_n s > 0
      then bindR (write_log s) (\<lambda>s1. bindR (write_head s1) (\<lambda>s2. bindR (install_trans s2) (\<lambda>s3.
           write_head (s3\<lparr>lh_n := 0\<rparr>))))
      else Inr s)"

text \<open>\<open>end_op\<close> up to the first release of the lock, with \<open>do_commit\<close>, and after
  \<open>commit\<close>.\<close>

definition end_op_enter :: "'z log_scheme \<Rightarrow> (bool \<times> 'z log_scheme) res" where
  "end_op_enter s =
     (let s1 = s\<lparr>outstanding := outstanding s - 1\<rparr>
      in if committing s1 then Inl (Panic ''log.committing'')
         else if outstanding s1 = 0 then Inr (True, s1\<lparr>committing := True\<rparr>)
         else Inr (False, s1))"

definition end_op_leave :: "'z log_scheme \<Rightarrow> 'z log_scheme" where
  "end_op_leave s = s\<lparr>committing := False\<rparr>"

definition end_op :: "'z log_scheme \<Rightarrow> 'z log_scheme res" where
  "end_op s =
     bindR (end_op_enter s) (\<lambda>(do_commit, s1).
       if do_commit then bindR (commit s1) (\<lambda>s2. Inr (end_op_leave s2)) else Inr s1)"

text \<open>The search of \<open>log_write\<close> for the block, from index \<open>i\<close>.\<close>

fun find_logged :: "nat \<Rightarrow> nat \<Rightarrow> u32 \<Rightarrow> u32 list \<Rightarrow> nat" where
  "find_logged i 0 bn xs = i"
| "find_logged i (Suc k) bn xs = (if xs ! i = bn then i else find_logged (Suc i) k bn xs)"

definition log_write :: "nat \<Rightarrow> 'z log_scheme \<Rightarrow> 'z log_scheme res" where
  "log_write b s =
     (if lh_n s \<ge> LOGSIZE \<or> lh_n s \<ge> lsize s - 1 then Inl (Panic ''too big a transaction'')
      else if outstanding s < 1 then Inl (Panic ''log_write outside of trans'')
      else let bn = blockno (bufs s b);
               i = find_logged 0 (nat (lh_n s)) bn (lh_block s);
               s1 = s\<lparr>lh_block := (lh_block s)[i := bn]\<rparr>
           in Inr (if int i = lh_n s1 then (bpin b s1)\<lparr>lh_n := lh_n s1 + 1\<rparr> else s1))"

section \<open>Sequences of block writes\<close>

fun apply_writes :: "(u32 \<times> block) list \<Rightarrow> (u32 \<Rightarrow> block) \<Rightarrow> u32 \<Rightarrow> block" where
  "apply_writes [] f = f"
| "apply_writes ((n, v) # ws) f = apply_writes ws (f(n := v))"

lemma apply_writes_append [simp]: "apply_writes (ws @ ws') f = apply_writes ws' (apply_writes ws f)"
  by (induction ws arbitrary: f) (auto simp del: fun_upd_apply)

lemma apply_writes_other: "n \<notin> fst ` set ws \<Longrightarrow> apply_writes ws f n = f n"
  by (induction ws f rule: apply_writes.induct) auto

lemma apply_writes_in:
  "distinct (map fst ws) \<Longrightarrow> (n, v) \<in> set ws \<Longrightarrow> apply_writes ws f n = v"
  by (induction ws arbitrary: f) (auto simp: apply_writes_other image_iff)

section \<open>The log's state above the buffer cache\<close>

lemma bio_only_log:
  assumes "bio_only s s'"
  shows "lstart s' = lstart s" "lsize s' = lsize s" "outstanding s' = outstanding s"
    "committing s' = committing s" "ldev s' = ldev s" "lh_n s' = lh_n s" "lh_block s' = lh_block s"
  using assms by (auto simp: bio_only_def)

lemma bio_only_header:
  "bio_only s s1 \<Longrightarrow> bio_only (s\<lparr>lh_n := n, lh_block := xs\<rparr>) (s1\<lparr>lh_n := n, lh_block := xs\<rparr>)"
  unfolding bio_only_def
proof (elim exE)
  fix bs dk dw
  assume "s1 = s\<lparr>bufs := bs, disk := dk, dwrites := dw\<rparr>"
  then have "s1\<lparr>lh_n := n, lh_block := xs\<rparr> =
      s\<lparr>lh_n := n, lh_block := xs, bufs := bs, disk := dk, dwrites := dw\<rparr>"
    by (cases s) simp
  then show "\<exists>bs dk dw. s1\<lparr>lh_n := n, lh_block := xs\<rparr> =
      s\<lparr>lh_n := n, lh_block := xs, bufs := bs, disk := dk, dwrites := dw\<rparr>"
    by blast
qed

lemma cbuf_cong: "bufs s = bufs s' \<Longrightarrow> cbuf d s n = cbuf d s' n"
  by (simp add: cbuf_def)

lemma bio_cong:
  assumes "bufs s = bufs s'" and "disk s = disk s'" and "mypid s = mypid s'"
  shows "bc d s H = bc d s' H" "view d s = view d s'" "refs d s = refs d s'" "used d s = used d s'"
    "cached s = cached s'"
  by (auto simp: bc_def bio_inv_def view_def refs_def used_def cached_def assms fun_eq_iff
      cbuf_cong [OF assms(1)] cong: option.case_cong if_cong)

lemma bc_log_update [simp]:
  "bc d (s\<lparr>lh_n := n\<rparr>) H = bc d s H" "view d (s\<lparr>lh_n := n\<rparr>) = view d s"
  "refs d (s\<lparr>lh_n := n\<rparr>) = refs d s" "used d (s\<lparr>lh_n := n\<rparr>) = used d s" "cached (s\<lparr>lh_n := n\<rparr>) = cached s"
  "bc d (s\<lparr>lh_block := xs\<rparr>) H = bc d s H" "view d (s\<lparr>lh_block := xs\<rparr>) = view d s"
  "refs d (s\<lparr>lh_block := xs\<rparr>) = refs d s" "used d (s\<lparr>lh_block := xs\<rparr>) = used d s"
  "cached (s\<lparr>lh_block := xs\<rparr>) = cached s"
  by (rule bio_cong; simp)+

section \<open>One iteration of the copying loops\<close>

lemma card_insert_used: "card (insert n A) < k \<Longrightarrow> finite A \<Longrightarrow> card A < k"
  by (cases "n \<in> A") (auto simp: insert_absorb)

lemma used_upd: "refs d s' = (refs d s)(n := r) \<Longrightarrow> used d s' \<subseteq> insert n (used d s)"
  by (auto simp: used_def)

lemma copy_reads:
  assumes bc: "bc d s {}" and ne: "l \<noteq> h" and l: "refs d s l = 0" and h: "refs d s h + 1 \<noteq> 0"
    and room: "card (insert h (used d s)) < 30"
  shows "\<exists>b1 s1 b2 s2. bread d l s = Inr (b1, s1) \<and> bread d h s1 = Inr (b2, s2) \<and> bio_only s s1 \<and>
      bio_only s s2 \<and> bc d s2 {l, h} \<and> cached s2 d l b1 \<and> cached s2 d h b2 \<and> view d s2 = view d s \<and>
      refs d s2 = (refs d s)(l := 1, h := refs d s h + 1) \<and> disk s2 = disk s \<and> dwrites s2 = dwrites s"
proof -
  have fin: "finite (used d s)" by (rule finite_used)
  have room1: "card (used d s) < 30" using room fin by (rule card_insert_used)
  obtain b1 s1 where r1: "bread d l s = Inr (b1, s1)" "bc d s1 {l}" "cached s1 d l b1" "view d s1 = view d s"
      "refs d s1 = (refs d s)(l := 1)" "bio_only s s1" "disk s1 = disk s" "dwrites s1 = dwrites s"
    using bc_bread [OF bc, of l] l room1 by auto
  have "refs d s1 h \<noteq> 0 \<or> card (used d s1) < 30"
  proof (cases "refs d s h = 0")
    case True
    then have "h \<notin> used d s" by (simp add: used_def)
    then have "card (used d s) < 29" using room fin by simp
    moreover have "l \<notin> used d s" using l by (simp add: used_def)
    moreover have "used d s1 \<subseteq> insert l (used d s)" using r1(5) by (rule used_upd)
    ultimately have "card (used d s1) < 30" using card_mono [of "insert l (used d s)" "used d s1"] fin by auto
    then show ?thesis ..
  qed (use r1 ne in simp)
  then obtain b2 s2 where r2: "bread d h s1 = Inr (b2, s2)" "bc d s2 {h, l}" "cached s2 d h b2"
      "view d s2 = view d s1" "refs d s2 = (refs d s1)(h := refs d s1 h + 1)" "keeps d s1 {l} s2"
      "bio_only s1 s2" "disk s2 = disk s1" "dwrites s2 = dwrites s1"
    using bc_bread [OF r1(2), of h] r1(5) h ne by auto
  show ?thesis
    using r1 r2 keepsD [OF r2(6) _ r1(3)] ne bio_only_trans [OF r1(6) r2(7)] by (auto simp: insert_commute)
qed

lemma install_block_spec:
  assumes bc: "bc d s {}" and d: "ldev s = d" and t: "tail < length (lh_block s)"
  defines "l \<equiv> lstart s + of_nat tail + 1" and "h \<equiv> lh_block s ! tail"
  assumes ne: "l \<noteq> h" and l: "refs d s l = 0" and h: "refs d s h + 1 \<noteq> 0"
    and room: "card (insert h (used d s)) < 30"
  shows "\<exists>s'. install_block tail s = Inr s' \<and> bc d s' {} \<and> bio_only s s' \<and>
      view d s' = (view d s)(h := view d s l) \<and> disk s' = (disk s)(h := view d s l) \<and>
      refs d s' = (refs d s)(h := refs d s h - 1) \<and> dwrites s' = dwrites s @ [(h, view d s l)]"
proof -
  obtain b1 s1 b2 s2 where r: "bread d l s = Inr (b1, s1)" "bread d h s1 = Inr (b2, s2)"
      "bio_only s s1" "bio_only s s2" "bc d s2 {l, h}" "cached s2 d l b1" "cached s2 d h b2"
      "view d s2 = view d s" "refs d s2 = (refs d s)(l := 1, h := refs d s h + 1)" "disk s2 = disk s"
      "dwrites s2 = dwrites s"
    using copy_reads [OF bc ne l h room] by blast
  let ?s3 = "set_data b2 (data (bufs s2 b1)) s2"
  have v: "data (bufs s2 b1) = view d s l" using bc_data(1) [OF r(5) _ r(6)] r(8) by simp
  have "refs d s2 h \<noteq> 0" using r(9) h by simp
  note sd = bc_set_data [OF r(5) _ r(7) this, of "data (bufs s2 b1)", simplified, unfolded v]
  obtain s4 where w: "bwrite b2 (set_data b2 (view d s l) s2) = Inr s4" "bc d s4 {l, h}"
      "view d s4 = (view d s)(h := view d s l)" "refs d s4 = (refs d s)(l := 1, h := refs d s h + 1)"
      "keeps d (set_data b2 (view d s l) s2) {l, h} s4" "bio_only (set_data b2 (view d s l) s2) s4"
      "disk s4 = (disk s)(h := view d s l)" "dwrites s4 = dwrites s @ [(h, view d s l)]"
    using bc_bwrite [OF sd(1) _ keepsD [OF sd(4) _ r(7)]] sd r by auto
  have c4: "cached s4 d l b1" "cached s4 d h b2"
    using keepsD [OF w(5)] keepsD [OF sd(4)] r(6,7) by blast+
  note u = bc_bunpin [OF w(2) _ c4(2), simplified w(3,7) fun_upd_same, simplified]
  have c5: "cached (bunpin b2 s4) d l b1" "cached (bunpin b2 s4) d h b2" using keepsD [OF u(4)] c4 by blast+
  have "view d (bunpin b2 s4) l = disk (bunpin b2 s4) l"
    using u w ne bc_view_clean [OF bc l] by simp
  moreover have "(refs d s)(l := 0) = refs d s" using l by auto
  ultimately obtain s5 where q: "brelse b1 (bunpin b2 s4) = Inr s5" "bc d s5 {h}"
      "view d s5 = (view d s)(h := view d s l)" "refs d s5 = refs d s" "keeps d (bunpin b2 s4) {h} s5"
      "bio_only (bunpin b2 s4) s5" "disk s5 = (disk s)(h := view d s l)" "dwrites s5 = dwrites s4"
    using bc_brelse [OF u(1) _ c5(1)] u w(4) ne by (auto simp: insert_Diff_if)
  obtain s6 where p: "brelse b2 s5 = Inr s6" "bc d s6 {}" "view d s6 = (view d s)(h := view d s l)"
      "refs d s6 = (refs d s)(h := refs d s h - 1)" "bio_only s5 s6" "disk s6 = (disk s)(h := view d s l)"
      "dwrites s6 = dwrites s4"
    using bc_brelse [OF q(2) _ keepsD [OF q(5) _ c5(2)]] q w by auto
  have "bio_only s s6"
    using r(4) sd(5) w(6) u(5) q(6) p(5) by (blast intro: bio_only_trans)
  then show ?thesis
    using r w q p t d bio_only_log [OF r(3)] v
    by (simp add: install_block_def log_block_def l_def [symmetric] h_def [symmetric])
qed

lemma log_one_spec:
  assumes bc: "bc d s {}" and d: "ldev s = d" and t: "tail < length (lh_block s)"
  defines "l \<equiv> lstart s + of_nat tail + 1" and "h \<equiv> lh_block s ! tail"
  assumes ne: "l \<noteq> h" and l: "refs d s l = 0" and h: "refs d s h + 1 \<noteq> 0"
    and room: "card (insert h (used d s)) < 30"
  shows "\<exists>s'. log_one tail s = Inr s' \<and> bc d s' {} \<and> bio_only s s' \<and>
      view d s' = (view d s)(l := view d s h) \<and> disk s' = (disk s)(l := view d s h) \<and>
      refs d s' = refs d s \<and> dwrites s' = dwrites s @ [(l, view d s h)]"
proof -
  obtain b1 s1 b2 s2 where r: "bread d l s = Inr (b1, s1)" "bread d h s1 = Inr (b2, s2)"
      "bio_only s s1" "bio_only s s2" "bc d s2 {l, h}" "cached s2 d l b1" "cached s2 d h b2"
      "view d s2 = view d s" "refs d s2 = (refs d s)(l := 1, h := refs d s h + 1)" "disk s2 = disk s"
      "dwrites s2 = dwrites s"
    using copy_reads [OF bc ne l h room] by blast
  have v: "data (bufs s2 b2) = view d s h" using bc_data(1) [OF r(5) _ r(7)] r(8) by simp
  have "refs d s2 l \<noteq> 0" using r(9) ne by simp
  note sd = bc_set_data [OF r(5) _ r(6) this, of "data (bufs s2 b2)", simplified, unfolded v]
  obtain s4 where w: "bwrite b1 (set_data b1 (view d s h) s2) = Inr s4" "bc d s4 {l, h}"
      "view d s4 = (view d s)(l := view d s h)" "refs d s4 = (refs d s)(l := 1, h := refs d s h + 1)"
      "keeps d (set_data b1 (view d s h) s2) {l, h} s4" "bio_only (set_data b1 (view d s h) s2) s4"
      "disk s4 = (disk s)(l := view d s h)" "dwrites s4 = dwrites s @ [(l, view d s h)]"
    using bc_bwrite [OF sd(1) _ keepsD [OF sd(4) _ r(6)]] sd r by auto
  have c4: "cached s4 d l b1" "cached s4 d h b2"
    using keepsD [OF w(5)] keepsD [OF sd(4)] r(6,7) by blast+
  have "refs d s4 h \<noteq> 1 \<or> view d s4 h = disk s4 h"
    using w ne bc_view_clean [OF bc, of h] by auto
  then obtain s5 where q: "brelse b2 s4 = Inr s5" "bc d s5 {l}" "view d s5 = view d s4"
      "refs d s5 = (refs d s)(l := 1, h := refs d s h)" "keeps d s4 {l} s5" "bio_only s4 s5"
      "disk s5 = disk s4" "dwrites s5 = dwrites s4"
    using bc_brelse [OF w(2) _ c4(2)] w(4) ne by (auto simp: insert_Diff_if)
  have "(refs d s)(l := 0, h := refs d s h) = refs d s" using l by auto
  then obtain s6 where p: "brelse b1 s5 = Inr s6" "bc d s6 {}" "view d s6 = (view d s)(l := view d s h)"
      "refs d s6 = refs d s" "bio_only s5 s6" "disk s6 = (disk s)(l := view d s h)" "dwrites s6 = dwrites s4"
    using bc_brelse [OF q(2) _ keepsD [OF q(5) _ c4(1)]] q w ne by (auto simp: fun_upd_twist)
  have "bio_only s s6"
    using r(4) sd(5) w(6) q(6) p(5) by (blast intro: bio_only_trans)
  then show ?thesis
    using r w q p t d bio_only_log [OF r(3)] v
    by (simp add: log_one_def log_block_def l_def [symmetric] h_def [symmetric])
qed

section \<open>The copying loops\<close>

text \<open>The blocks of the log area that hold the transaction, from index \<open>i\<close>.\<close>

definition log_slots :: "u32 \<Rightarrow> nat \<Rightarrow> nat \<Rightarrow> u32 list" where
  "log_slots st i k = map (\<lambda>j. st + of_nat j + 1) [i..<i + k]"

lemma log_slots_Suc: "log_slots st i (Suc k) = (st + of_nat i + 1) # log_slots st (Suc i) k"
  by (simp add: log_slots_def upt_conv_Cons del: upt_Suc)

lemma length_log_slots [simp]: "length (log_slots st i k) = k"
  by (simp add: log_slots_def)

lemma set_log_slots: "set (log_slots st i k) = {st + of_nat j + 1 | j. i \<le> j \<and> j < i + k}"
  by (auto simp: log_slots_def)

lemma of_nat_u32_inj: "of_nat i = (of_nat j :: u32) \<Longrightarrow> i < 4294967296 \<Longrightarrow> j < 4294967296 \<Longrightarrow> i = j"
proof -
  assume e: "of_nat i = (of_nat j :: u32)" and l: "i < 4294967296" "j < 4294967296"
  have "unat (of_nat i :: u32) = i" "unat (of_nat j :: u32) = j" using l by (simp_all add: unat_of_nat_le)
  then show "i = j" unfolding e by (rule trans [OF sym])
qed

lemma distinct_log_slots: "i + k \<le> 1000 \<Longrightarrow> distinct (log_slots st i k)"
  unfolding log_slots_def distinct_map by (auto intro!: inj_onI dest!: of_nat_u32_inj)

lemma slot_ne_start: "j < 1000 \<Longrightarrow> st + of_nat j + 1 \<noteq> (st :: u32)"
proof
  assume j: "j < 1000" and e: "st + of_nat j + 1 = st"
  have "of_nat (Suc j) = (of_nat 0 :: u32)" using e by (simp add: add.assoc add.commute)
  from of_nat_u32_inj [OF this] j show False by simp
qed

text \<open>What a copying loop over the remaining home blocks needs.\<close>

definition copy_ok :: "u32 \<Rightarrow> 'z log_scheme \<Rightarrow> nat \<Rightarrow> nat \<Rightarrow> bool" where
  "copy_ok d s i k \<longleftrightarrow>
     bc d s {} \<and> ldev s = d \<and> i + k \<le> length (lh_block s) \<and> i + k \<le> 30 \<and>
     distinct (take k (drop i (lh_block s))) \<and>
     set (take k (drop i (lh_block s))) \<inter> set (log_slots (lstart s) i k) = {} \<and>
     (\<forall>l\<in>set (log_slots (lstart s) i k). refs d s l = 0) \<and>
     (\<forall>h\<in>set (take k (drop i (lh_block s))). refs d s h + 1 \<noteq> 0) \<and>
     card (used d s \<union> set (take k (drop i (lh_block s)))) < 30"

lemma copy_okD:
  assumes ok: "copy_ok d s i (Suc k)"
  defines "l \<equiv> lstart s + of_nat i + 1" and "h \<equiv> lh_block s ! i"
  shows "bc d s {}" "ldev s = d" "i < length (lh_block s)" "l \<noteq> h" "refs d s l = 0" "refs d s h + 1 \<noteq> 0"
    "card (insert h (used d s)) < 30"
    "take (Suc k) (drop i (lh_block s)) = h # take k (drop (Suc i) (lh_block s))"
    "log_slots (lstart s) i (Suc k) = l # log_slots (lstart s) (Suc i) k"
    "h \<notin> set (take k (drop (Suc i) (lh_block s)))" "h \<notin> set (log_slots (lstart s) (Suc i) k)"
    "l \<notin> set (take k (drop (Suc i) (lh_block s)))"
proof -
  let ?rest = "take k (drop (Suc i) (lh_block s))"
  show i: "i < length (lh_block s)" "bc d s {}" "ldev s = d" using ok by (auto simp: copy_ok_def)
  show hd: "take (Suc k) (drop i (lh_block s)) = h # ?rest"
    using i by (simp add: h_def Cons_nth_drop_Suc [symmetric])
  show sl: "log_slots (lstart s) i (Suc k) = l # log_slots (lstart s) (Suc i) k"
    by (simp add: log_slots_Suc l_def)
  show "l \<noteq> h" "refs d s l = 0" "refs d s h + 1 \<noteq> 0" "h \<notin> set ?rest"
    "h \<notin> set (log_slots (lstart s) (Suc i) k)" "l \<notin> set ?rest"
    using ok unfolding copy_ok_def hd sl by auto
  have "card (insert h (used d s)) \<le> card (used d s \<union> set (h # ?rest))"
    by (rule card_mono) (auto simp: finite_used)
  then show "card (insert h (used d s)) < 30" using ok unfolding copy_ok_def hd by linarith
qed

lemma copy_ok_step:
  assumes ok: "copy_ok d s i (Suc k)" and bc: "bc d s' {}" and o: "bio_only s s'"
    and r: "\<And>n. n \<noteq> lh_block s ! i \<Longrightarrow> refs d s' n = refs d s n"
  shows "copy_ok d s' (Suc i) k"
proof -
  let ?h = "lh_block s ! i" and ?rest = "take k (drop (Suc i) (lh_block s))"
  note D = copy_okD [OF ok] and lf = bio_only_log [OF o]
  have "used d s' \<union> set ?rest \<subseteq> used d s \<union> set (take (Suc k) (drop i (lh_block s)))"
    unfolding D(8) using r by (auto simp: used_def)
  then have "card (used d s' \<union> set ?rest) \<le> card (used d s \<union> set (take (Suc k) (drop i (lh_block s))))"
    by (rule card_mono [rotated]) (simp add: finite_used)
  then have c1: "card (used d s' \<union> set ?rest) < 30" using ok by (simp add: copy_ok_def)
  have e: "refs d s' n = refs d s n" if "n \<in> set ?rest \<union> set (log_slots (lstart s) (Suc i) k)" for n
    using that D(10,11) by (intro r) auto
  have c2: "\<forall>l\<in>set (log_slots (lstart s) (Suc i) k). refs d s' l = 0"
    using e ok unfolding copy_ok_def D(9) by simp
  have c3: "\<forall>h\<in>set ?rest. refs d s' h + 1 \<noteq> 0"
    using e ok unfolding copy_ok_def D(8) by simp
  have c4: "distinct ?rest" "set ?rest \<inter> set (log_slots (lstart s) (Suc i) k) = {}"
      "Suc i + k \<le> length (lh_block s)" "Suc i + k \<le> 30"
    using ok unfolding copy_ok_def D(8,9) by auto
  show ?thesis unfolding copy_ok_def lf by (intro conjI bc D(2) c1 c2 c3 c4)
qed

lemma install_loop:
  assumes "copy_ok d s i k"
  defines "hs \<equiv> take k (drop i (lh_block s))"
  defines "ws \<equiv> zip hs (map (view d s) (log_slots (lstart s) i k))"
  shows "\<exists>s'. tail_loop install_block i k s = Inr s' \<and> bc d s' {} \<and> bio_only s s' \<and>
      view d s' = apply_writes ws (view d s) \<and> disk s' = apply_writes ws (disk s) \<and>
      dwrites s' = dwrites s @ ws \<and> refs d s' = (\<lambda>n. refs d s n - of_bool (n \<in> set hs))"
  using assms(1) unfolding ws_def hs_def
proof (induction k arbitrary: i s)
  case 0
  then show ?case by (auto simp: copy_ok_def)
next
  case (Suc k)
  note D = copy_okD [OF Suc.prems]
  let ?l = "lstart s + of_nat i + 1" and ?h = "lh_block s ! i" and ?rest = "take k (drop (Suc i) (lh_block s))"
    and ?slots = "log_slots (lstart s) (Suc i) k"
  obtain s1 where s1: "install_block i s = Inr s1" "bc d s1 {}" "bio_only s s1"
      "view d s1 = (view d s)(?h := view d s ?l)" "disk s1 = (disk s)(?h := view d s ?l)"
      "refs d s1 = (refs d s)(?h := refs d s ?h - 1)" "dwrites s1 = dwrites s @ [(?h, view d s ?l)]"
    using install_block_spec [OF D(1-7)] by blast
  note lf = bio_only_log [OF s1(3)]
  have "copy_ok d s1 (Suc i) k" using copy_ok_step [OF Suc.prems s1(2,3)] s1(6) by simp
  from Suc.IH [OF this] have IH: "\<exists>s'. tail_loop install_block (Suc i) k s1 = Inr s' \<and> bc d s' {} \<and> bio_only s1 s' \<and>
      view d s' = apply_writes (zip ?rest (map (view d s1) ?slots)) (view d s1) \<and>
      disk s' = apply_writes (zip ?rest (map (view d s1) ?slots)) (disk s1) \<and>
      dwrites s' = dwrites s1 @ zip ?rest (map (view d s1) ?slots) \<and>
      refs d s' = (\<lambda>n. refs d s1 n - of_bool (n \<in> set ?rest))"
    unfolding lf .
  have e: "map (view d s1) ?slots = map (view d s) ?slots"
    using D(11) s1(4) by (auto simp: map_eq_conv)
  have f: "(\<lambda>n. refs d s1 n - of_bool (n \<in> set ?rest)) = (\<lambda>n. refs d s n - of_bool (n \<in> set (?h # ?rest)))"
    using D(10) s1(6) by (auto simp: fun_eq_iff)
  obtain s2 where "tail_loop install_block (Suc i) k s1 = Inr s2" "bc d s2 {}" "bio_only s1 s2"
      "view d s2 = apply_writes (zip ?rest (map (view d s) ?slots)) (view d s1)"
      "disk s2 = apply_writes (zip ?rest (map (view d s) ?slots)) (disk s1)"
      "dwrites s2 = dwrites s1 @ zip ?rest (map (view d s) ?slots)"
      "refs d s2 = (\<lambda>n. refs d s n - of_bool (n \<in> set (?h # ?rest)))"
    using IH unfolding e f by blast
  with s1 bio_only_trans [OF s1(3), of s2] show ?case
    unfolding D(8,9) by (intro exI [of _ s2]) (simp del: fun_upd_apply)
qed

lemma write_loop:
  assumes "copy_ok d s i k"
  defines "hs \<equiv> take k (drop i (lh_block s))"
  defines "ws \<equiv> zip (log_slots (lstart s) i k) (map (view d s) hs)"
  shows "\<exists>s'. tail_loop log_one i k s = Inr s' \<and> bc d s' {} \<and> bio_only s s' \<and>
      view d s' = apply_writes ws (view d s) \<and> disk s' = apply_writes ws (disk s) \<and>
      dwrites s' = dwrites s @ ws \<and> refs d s' = refs d s"
  using assms(1) unfolding ws_def hs_def
proof (induction k arbitrary: i s)
  case 0
  then show ?case by (auto simp: copy_ok_def)
next
  case (Suc k)
  note D = copy_okD [OF Suc.prems]
  let ?l = "lstart s + of_nat i + 1" and ?h = "lh_block s ! i" and ?rest = "take k (drop (Suc i) (lh_block s))"
    and ?slots = "log_slots (lstart s) (Suc i) k"
  obtain s1 where s1: "log_one i s = Inr s1" "bc d s1 {}" "bio_only s s1"
      "view d s1 = (view d s)(?l := view d s ?h)" "disk s1 = (disk s)(?l := view d s ?h)"
      "refs d s1 = refs d s" "dwrites s1 = dwrites s @ [(?l, view d s ?h)]"
    using log_one_spec [OF D(1-7)] by blast
  note lf = bio_only_log [OF s1(3)]
  have "copy_ok d s1 (Suc i) k" using copy_ok_step [OF Suc.prems s1(2,3)] s1(6) by simp
  from Suc.IH [OF this] have IH: "\<exists>s'. tail_loop log_one (Suc i) k s1 = Inr s' \<and> bc d s' {} \<and> bio_only s1 s' \<and>
      view d s' = apply_writes (zip ?slots (map (view d s1) ?rest)) (view d s1) \<and>
      disk s' = apply_writes (zip ?slots (map (view d s1) ?rest)) (disk s1) \<and>
      dwrites s' = dwrites s1 @ zip ?slots (map (view d s1) ?rest) \<and> refs d s' = refs d s1"
    unfolding lf .
  have e: "map (view d s1) ?rest = map (view d s) ?rest"
    using D(12) s1(4) by (auto simp: map_eq_conv)
  obtain s2 where "tail_loop log_one (Suc i) k s1 = Inr s2" "bc d s2 {}" "bio_only s1 s2"
      "view d s2 = apply_writes (zip ?slots (map (view d s) ?rest)) (view d s1)"
      "disk s2 = apply_writes (zip ?slots (map (view d s) ?rest)) (disk s1)"
      "dwrites s2 = dwrites s1 @ zip ?slots (map (view d s) ?rest)" "refs d s2 = refs d s1"
    using IH unfolding e by blast
  with s1 bio_only_trans [OF s1(3), of s2] show ?case
    unfolding D(8,9) by (intro exI [of _ s2]) (simp del: fun_upd_apply)
qed

section \<open>The header block\<close>

definition header :: "int \<Rightarrow> u32 list \<Rightarrow> block \<Rightarrow> block" where
  "header n hs bs = put_array 4 hs (put32 0 (word_of_int n) bs)"

lemma length_header [simp]: "4 + 4 * length hs \<le> length bs \<Longrightarrow> length (header n hs bs) = length bs"
  by (simp add: header_def)

lemma header_get:
  assumes "4 + 4 * length hs \<le> length bs"
  shows "get32 0 (header n hs bs) = word_of_int n"
    and "i < length hs \<Longrightarrow> get32 (4 + 4 * i) (header n hs bs) = hs ! i"
  using assms get32_put_array [of 4 hs "put32 0 (word_of_int n) bs" i]
  by (simp_all add: header_def get32_put_array_other)

lemma sint_small: "0 \<le> n \<Longrightarrow> n \<le> 1000 \<Longrightarrow> sint (word_of_int n :: u32) = n"
  by (simp add: sint_sbintrunc' signed_take_bit_int_eq_self)

lemma write_blocks_array:
  "i + k \<le> length xs \<Longrightarrow> write_blocks i k xs bs = Inr (put_array (4 + 4 * i) (take k (drop i xs)) bs)"
proof (induction k arbitrary: i bs)
  case (Suc k)
  then have "take (Suc k) (drop i xs) = xs ! i # take k (drop (Suc i) xs)"
    by (simp add: Cons_nth_drop_Suc [symmetric])
  with Suc show ?case by (simp add: algebra_simps)
qed simp

lemma read_blocks_array:
  "i + k \<le> length xs \<Longrightarrow> \<exists>ys. read_blocks i k bs xs = Inr ys \<and> length ys = length xs \<and>
     (\<forall>j<length xs. ys ! j = (if i \<le> j \<and> j < i + k then get32 (4 + 4 * j) bs else xs ! j))"
proof (induction k arbitrary: i xs)
  case (Suc k)
  let ?xs = "xs[i := get32 (4 + 4 * i) bs]"
  obtain ys where "read_blocks (Suc i) k bs ?xs = Inr ys" "length ys = length xs"
    "\<forall>j<length xs. ys ! j = (if Suc i \<le> j \<and> j < Suc i + k then get32 (4 + 4 * j) bs else ?xs ! j)"
    using Suc.IH [of "Suc i" ?xs] Suc.prems by auto
  moreover from this(3) have "\<forall>j<length xs. ys ! j = (if i \<le> j \<and> j < i + Suc k then get32 (4 + 4 * j) bs else xs ! j)"
    using Suc.prems by (auto simp: nth_list_update not_less_eq_eq dest: le_antisym)
  ultimately show ?case using Suc.prems by simp
qed auto

lemma write_head_spec:
  assumes bc: "bc d s {}" and d: "ldev s = d" and n: "nat (lh_n s) \<le> length (lh_block s)"
    and room: "card (used d s) < 30" and r0: "refs d s (lstart s) = 0"
  defines "hb \<equiv> header (lh_n s) (take (nat (lh_n s)) (lh_block s)) (view d s (lstart s))"
  shows "\<exists>s'. write_head s = Inr s' \<and> bc d s' {} \<and> bio_only s s' \<and>
      view d s' = (view d s)(lstart s := hb) \<and> disk s' = (disk s)(lstart s := hb) \<and>
      refs d s' = refs d s \<and> dwrites s' = dwrites s @ [(lstart s, hb)]"
proof -
  have "refs d s (lstart s) + 1 \<noteq> 0" using r0 by simp
  from bc_write_block [OF bc room this] obtain b s1 where r: "bread d (lstart s) s = Inr (b, s1)"
      "data (bufs s1 b) = view d s (lstart s)" "bio_only s s1"
    and w: "\<forall>v. \<exists>s2 s3. bwrite b (set_data b v s1) = Inr s2 \<and> brelse b s2 = Inr s3 \<and> bc d s3 {} \<and>
        bio_only s s3 \<and> disk s3 = (disk s)(lstart s := v) \<and> view d s3 = (view d s)(lstart s := v) \<and>
        refs d s3 = refs d s \<and> dwrites s3 = dwrites s @ [(lstart s, v)]"
    by blast
  note lf = bio_only_log [OF r(3)]
  have "write_blocks 0 (nat (lh_n s1)) (lh_block s1) (put32 0 (word_of_int (lh_n s1)) (data (bufs s1 b))) = Inr hb"
    using write_blocks_array [of 0 "nat (lh_n s)" "lh_block s"] n
    by (simp add: lf r(2) hb_def header_def)
  moreover obtain s2 s3 where "bwrite b (set_data b hb s1) = Inr s2" "brelse b s2 = Inr s3" "bc d s3 {}"
      "bio_only s s3" "disk s3 = (disk s)(lstart s := hb)" "view d s3 = (view d s)(lstart s := hb)"
      "refs d s3 = refs d s" "dwrites s3 = dwrites s @ [(lstart s, hb)]"
    using w by blast
  ultimately show ?thesis using r(1) d by (intro exI [of _ s3]) (simp add: write_head_def)
qed

lemma read_head_spec:
  assumes bc: "bc d s {}" and d: "ldev s = d" and room: "card (used d s) < 30" and r0: "refs d s (lstart s) = 0"
  defines "n \<equiv> sint (get32 0 (view d s (lstart s)))"
  assumes n: "nat n \<le> length (lh_block s)"
  shows "\<exists>s' xs. read_head s = Inr s' \<and> bc d s' {} \<and> bio_only (s\<lparr>lh_n := n, lh_block := xs\<rparr>) s' \<and>
      length xs = length (lh_block s) \<and>
      take (nat n) xs = map (\<lambda>j. get32 (4 + 4 * j) (view d s (lstart s))) [0..<nat n] \<and>
      view d s' = view d s \<and> disk s' = disk s \<and> refs d s' = refs d s \<and> dwrites s' = dwrites s"
proof -
  have "refs d s (lstart s) + 1 \<noteq> 0" using r0 by simp
  from bc_bread [OF bc _ _ _ this] room obtain b s1 where r: "bread d (lstart s) s = Inr (b, s1)"
      "bc d s1 {lstart s}" "cached s1 d (lstart s) b" "view d s1 = view d s" "refs d s1 = (refs d s)(lstart s := 1)"
      "bio_only s s1" "disk s1 = disk s" "dwrites s1 = dwrites s"
    using r0 by auto
  note lf = bio_only_log [OF r(6)]
  have v: "data (bufs s1 b) = view d s (lstart s)" using bc_data(1) [OF r(2) _ r(3)] r(4) by simp
  obtain xs where xs: "read_blocks 0 (nat n) (view d s (lstart s)) (lh_block s) = Inr xs"
      "length xs = length (lh_block s)"
      "\<forall>j<length xs. xs ! j = (if j < nat n then get32 (4 + 4 * j) (view d s (lstart s)) else lh_block s ! j)"
    using read_blocks_array [of 0 "nat n" "lh_block s" "view d s (lstart s)"] n by auto
  let ?s2 = "s1\<lparr>lh_n := n, lh_block := xs\<rparr>"
  have clean: "view d ?s2 (lstart s) = disk ?s2 (lstart s)" using bc_view_clean [OF bc r0] r by simp
  have same: "(refs d s)(lstart s := 0) = refs d s" using r0 by auto
  obtain s3 where s3: "brelse b ?s2 = Inr s3" "bc d s3 {}" "bio_only ?s2 s3" "view d s3 = view d s" "disk s3 = disk s"
      "refs d s3 = refs d s" "dwrites s3 = dwrites s"
    using bc_brelse [of d ?s2 "{lstart s}" "lstart s" b] r clean same by auto
  have "take (nat n) xs = map (\<lambda>j. get32 (4 + 4 * j) (view d s (lstart s))) [0..<nat n]"
    using xs n by (intro nth_equalityI) auto
  moreover have "bio_only (s\<lparr>lh_n := n, lh_block := xs\<rparr>) ?s2"
    using r(6) by (rule bio_only_header)
  then have "bio_only (s\<lparr>lh_n := n, lh_block := xs\<rparr>) s3" using s3(3) by (rule bio_only_trans)
  moreover have "read_head s = Inr s3"
    using r(1) d v xs(1) s3(1) lf by (simp add: read_head_def Let_def n_def)
  ultimately show ?thesis using s3 xs(2) by (intro exI [of _ s3] exI [of _ xs]) simp
qed

section \<open>Recovery\<close>

text \<open>The home blocks a header names, and the blocks of a log of 30 blocks.\<close>

definition header_blocks :: "block \<Rightarrow> u32 list" where
  "header_blocks bs = map (\<lambda>j. get32 (4 + 4 * j) bs) [0..<nat (sint (get32 0 bs))]"

definition log_area :: "u32 \<Rightarrow> u32 set" where
  "log_area st = insert st (set (log_slots st 0 29))"

lemma log_slots_area: "i + k \<le> 29 \<Longrightarrow> set (log_slots st i k) \<subseteq> log_area st"
  by (auto simp: log_area_def set_log_slots)

lemma start_not_slot: "i + k \<le> 1000 \<Longrightarrow> st \<notin> set (log_slots st i k)"
proof
  assume k: "i + k \<le> 1000" and "st \<in> set (log_slots st i k)"
  then obtain j where "st = st + of_nat j + 1" "j < 1000" by (auto simp: set_log_slots)
  then show False using slot_ne_start [of j st] by metis
qed

lemma header_blocks_header:
  assumes "4 + 4 * length hs \<le> length bs" and "length hs \<le> 1000"
  shows "header_blocks (header (int (length hs)) hs bs) = hs"
  using header_get [OF assms(1)] sint_small [of "int (length hs)"] assms(2)
  by (intro nth_equalityI) (simp_all add: header_blocks_def)

text \<open>Recovery needs a cache with no buffer in use, and a header that names at most 29 distinct
  blocks outside the log.\<close>

lemma recover_spec:
  assumes bc: "bc d s {}" and d: "ldev s = d" and lh: "length (lh_block s) = 30"
    and r0: "\<And>n. refs d s n = 0"
  defines "hb \<equiv> disk s (lstart s)"
  defines "hs \<equiv> header_blocks hb"
  defines "ws \<equiv> zip hs (map (disk s) (log_slots (lstart s) 0 (length hs)))"
  assumes hs: "length hs \<le> 29" "distinct hs" "set hs \<inter> log_area (lstart s) = {}"
    and len: "length hb = 1024"
  shows "\<exists>s'. recover_from_log s = Inr s' \<and> bc d s' {} \<and> lh_n s' = 0 \<and> length (lh_block s') = 30 \<and>
      lstart s' = lstart s \<and> lsize s' = lsize s \<and> ldev s' = d \<and>
      disk s' = apply_writes (ws @ [(lstart s, header 0 [] hb)]) (disk s) \<and>
      refs d s' = (\<lambda>n. - of_bool (n \<in> set hs))"
proof -
  have view: "view d s = disk s" using bc_view_clean [OF bc r0] by auto
  have used: "used d s = {}" using r0 by (simp add: used_def)
  let ?n = "sint (get32 0 hb)"
  have n: "nat ?n = length hs" by (simp add: hs_def header_blocks_def)
  have hv: "view d s (lstart s) = hb" using view by (simp add: hb_def)
  have room: "card (used d s) < 30" and nl: "nat ?n \<le> length (lh_block s)" using used n hs(1) lh by simp_all
  obtain s1 xs where s1: "read_head s = Inr s1" "bc d s1 {}" "bio_only (s\<lparr>lh_n := ?n, lh_block := xs\<rparr>) s1"
      "length xs = 30" "take (nat ?n) xs = hs" "view d s1 = view d s" "disk s1 = disk s" "refs d s1 = refs d s"
    using read_head_spec [OF bc d, unfolded hv] room r0 nl lh hs_def [unfolded header_blocks_def] by metis
  have lf1: "lh_n s1 = ?n" "lh_block s1 = xs" "lstart s1 = lstart s" "ldev s1 = d" "lsize s1 = lsize s"
    using bio_only_log [OF s1(3)] d by simp_all
  have u1: "used d s1 = {}" using s1(8) used by (simp add: used_def)
  have "card (set hs) < 30" using hs(1) card_length [of hs] by linarith
  moreover have "set hs \<inter> set (log_slots (lstart s) 0 (length hs)) = {}"
    using hs(1,3) log_slots_area [of 0 "length hs" "lstart s"] by auto
  ultimately have "copy_ok d s1 0 (length hs)"
    using s1(2,4,5) hs(1,2) n lf1 u1 r0 by (simp add: copy_ok_def s1(8))
  moreover have e: "take (length hs) (drop 0 (lh_block s1)) = hs" "refs d s1 = (\<lambda>_. 0)" using s1(5,8) lf1 n r0 by auto
  ultimately obtain s2 where s2: "tail_loop install_block 0 (length hs) s1 = Inr s2" "bc d s2 {}"
      "bio_only s1 s2" "view d s2 = apply_writes ws (disk s)" "disk s2 = apply_writes ws (disk s)"
      "refs d s2 = (\<lambda>n. 0 - of_bool (n \<in> set hs))"
    using install_loop [of d s1 0 "length hs"] unfolding e lf1(3) s1(6,7) view ws_def by blast
  note lf2 = bio_only_log [OF s2(3)]
  have st: "lstart s \<notin> set hs" using hs(3) by (auto simp: log_area_def)
  then have "refs d s2 (lstart s) = 0" "used d s2 = set hs" using s2(6) by (auto simp: used_def)
  moreover have "view d s2 (lstart s) = hb"
  proof -
    have "lstart s \<notin> fst ` set ws" using st set_zip_leftD by (fastforce simp: ws_def)
    then show ?thesis unfolding s2(4) by (simp add: apply_writes_other hb_def)
  qed
  ultimately obtain s3 where s3: "write_head (s2\<lparr>lh_n := 0\<rparr>) = Inr s3" "bc d s3 {}" "bio_only (s2\<lparr>lh_n := 0\<rparr>) s3"
      "disk s3 = (disk s2)(lstart s := header 0 [] hb)" "refs d s3 = refs d s2"
    using write_head_spec [of d "s2\<lparr>lh_n := 0\<rparr>"] s2(2) lf1 lf2 \<open>card (set hs) < 30\<close> by auto
  have "recover_from_log s = Inr s3"
    using s1(1) s2(1) s3(1) lf1 n by (simp add: recover_from_log_def install_trans_def)
  then show ?thesis
    using s2 s3 bio_only_log [OF s3(3)] lf1 lf2 s1(4) e by (intro exI [of _ s3]) (simp del: fun_upd_apply)
qed

section \<open>Transactions\<close>

text \<open>The home blocks of the running transaction.\<close>

definition log_home :: "'z log_scheme \<Rightarrow> u32 list" where
  "log_home s = take (nat (lh_n s)) (lh_block s)"

text \<open>The invariant between operations of the file system on blocks: the caller holds the buffers
  of the blocks \<open>H\<close>; a block has one reference from the log when it is in the transaction and
  one from the caller when it is held; the log on the disk is empty.\<close>

definition log_inv :: "u32 \<Rightarrow> 'z log_scheme \<Rightarrow> u32 set \<Rightarrow> bool" where
  "log_inv d s H \<longleftrightarrow>
     bc d s H \<and> ldev s = d \<and> length (lh_block s) = 30 \<and> 0 \<le> lh_n s \<and> lh_n s \<le> 29 \<and>
     distinct (log_home s) \<and> set (log_home s) \<inter> log_area (lstart s) = {} \<and>
     H \<inter> log_area (lstart s) = {} \<and>
     refs d s = (\<lambda>n. of_bool (n \<in> set (log_home s)) + of_bool (n \<in> H)) \<and>
     get32 0 (disk s (lstart s)) = 0 \<and> (\<forall>n. length (disk s n) = 1024) \<and>
     (\<forall>n. length (view d s n) = 1024)"

lemma log_invD:
  assumes "log_inv d s H"
  shows "bc d s H" "ldev s = d" "length (lh_block s) = 30" "0 \<le> lh_n s" "lh_n s \<le> 29"
    "distinct (log_home s)" "set (log_home s) \<inter> log_area (lstart s) = {}" "H \<inter> log_area (lstart s) = {}"
    "refs d s = (\<lambda>n. of_bool (n \<in> set (log_home s)) + of_bool (n \<in> H))"
    "get32 0 (disk s (lstart s)) = 0" "length (disk s n) = 1024" "length (log_home s) = nat (lh_n s)"
    "length (log_home s) \<le> 29" "length (view d s n) = 1024"
proof -
  show "length (view d s n) = 1024" using assms unfolding log_inv_def by blast
  show "bc d s H" "ldev s = d" "distinct (log_home s)" "set (log_home s) \<inter> log_area (lstart s) = {}"
    "H \<inter> log_area (lstart s) = {}" "get32 0 (disk s (lstart s)) = 0" "length (disk s n) = 1024"
    "refs d s = (\<lambda>n. of_bool (n \<in> set (log_home s)) + of_bool (n \<in> H))"
    using assms unfolding log_inv_def by blast+
  show l: "length (lh_block s) = 30" "0 \<le> lh_n s" "lh_n s \<le> 29" using assms unfolding log_inv_def by blast+
  then show "length (log_home s) = nat (lh_n s)" "length (log_home s) \<le> 29" by (simp_all add: log_home_def)
qed

lemma log_inv_view_clean:
  assumes "log_inv d s H" and "n \<notin> set (log_home s)" and "n \<notin> H"
  shows "view d s n = disk s n"
  using bc_view_clean [OF log_invD(1) [OF assms(1)]] log_invD(9) [OF assms(1)] assms(2,3) by simp

lemma of_bool_sum_u32: "of_bool a + of_bool b \<noteq> (0 :: u32) \<longleftrightarrow> a \<or> b"
  by (cases a; cases b) auto

lemma log_inv_used: "log_inv d s H \<Longrightarrow> used d s = set (log_home s) \<union> H"
  unfolding used_def log_invD(9) of_bool_sum_u32 by auto

lemma apply_writes_zip:
  assumes "distinct ks" and "length vs = length ks"
  shows "map (apply_writes (zip ks vs) f) ks = vs"
proof (rule nth_equalityI)
  fix i assume "i < length (map (apply_writes (zip ks vs) f) ks)"
  then show "map (apply_writes (zip ks vs) f) ks ! i = vs ! i"
    using assms apply_writes_in [of "zip ks vs" "ks ! i" "vs ! i" f] by (simp add: set_zip) blast
qed (use assms in simp)

lemma fst_set_zip: "length vs = length ks \<Longrightarrow> fst ` set (zip ks vs) = set ks"
  by (metis map_fst_zip set_map)

lemma apply_writes_zip_other:
  "length vs = length ks \<Longrightarrow> n \<notin> set ks \<Longrightarrow> apply_writes (zip ks vs) f n = f n"
  by (simp add: apply_writes_other fst_set_zip)

lemma apply_writes_zip_map:
  "distinct ks \<Longrightarrow> n \<in> set ks \<Longrightarrow> apply_writes (zip ks (map g ks)) f n = g n"
  by (rule apply_writes_in) (auto simp: in_set_zip in_set_conv_nth)

text \<open>The disk writes of a commit, in order.\<close>

definition commit_writes :: "u32 \<Rightarrow> 'z log_scheme \<Rightarrow> (u32 \<times> block) list" where
  "commit_writes d s =
     (let hs = log_home s; vs = map (view d s) hs; hb = header (lh_n s) hs (disk s (lstart s))
      in zip (log_slots (lstart s) 0 (length hs)) vs @ [(lstart s, hb)] @ zip hs vs @
         [(lstart s, header 0 [] hb)])"

lemma commit_spec:
  assumes inv: "log_inv d s {}" and n: "0 < lh_n s"
  shows "\<exists>s'. commit s = Inr s' \<and> bc d s' {} \<and> bio_only (s\<lparr>lh_n := 0\<rparr>) s' \<and>
      disk s' = apply_writes (commit_writes d s) (disk s) \<and>
      view d s' = apply_writes (commit_writes d s) (view d s) \<and>
      dwrites s' = dwrites s @ commit_writes d s \<and> refs d s' = (\<lambda>_. 0)"
proof -
  note D = log_invD [OF inv]
  let ?hs = "log_home s" and ?st = "lstart s"
  let ?sl = "log_slots ?st 0 (length ?hs)" and ?vs = "map (view d s) ?hs"
  have area: "set ?sl \<subseteq> log_area ?st" "?st \<in> log_area ?st" "?st \<notin> set ?sl"
    using D(13) log_slots_area [of 0 "length ?hs"] start_not_slot [of 0 "length ?hs"] by (auto simp: log_area_def)
  have dsl: "distinct ?sl" using distinct_log_slots [of 0 "length ?hs"] D(13) by simp
  have used: "used d s = set ?hs" using log_inv_used [OF inv] by simp
  have room: "card (set ?hs) < 30" using D(13) card_length [of ?hs] by linarith
  have home: "nat (lh_n s) = length ?hs" "take (length ?hs) (drop 0 (lh_block s)) = ?hs"
    using D(12) by (simp_all add: log_home_def)
  have rst: "refs d s ?st = 0" "\<forall>l\<in>set ?sl. refs d s l = 0" "\<forall>h\<in>set ?hs. refs d s h + 1 \<noteq> 0"
    using D(7,9) area by auto
  have ok: "copy_ok d s 0 (length ?hs)"
    unfolding copy_ok_def home using D(1-3,6,7,13) area rst used room by auto
  obtain s1 where s1: "tail_loop log_one 0 (length ?hs) s = Inr s1" "bc d s1 {}" "bio_only s s1"
      "view d s1 = apply_writes (zip ?sl ?vs) (view d s)" "disk s1 = apply_writes (zip ?sl ?vs) (disk s)"
      "dwrites s1 = dwrites s @ zip ?sl ?vs" "refs d s1 = refs d s"
    using write_loop [OF ok] unfolding home by blast
  note lf1 = bio_only_log [OF s1(3)]
  have v1: "view d s1 ?st = disk s ?st"
    using s1(4) area(3) bc_view_clean [OF D(1) rst(1)] by (simp add: apply_writes_zip_other)
  let ?hb = "header (lh_n s) ?hs (disk s ?st)"
  have u1: "card (used d s1) < 30" "refs d s1 ?st = 0" using used s1(7) room rst by (simp_all add: used_def)
  obtain s2 where s2: "write_head s1 = Inr s2" "bc d s2 {}" "bio_only s1 s2" "view d s2 = (view d s1)(?st := ?hb)"
      "disk s2 = (disk s1)(?st := ?hb)" "refs d s2 = refs d s1" "dwrites s2 = dwrites s1 @ [(?st, ?hb)]"
    using write_head_spec [OF s1(2), unfolded lf1 v1 log_home_def [symmetric], OF D(2) _ u1]
    unfolding home D(3) using D(13) by auto
  note lf2 = bio_only_log [OF s2(3), unfolded lf1]
  have ok2: "copy_ok d s2 0 (length ?hs)"
    using ok s2(2) unfolding copy_ok_def lf2 used_def s2(6) s1(7) by blast
  have slv: "map (view d s2) ?sl = ?vs"
  proof -
    have "map (view d s2) ?sl = map (view d s1) ?sl" using area(3) unfolding s2(4) by auto
    then show ?thesis unfolding s1(4) using apply_writes_zip [OF dsl, of ?vs] by simp
  qed
  obtain s3 where s3: "tail_loop install_block 0 (length ?hs) s2 = Inr s3" "bc d s3 {}" "bio_only s2 s3"
      "view d s3 = apply_writes (zip ?hs ?vs) (view d s2)" "disk s3 = apply_writes (zip ?hs ?vs) (disk s2)"
      "dwrites s3 = dwrites s2 @ zip ?hs ?vs" "refs d s3 = (\<lambda>n. refs d s2 n - of_bool (n \<in> set ?hs))"
    using install_loop [OF ok2] unfolding lf2 home slv by blast
  note lf3 = bio_only_log [OF s3(3), unfolded lf2]
  have r3: "refs d s3 = (\<lambda>_. 0)" using s3(7) unfolding s2(6) s1(7) D(9) by (auto simp: fun_eq_iff)
  have v3: "view d s3 ?st = ?hb"
    unfolding s3(4) using D(7) area(2) by (subst apply_writes_zip_other) (auto simp: s2(4))
  have pre: "bc d (s3\<lparr>lh_n := 0\<rparr>) {}" "ldev (s3\<lparr>lh_n := 0\<rparr>) = d"
      "nat (lh_n (s3\<lparr>lh_n := 0\<rparr>)) \<le> length (lh_block (s3\<lparr>lh_n := 0\<rparr>))"
      "card (used d (s3\<lparr>lh_n := 0\<rparr>)) < 30" "refs d (s3\<lparr>lh_n := 0\<rparr>) (lstart (s3\<lparr>lh_n := 0\<rparr>)) = 0"
    using s3(2) lf3 D(2) r3 by (simp_all add: used_def)
  obtain s4 where s4: "write_head (s3\<lparr>lh_n := 0\<rparr>) = Inr s4" "bc d s4 {}" "bio_only (s3\<lparr>lh_n := 0\<rparr>) s4"
      "view d s4 = (view d s3)(?st := header 0 [] ?hb)" "disk s4 = (disk s3)(?st := header 0 [] ?hb)"
      "refs d s4 = refs d s3" "dwrites s4 = dwrites s3 @ [(?st, header 0 [] ?hb)]"
    using write_head_spec [OF pre] lf3 v3 by auto
  have "bio_only s s3" using s1(3) s2(3) s3(3) by (blast intro: bio_only_trans)
  moreover have "s3\<lparr>lh_n := 0, lh_block := lh_block s\<rparr> = s3\<lparr>lh_n := 0\<rparr>"
    unfolding lf3(7) [symmetric] by simp
  ultimately have "bio_only (s\<lparr>lh_n := 0\<rparr>) (s3\<lparr>lh_n := 0\<rparr>)"
    using bio_only_header [of s s3 "lh_block s" 0] by simp
  then have "bio_only (s\<lparr>lh_n := 0\<rparr>) s4" using s4(3) by (rule bio_only_trans)
  moreover have "commit s = Inr s4"
    using n s1(1) s2(1) s3(1) s4(1) home(1) lf2(6)
    by (simp add: commit_def write_log_def install_trans_def)
  ultimately show ?thesis
    using s1(4-6) s2(4,5,7) s3(4-6) s4(2,4-7) r3
    by (intro exI [of _ s4]) (simp add: commit_writes_def Let_def del: fun_upd_apply)
qed

section \<open>Crashes\<close>

text \<open>The disk after the first \<open>k\<close> writes of a commit.\<close>

definition crash_disk :: "nat \<Rightarrow> u32 \<Rightarrow> 'z log_scheme \<Rightarrow> u32 \<Rightarrow> block" where
  "crash_disk k d s = apply_writes (take k (commit_writes d s)) (disk s)"

lemma header_blocks_zero: "get32 0 bs = 0 \<Longrightarrow> header_blocks bs = []"
  by (simp add: header_blocks_def)

text \<open>Before the header is written, the disk has the old home blocks and an empty log.\<close>

lemma crash_before:
  assumes inv: "log_inv d s {}" and k: "k \<le> length (log_home s)"
  shows "header_blocks (crash_disk k d s (lstart s)) = []" and "length (crash_disk k d s (lstart s)) = 1024"
    and "n \<notin> log_area (lstart s) \<Longrightarrow> crash_disk k d s n = disk s n"
proof -
  note D = log_invD [OF inv]
  let ?sl = "log_slots (lstart s) 0 (length (log_home s))"
  have t: "take k (commit_writes d s) = take k (zip ?sl (map (view d s) (log_home s)))"
    using k by (simp add: commit_writes_def Let_def)
  have other: "crash_disk k d s n = disk s n" if "n \<notin> set ?sl" for n
  proof -
    have "n \<notin> fst ` set (take k (zip ?sl (map (view d s) (log_home s))))"
      using that by (auto dest!: in_set_takeD in_set_zip [THEN iffD1] simp: set_conv_nth)
    then show ?thesis unfolding crash_disk_def t by (rule apply_writes_other)
  qed
  have "lstart s \<notin> set ?sl" using start_not_slot [of 0 "length (log_home s)"] D(13) by simp
  from other [OF this] show "header_blocks (crash_disk k d s (lstart s)) = []"
    "length (crash_disk k d s (lstart s)) = 1024"
    using D(10,11) by (simp_all add: header_blocks_zero)
  show "n \<notin> log_area (lstart s) \<Longrightarrow> crash_disk k d s n = disk s n"
    using other log_slots_area [of 0 "length (log_home s)" "lstart s"] D(13) by auto
qed

text \<open>From the write of the header on, until it is erased, the log holds the transaction.\<close>

lemma crash_between:
  assumes inv: "log_inv d s {}" and k: "length (log_home s) < k" "k \<le> 2 * length (log_home s) + 1"
  defines "hs \<equiv> log_home s" and "D \<equiv> crash_disk k d s"
  shows "header_blocks (D (lstart s)) = hs" and "length (D (lstart s)) = 1024"
    and "map D (log_slots (lstart s) 0 (length hs)) = map (view d s) hs"
    and "n \<notin> log_area (lstart s) \<Longrightarrow> n \<notin> set hs \<Longrightarrow> D n = view d s n"
proof -
  note L = log_invD [OF inv, folded hs_def]
  let ?sl = "log_slots (lstart s) 0 (length hs)" and ?vs = "map (view d s) hs"
  let ?hb = "header (lh_n s) hs (disk s (lstart s))"
  let ?W = "take (k - (length hs + 1)) (zip hs ?vs)"
  let ?D1 = "(apply_writes (zip ?sl ?vs) (disk s))(lstart s := ?hb)"
  have "take k (commit_writes d s) = zip ?sl ?vs @ [(lstart s, ?hb)] @ ?W"
    using k by (simp add: commit_writes_def Let_def hs_def take_Cons')
  then have D: "D = apply_writes ?W ?D1" by (simp add: D_def crash_disk_def del: fun_upd_apply)
  have other: "D n = ?D1 n" if "n \<notin> set hs" for n
    unfolding D using that
    by (intro apply_writes_other) (auto dest!: in_set_takeD in_set_zip [THEN iffD1] simp: set_conv_nth)
  have st: "lstart s \<notin> set ?sl" "lstart s \<notin> set hs"
    using start_not_slot [of 0 "length hs"] L(7,13) by (auto simp: log_area_def)
  have sl: "set ?sl \<subseteq> log_area (lstart s)" using log_slots_area [of 0 "length hs"] L(13) by simp
  have hb: "D (lstart s) = ?hb" using other [OF st(2)] by simp
  show "length (D (lstart s)) = 1024" unfolding hb using L(11,13) by simp
  show "header_blocks (D (lstart s)) = hs"
    unfolding hb using header_blocks_header [of hs "disk s (lstart s)"] L(4,11,12,13) by simp
  have "D x = apply_writes (zip ?sl ?vs) (disk s) x" if "x \<in> set ?sl" for x
  proof -
    have "x \<notin> set hs" "x \<noteq> lstart s" using that st(1) sl L(7) by auto
    then show ?thesis using other by simp
  qed
  then have "map D ?sl = map (apply_writes (zip ?sl ?vs) (disk s)) ?sl" by simp
  then show "map D ?sl = ?vs"
    using apply_writes_zip [OF distinct_log_slots, of 0 "length hs" ?vs] L(13) by simp
  show "D n = view d s n" if "n \<notin> log_area (lstart s)" "n \<notin> set hs"
  proof -
    have "n \<notin> set ?sl" "n \<noteq> lstart s" using that sl by (auto simp: log_area_def)
    then show ?thesis
      using other [OF that(2)] that(2) log_inv_view_clean [OF inv, of n]
      by (simp add: apply_writes_zip_other hs_def)
  qed
qed

text \<open>After the last write everything is at home.\<close>

lemma crash_after:
  assumes inv: "log_inv d s {}" and k: "k = length (commit_writes d s)"
  shows "header_blocks (crash_disk k d s (lstart s)) = []" and "length (crash_disk k d s (lstart s)) = 1024"
    and "n \<notin> log_area (lstart s) \<Longrightarrow> crash_disk k d s n = view d s n"
proof -
  note L = log_invD [OF inv]
  let ?hs = "log_home s"
  let ?sl = "log_slots (lstart s) 0 (length ?hs)" and ?vs = "map (view d s) ?hs"
  let ?hb = "header (lh_n s) ?hs (disk s (lstart s))"
  let ?D1 = "(apply_writes (zip ?sl ?vs) (disk s))(lstart s := ?hb)"
  have D: "crash_disk k d s = (apply_writes (zip ?hs ?vs) ?D1)(lstart s := header 0 [] ?hb)"
    by (simp add: crash_disk_def k commit_writes_def Let_def del: fun_upd_apply)
  show "header_blocks (crash_disk k d s (lstart s)) = []" "length (crash_disk k d s (lstart s)) = 1024"
    unfolding D using header_get(1) [of "[]" ?hb 0] L(11,13) by (simp_all add: header_blocks_zero)
  assume n: "n \<notin> log_area (lstart s)"
  then have "n \<noteq> lstart s" "n \<notin> set ?sl"
    using log_slots_area [of 0 "length ?hs"] L(13) by (auto simp: log_area_def)
  with n show "crash_disk k d s n = view d s n"
    unfolding D using log_inv_view_clean [OF inv, of n] L(6)
    by (cases "n \<in> set ?hs") (simp_all add: apply_writes_zip_map apply_writes_zip_other)
qed

lemma length_commit_writes: "length (commit_writes d s) = 2 * length (log_home s) + 2"
  by (simp add: commit_writes_def Let_def)

lemma bc_start_update:
  "bc d (s\<lparr>lstart := a, lsize := z, ldev := e\<rparr>) H = bc d s H"
  "refs d (s\<lparr>lstart := a, lsize := z, ldev := e\<rparr>) = refs d s"
  by (rule bio_cong; simp)+

lemma crash_recovery:
  assumes inv: "log_inv d s {}" and k: "k \<le> length (commit_writes d s)"
    and r: "bc d r {}" "\<And>n. refs d r n = 0" "length (lh_block r) = 30" "disk r = crash_disk k d s"
    and sb: "sb_logstart sb = lstart s"
  shows "\<exists>r'. initlog d sb r = Inr r' \<and> bc d r' {} \<and> get32 0 (disk r' (lstart s)) = 0 \<and>
      (\<forall>n. n \<notin> log_area (lstart s) \<longrightarrow>
        disk r' n = (if k \<le> length (log_home s) then disk s n else view d s n)) \<and>
      refs d r' = (\<lambda>n. - of_bool (n \<in> set (header_blocks (crash_disk k d s (lstart s)))))"
proof -
  let ?r = "r\<lparr>lstart := sb_logstart sb, lsize := sint (sb_nlog sb), ldev := d\<rparr>" and ?D = "crash_disk k d s"
  let ?st = "lstart s" and ?n = "length (log_home s)"
  let ?hs = "header_blocks (?D ?st)"
  have pre: "bc d ?r {}" "ldev ?r = d" "length (lh_block ?r) = 30" "\<And>n. refs d ?r n = 0" "lstart ?r = ?st" "disk ?r = ?D"
    using r sb by (simp_all add: bc_start_update)
  have init: "initlog d sb r = recover_from_log ?r" by (simp add: initlog_def)
  consider "k \<le> ?n" | "?n < k" "k \<le> 2 * ?n + 1" | "?n < k" "k = length (commit_writes d s)"
    using k unfolding length_commit_writes by linarith
  then have "length ?hs \<le> 29 \<and> distinct ?hs \<and> set ?hs \<inter> log_area ?st = {} \<and> length (?D ?st) = 1024 \<and>
     (\<forall>n. n \<notin> log_area ?st \<longrightarrow> apply_writes (zip ?hs (map ?D (log_slots ?st 0 (length ?hs)))) ?D n =
        (if k \<le> ?n then disk s n else view d s n))"
  proof cases
    case 1
    then show ?thesis using crash_before [OF inv] by simp
  next
    case 2
    note cb = crash_between [OF inv 2]
    show ?thesis unfolding cb(1) cb(3)
      using cb(2,4) log_invD(6,7,13) [OF inv] 2
      by (auto simp: apply_writes_zip_map) (metis apply_writes_zip_map apply_writes_zip_other length_map)
  next
    case 3
    then show ?thesis using crash_after [OF inv] by simp
  qed
  then have hs: "length ?hs \<le> 29" "distinct ?hs" "set ?hs \<inter> log_area ?st = {}" "length (?D ?st) = 1024"
    and home: "\<And>n. n \<notin> log_area ?st \<Longrightarrow> apply_writes (zip ?hs (map ?D (log_slots ?st 0 (length ?hs)))) ?D n =
        (if k \<le> ?n then disk s n else view d s n)"
    by blast+
  obtain r' where r': "recover_from_log ?r = Inr r'" "bc d r' {}"
      "disk r' = apply_writes (zip ?hs (map ?D (log_slots ?st 0 (length ?hs))) @ [(?st, header 0 [] (?D ?st))]) ?D"
      "refs d r' = (\<lambda>n. - of_bool (n \<in> set ?hs))"
    using recover_spec [OF pre(1-4), unfolded pre(5,6), OF hs] by blast
  have "get32 0 (disk r' ?st) = 0" using header_get(1) [of "[]" "?D ?st" 0] hs(4) by (simp add: r'(3))
  moreover have "disk r' n = (if k \<le> ?n then disk s n else view d s n)" if "n \<notin> log_area ?st" for n
  proof -
    have "n \<noteq> ?st" using that by (auto simp: log_area_def)
    with home [OF that] show ?thesis by (simp add: r'(3))
  qed
  ultimately show ?thesis using r' init by auto
qed

section \<open>Operations inside a transaction\<close>

lemma bio_only_home: "bio_only s s' \<Longrightarrow> log_home s' = log_home s"
  by (simp add: log_home_def bio_only_log)

lemma log_inv_bio_only:
  assumes inv: "log_inv d s H" and o: "bio_only s s'" and bc: "bc d s' H'" and dk: "disk s' = disk s"
    and r: "refs d s' = (\<lambda>n. of_bool (n \<in> set (log_home s)) + of_bool (n \<in> H'))"
    and H': "H' \<inter> log_area (lstart s) = {}" and v: "\<And>n. length (view d s' n) = 1024"
  shows "log_inv d s' H'"
  using inv bc r H' dk v bio_only_log [OF o] bio_only_home [OF o] by (simp add: log_inv_def)

lemma log_bread:
  assumes inv: "log_inv d s H" and n: "n \<notin> H" "n \<notin> log_area (lstart s)"
    and room: "card (set (log_home s) \<union> H) < 30"
  shows "\<exists>b s'. bread d n s = Inr (b, s') \<and> log_inv d s' (insert n H) \<and> cached s' d n b \<and>
      data (bufs s' b) = view d s n \<and> view d s' = view d s \<and>
      keeps d s H s' \<and> bio_only s s' \<and> disk s' = disk s \<and> dwrites s' = dwrites s"
proof -
  note D = log_invD [OF inv]
  have "refs d s n + 1 \<noteq> 0" using n D(9) by (cases "n \<in> set (log_home s)") auto
  moreover have "refs d s m \<noteq> 0" if "m \<in> H" for m
    unfolding D(9) of_bool_sum_u32 using that by simp
  ultimately obtain b s' where r: "bread d n s = Inr (b, s')" "bc d s' (insert n H)" "cached s' d n b"
      "view d s' = view d s" "refs d s' = (refs d s)(n := refs d s n + 1)" "keeps d s H s'" "bio_only s s'"
      "disk s' = disk s" "dwrites s' = dwrites s"
    using bc_bread [OF D(1) n(1)] room log_inv_used [OF inv] by metis
  have "refs d s' = (\<lambda>m. of_bool (m \<in> set (log_home s)) + of_bool (m \<in> insert n H))"
    using r(5) D(9) n(1) by (auto simp: fun_eq_iff)
  then have "log_inv d s' (insert n H)"
    using log_inv_bio_only [OF inv r(7,2,8)] D(8,14) n(2) r(4) by simp
  moreover have "data (bufs s' b) = view d s n" using bc_data(1) [OF r(2) _ r(3)] r(4) by simp
  ultimately show ?thesis using r by blast
qed

lemma log_set_data:
  assumes inv: "log_inv d s H" and n: "n \<in> H" "cached s d n b" and v: "length v = 1024"
  shows "log_inv d (set_data b v s) H" and "view d (set_data b v s) = (view d s)(n := v)"
    and "keeps d s H (set_data b v s)" and "bio_only s (set_data b v s)" and "disk (set_data b v s) = disk s"
    and "dwrites (set_data b v s) = dwrites s"
proof -
  note D = log_invD [OF inv]
  have "refs d s n \<noteq> 0" unfolding D(9) of_bool_sum_u32 using n by simp
  note sd = bc_set_data [OF D(1) n this, of v]
  show "view d (set_data b v s) = (view d s)(n := v)" "keeps d s H (set_data b v s)"
    "bio_only s (set_data b v s)" "disk (set_data b v s) = disk s" "dwrites (set_data b v s) = dwrites s"
    by (fact sd)+
  show "log_inv d (set_data b v s) H"
    using log_inv_bio_only [OF inv sd(5,1,6)] sd(2,3) D(8,9,14) v by simp
qed

lemma log_brelse:
  assumes inv: "log_inv d s H" and n: "n \<in> H" "cached s d n b"
    and clean: "n \<in> set (log_home s) \<or> view d s n = disk s n"
  shows "\<exists>s'. brelse b s = Inr s' \<and> log_inv d s' (H - {n}) \<and> view d s' = view d s \<and>
      keeps d s (H - {n}) s' \<and> bio_only s s' \<and> disk s' = disk s \<and> dwrites s' = dwrites s"
proof -
  note D = log_invD [OF inv]
  have "refs d s n \<noteq> 1 \<or> view d s n = disk s n" using clean n D(9) by auto
  then obtain s' where r: "brelse b s = Inr s'" "bc d s' (H - {n})" "view d s' = view d s"
      "refs d s' = (refs d s)(n := refs d s n - 1)" "keeps d s (H - {n}) s'" "bio_only s s'"
      "disk s' = disk s" "dwrites s' = dwrites s"
    using bc_brelse [OF D(1) n] by blast
  have "refs d s' = (\<lambda>m. of_bool (m \<in> set (log_home s)) + of_bool (m \<in> H - {n}))"
    using r(4) D(9) n(1) by (auto simp: fun_eq_iff)
  then have "log_inv d s' (H - {n})" using log_inv_bio_only [OF inv r(6,2,7)] D(8,14) r(3) by auto
  then show ?thesis using r by blast
qed

lemma find_logged_spec:
  "i + k \<le> length xs \<Longrightarrow> find_logged i k bn xs =
     (if bn \<in> set (take k (drop i xs)) then i + length (takeWhile (\<lambda>x. x \<noteq> bn) (take k (drop i xs))) else i + k)"
proof (induction k arbitrary: i)
  case (Suc k)
  then have "take (Suc k) (drop i xs) = xs ! i # take k (drop (Suc i) xs)"
    by (simp add: Cons_nth_drop_Suc [symmetric])
  with Suc show ?case by auto
qed simp

lemma takeWhile_nth: "bn \<in> set xs \<Longrightarrow> length (takeWhile (\<lambda>x. x \<noteq> bn) xs) < length xs \<and>
    xs ! length (takeWhile (\<lambda>x. x \<noteq> bn) xs) = bn"
  by (induction xs) auto

text \<open>\<open>log_write\<close> absorbs a block of the transaction and appends a new one, which it pins.\<close>

lemma log_write_eq:
  assumes l: "length (lh_block s) = 30" and n: "0 \<le> lh_n s" "lh_n s \<le> 28" "lh_n s < lsize s - 1" and o: "1 \<le> outstanding s"
  shows "log_write b s = Inr (if blockno (bufs s b) \<in> set (log_home s) then s
      else (bpin b (s\<lparr>lh_block := (lh_block s)[nat (lh_n s) := blockno (bufs s b)]\<rparr>))\<lparr>lh_n := lh_n s + 1\<rparr>)"
proof -
  let ?bn = "blockno (bufs s b)" and ?i = "find_logged 0 (nat (lh_n s)) (blockno (bufs s b)) (lh_block s)"
  have i: "?i = (if ?bn \<in> set (log_home s) then length (takeWhile (\<lambda>x. x \<noteq> ?bn) (log_home s)) else nat (lh_n s))"
    using find_logged_spec [of 0 "nat (lh_n s)" "lh_block s" ?bn] l n by (simp add: log_home_def)
  have hl: "length (log_home s) = nat (lh_n s)" using l n by (simp add: log_home_def)
  show ?thesis
  proof (cases "?bn \<in> set (log_home s)")
    case True
    let ?j = "length (takeWhile (\<lambda>x. x \<noteq> ?bn) (log_home s))"
    have j: "?j < nat (lh_n s)" "lh_block s ! ?j = ?bn"
      using takeWhile_nth [OF True] hl by (auto simp: log_home_def)
    then have "(lh_block s)[?j := ?bn] = lh_block s" by (metis list_update_id)
    with True j i n o show ?thesis by (simp add: log_write_def Let_def)
  next
    case False
    with i n o show ?thesis by (simp add: log_write_def Let_def)
  qed
qed

lemma log_write_spec:
  assumes inv: "log_inv d s H" and n: "n \<in> H" "cached s d n b" and o: "1 \<le> outstanding s"
    and room: "lh_n s \<le> 28" "lh_n s < lsize s - 1"
  shows "\<exists>s'. log_write b s = Inr s' \<and> log_inv d s' H \<and> view d s' = view d s \<and>
      log_home s' = (if n \<in> set (log_home s) then log_home s else log_home s @ [n]) \<and>
      keeps d s H s' \<and> disk s' = disk s \<and> dwrites s' = dwrites s \<and> outstanding s' = outstanding s \<and>
      lsize s' = lsize s \<and> lstart s' = lstart s \<and> committing s' = committing s"
proof -
  note D = log_invD [OF inv]
  have bn: "blockno (bufs s b) = n" using n(2) by (simp add: cached_def)
  note lw = log_write_eq [OF D(3,4) room o, of b, unfolded bn]
  show ?thesis
  proof (cases "n \<in> set (log_home s)")
    case True
    with lw inv show ?thesis by (simp add: keeps_def)
  next
    case False
    let ?s1 = "s\<lparr>lh_block := (lh_block s)[nat (lh_n s) := n]\<rparr>"
    let ?s2 = "(bpin b ?s1)\<lparr>lh_n := lh_n s + 1\<rparr>"
    have "refs d s n + 1 \<noteq> 0" using D(9) False n(1) by simp
    then have p: "bc d (bpin b ?s1) H" "view d (bpin b ?s1) = view d s"
        "refs d (bpin b ?s1) = (refs d s)(n := refs d s n + 1)" "keeps d ?s1 H (bpin b ?s1)"
        "bio_only ?s1 (bpin b ?s1)" "disk (bpin b ?s1) = disk s" "dwrites (bpin b ?s1) = dwrites s"
      using bc_bpin [of d ?s1 H n b] D(1) n by simp_all
    note lf = bio_only_log [OF p(5)]
    have "nat (lh_n s + 1) = Suc (nat (lh_n s))" using D(4) by simp
    then have home: "log_home ?s2 = log_home s @ [n]"
      using D(3) room(1) lf by (simp add: log_home_def take_Suc_conv_app_nth)
    have "log_inv d ?s2 H"
      unfolding log_inv_def home using p D False room(1) lf n(1)
      by (auto simp: fun_eq_iff)
    moreover have "keeps d s H ?s2" using p(4) by (simp add: keeps_def)
    ultimately show ?thesis using lw False home p lf by (intro exI [of _ ?s2]) simp
  qed
qed

end
