(* ===== verification/Transact.thy ===== *)
theory Transact
  imports Log
begin

text \<open>
  Transactions of the log as its clients see them: the update of a block inside an operation,
  what a commit leaves on the disk, what is on the disk after a crash and recovery, and the
  reservation of log space by concurrent operations.
\<close>

section \<open>Frames\<close>

text \<open>Whatever the state, an operation of the cache that returns changes buffers and disk only.\<close>

lemma bio_only_upd_buf [simp]: "bio_only s (upd_buf b f s)"
  by (simp add: upd_buf_set_buf)

lemma bio_only_upd_bufs [simp]: "bio_only s (upd_buf b f (upd_buf c g s))"
  using bio_only_trans [OF bio_only_upd_buf bio_only_upd_buf] .

lemma lock_buf_frame: "lock_buf b (upd_buf c f s) = Inr s' \<Longrightarrow> bio_only s s'"
  by (auto simp: lock_buf_def split: option.splits)

lemma bget_frame:
  assumes "bget d n s = Inr (b, s')"
  shows "bio_only s s'"
proof -
  obtain r where r: "find_cached 31 (bufs s) d n (nxt (bufs s 30)) = Inr r"
    using assms by (auto simp: bget_def)
  show ?thesis
  proof (cases r)
    case (Some c)
    then show ?thesis using assms r by (auto simp: bget_def dest: lock_buf_frame)
  next
    case None
    then obtain q where q: "find_unused 31 (bufs s) (prev (bufs s 30)) = Inr q"
      using assms r by (auto simp: bget_def)
    then show ?thesis using assms r None by (cases q) (auto simp: bget_def dest: lock_buf_frame)
  qed
qed

lemma bread_frame:
  assumes "bread d n s = Inr (b, s')"
  shows "bio_only s s'"
proof -
  obtain s1 where g: "bget d n s = Inr (b, s1)"
    and s1: "s' = upd_buf b (valid_update (\<lambda>_. True)) (virtio_disk_rw b False s1) \<or> s' = s1"
    using assms by (auto simp: bread_def split: if_splits)
  have "bio_only s1 s'" using s1 by (auto simp: virtio_disk_rw_def Let_def)
  with bget_frame [OF g] show ?thesis by (rule bio_only_trans)
qed

lemma bwrite_frame: "bwrite b s = Inr s' \<Longrightarrow> bio_only s s'"
proof -
  assume "bwrite b s = Inr s'"
  then have "\<exists>dk dw. s' = s\<lparr>bufs := bufs s, disk := dk, dwrites := dw\<rparr>"
    by (auto simp: bwrite_def virtio_disk_rw_def Let_def split: if_splits)
  then show ?thesis unfolding bio_only_def by blast
qed

lemma brelse_frame: "brelse b s = Inr s' \<Longrightarrow> bio_only s s'"
proof -
  let ?s2 = "upd_buf b (\<lambda>x. x\<lparr>refcnt := refcnt x - 1\<rparr>) (upd_buf b (\<lambda>x. x\<lparr>blk := releasesleep (blk x)\<rparr>) s)"
  assume "brelse b s = Inr s'"
  then have "s' = ?s2 \<or> s' = ?s2\<lparr>bufs := link_front b (unlink b (bufs ?s2))\<rparr>"
    by (auto simp: brelse_def Let_def split: if_splits)
  then show ?thesis using bio_only_trans [OF bio_only_upd_bufs bio_only_bufs [OF refl]] by auto
qed

lemma bpin_frame [simp]: "bio_only s (bpin b s)" "bio_only s (bunpin b s)" "bio_only s (set_data b v s)"
  by (simp_all add: bpin_def bunpin_def set_data_def)

lemma bio_frames:
  "bread d n s1 = Inr (b, s2) \<Longrightarrow> bio_only s s1 \<Longrightarrow> bio_only s s2"
  "bwrite b s1 = Inr s2 \<Longrightarrow> bio_only s s1 \<Longrightarrow> bio_only s s2"
  "brelse b s1 = Inr s2 \<Longrightarrow> bio_only s s1 \<Longrightarrow> bio_only s s2"
  "bio_only s s1 \<Longrightarrow> bio_only s (bpin b s1)" "bio_only s s1 \<Longrightarrow> bio_only s (bunpin b s1)"
  "bio_only s s1 \<Longrightarrow> bio_only s (set_data b v s1)"
  by (auto elim: bio_only_trans intro: bread_frame bwrite_frame brelse_frame bpin_frame)

lemma tail_loop_frame:
  assumes "\<And>i s s'. body i s = Inr s' \<Longrightarrow> bio_only s s'"
  shows "tail_loop body i k s = Inr s' \<Longrightarrow> bio_only s s'"
  by (induction k arbitrary: i s) (auto intro: bio_only_trans assms)

lemma install_trans_frame: "install_trans s = Inr s' \<Longrightarrow> bio_only s s'"
  unfolding install_trans_def
  by (erule tail_loop_frame [rotated])
    (auto simp: install_block_def split: prod.splits intro!: bio_frames(4-6) elim!: bio_frames(1-3))

lemma write_log_frame: "write_log s = Inr s' \<Longrightarrow> bio_only s s'"
  unfolding write_log_def
  by (erule tail_loop_frame [rotated])
    (auto simp: log_one_def split: prod.splits intro!: bio_frames(4-6) elim!: bio_frames(1-3))

lemma write_head_frame: "write_head s = Inr s' \<Longrightarrow> bio_only s s'"
  by (auto simp: write_head_def split: prod.splits intro!: bio_frames(4-6) elim!: bio_frames(1-3))

lemma commit_fields:
  assumes "commit s = Inr s'" and "0 \<le> lh_n s"
  shows "lh_n s' = 0" "outstanding s' = outstanding s" "committing s' = committing s" "lsize s' = lsize s"
    "lstart s' = lstart s" "lh_block s' = lh_block s"
proof -
  have "lh_n s' = 0 \<and> outstanding s' = outstanding s \<and> committing s' = committing s \<and> lsize s' = lsize s \<and>
    lstart s' = lstart s \<and> lh_block s' = lh_block s"
  proof (cases "0 < lh_n s")
    case True
    then obtain s1 s2 s3 where r: "write_log s = Inr s1" "write_head s1 = Inr s2" "install_trans s2 = Inr s3"
      "write_head (s3\<lparr>lh_n := 0\<rparr>) = Inr s'"
      using assms(1) by (auto simp: commit_def)
    note f = bio_only_log [OF write_log_frame [OF r(1)]] bio_only_log [OF write_head_frame [OF r(2)]]
      bio_only_log [OF install_trans_frame [OF r(3)]] bio_only_log [OF write_head_frame [OF r(4)]]
    show ?thesis by (simp add: f)
  qed (use assms in \<open>auto simp: commit_def\<close>)
  then show "lh_n s' = 0" "outstanding s' = outstanding s" "committing s' = committing s" "lsize s' = lsize s"
    "lstart s' = lstart s" "lh_block s' = lh_block s" by blast+
qed

section \<open>The update of a block\<close>

text \<open>The typical use of \<open>log_write\<close> given in its comment: read, modify, log, release.\<close>

definition logged_update :: "u32 \<Rightarrow> u32 \<Rightarrow> (block \<Rightarrow> block) \<Rightarrow> 'z log_scheme \<Rightarrow> 'z log_scheme res" where
  "logged_update d n f s =
     bindR (bread d n s) (\<lambda>(b, s1).
     bindR (log_write b (set_data b (f (data (bufs s1 b))) s1)) (brelse b))"

text \<open>What an operation needs to run: it is inside a transaction with room for it.\<close>

definition in_op :: "'z log_scheme \<Rightarrow> bool" where
  "in_op s \<longleftrightarrow> 1 \<le> outstanding s \<and> lh_n s \<le> 28 \<and> lh_n s < lsize s - 1"

lemma logged_update_spec:
  assumes inv: "log_inv d s H" and n: "n \<notin> H" "n \<notin> log_area (lstart s)" and o: "in_op s"
    and room: "card (set (log_home s) \<union> H) < 30" and f: "length (f (view d s n)) = 1024"
  shows "\<exists>s'. logged_update d n f s = Inr s' \<and> log_inv d s' H \<and> view d s' = (view d s)(n := f (view d s n)) \<and>
      log_home s' = (if n \<in> set (log_home s) then log_home s else log_home s @ [n]) \<and>
      keeps d s H s' \<and> disk s' = disk s \<and> dwrites s' = dwrites s \<and> outstanding s' = outstanding s \<and>
      lsize s' = lsize s \<and> lstart s' = lstart s \<and> committing s' = committing s"
proof -
  obtain b s1 where r: "bread d n s = Inr (b, s1)" "log_inv d s1 (insert n H)" "cached s1 d n b"
      "data (bufs s1 b) = view d s n" "view d s1 = view d s" "keeps d s H s1" "bio_only s s1" "disk s1 = disk s"
      "dwrites s1 = dwrites s"
    using log_bread [OF inv n room] by blast
  let ?s2 = "set_data b (f (view d s n)) s1"
  note sd = log_set_data [OF r(2) insertI1 r(3) f]
  note lf = bio_only_log [OF bio_only_trans [OF r(7) sd(4)]]
  have c2: "cached ?s2 d n b" using keepsD [OF sd(3) insertI1 r(3)] .
  have home: "log_home ?s2 = log_home s" using bio_only_home [OF bio_only_trans [OF r(7) sd(4)]] .
  obtain s3 where w: "log_write b ?s2 = Inr s3" "log_inv d s3 (insert n H)" "view d s3 = view d ?s2"
      "log_home s3 = (if n \<in> set (log_home s) then log_home s else log_home s @ [n])" "keeps d ?s2 (insert n H) s3"
      "disk s3 = disk ?s2" "dwrites s3 = dwrites ?s2" "outstanding s3 = outstanding s" "lsize s3 = lsize s"
      "lstart s3 = lstart s" "committing s3 = committing s"
    using log_write_spec [OF sd(1) insertI1 c2] o unfolding lf home in_op_def by blast
  have c3: "cached s3 d n b" using keepsD [OF w(5) insertI1 c2] .
  have "n \<in> set (log_home s3)" using w(4) by simp
  then obtain s4 where q: "brelse b s3 = Inr s4" "log_inv d s4 (insert n H - {n})" "view d s4 = view d s3"
      "keeps d s3 (insert n H - {n}) s4" "bio_only s3 s4" "disk s4 = disk s3" "dwrites s4 = dwrites s3"
    using log_brelse [OF w(2) insertI1 c3] by blast
  have "insert n H - {n} = H" using n(1) by auto
  moreover have "keeps d s H s4"
    using r(6) sd(3) w(5) q(4) n(1) unfolding keeps_def by blast
  moreover have "logged_update d n f s = Inr s4"
    using r(1,4) w(1) q(1) by (simp add: logged_update_def)
  ultimately show ?thesis
    using q w(3,4,6-11) sd(2,5,6) r(5,8,9) bio_only_log [OF q(5)] bio_only_home [OF q(5)]
    by (intro exI [of _ s4]) simp
qed

section \<open>Commit\<close>

lemma apply_writes_length:
  "\<forall>(n, v)\<in>set ws. length v = k \<Longrightarrow> (\<And>n. length (f n) = k) \<Longrightarrow> length (apply_writes ws f n) = k"
  by (induction ws f rule: apply_writes.induct) auto

lemma commit_log_inv:
  assumes inv: "log_inv d s {}"
  shows "\<exists>s'. commit s = Inr s' \<and> log_inv d s' {} \<and> lh_n s' = 0 \<and>
      (\<forall>n. n \<notin> log_area (lstart s) \<longrightarrow> disk s' n = view d s n \<and> view d s' n = view d s n) \<and>
      bio_only (s\<lparr>lh_n := 0\<rparr>) s'"
proof (cases "0 < lh_n s")
  case False
  then have "lh_n s = 0" using log_invD(4) [OF inv] by simp
  moreover from this have "s\<lparr>lh_n := 0\<rparr> = s" by (cases s) simp
  then have "bio_only (s\<lparr>lh_n := 0\<rparr>) s" by (metis bio_only_refl)
  ultimately show ?thesis
    using inv log_inv_view_clean [OF inv] by (intro exI [of _ s]) (simp add: commit_def log_home_def)
next
  case True
  note D = log_invD [OF inv]
  obtain s' where s': "commit s = Inr s'" "bc d s' {}" "bio_only (s\<lparr>lh_n := 0\<rparr>) s'"
      "disk s' = apply_writes (commit_writes d s) (disk s)" "refs d s' = (\<lambda>_. 0)"
    using commit_spec [OF inv True] by blast
  have dk: "disk s' = crash_disk (length (commit_writes d s)) d s" using s'(4) by (simp add: crash_disk_def)
  note ca = crash_after [OF inv refl, folded dk]
  have v: "view d s' = disk s'" using bc_view_clean [OF s'(2)] s'(5) by auto
  note lf = bio_only_log [OF s'(3)]
  have "\<forall>(n, v)\<in>set (commit_writes d s). length v = 1024"
    using D(11,13,14) by (auto simp: commit_writes_def Let_def dest!: set_zip_rightD)
  then have len: "length (disk s' n) = 1024" for n
    unfolding s'(4) using apply_writes_length D(11) by blast
  have "get32 0 (disk s' (lstart s)) = 0"
    unfolding s'(4) using header_get(1) [of "[]" _ 0] D(11,13) by (simp add: commit_writes_def Let_def)
  then have "log_inv d s' {}"
    unfolding log_inv_def using s'(2,5) lf D(2,3) v len by (simp add: log_home_def)
  then show ?thesis using s' ca(3) v lf by (intro exI [of _ s']) simp
qed

section \<open>A log that starts empty\<close>

definition ex_boot :: log where
  "ex_boot = \<lparr>pmem = (\<lambda>_. 0), freelist = 0, kend = 0, kernel_pagetable = 0, etext = 0, trampoline = 0, satp = 0,
     mypid = 1, mypagetable = 0, bufs = (\<lambda>_. zero_buf), disk = (\<lambda>_. replicate 1024 0), dwrites = [],
     lstart = 2, lsize = 30, outstanding = 0, committing = False, ldev = 1, lh_n = 0, lh_block = replicate 30 0\<rparr>"

definition ex_log :: log where
  "ex_log = (binit ex_boot)\<lparr>outstanding := 1\<rparr>"

definition ex_tx :: log where
  "ex_tx = (case logged_update 1 50 (\<lambda>_. replicate 1024 7) ex_log of Inr s \<Rightarrow> s | Inl _ \<Rightarrow> ex_log)"

lemma get32_zeros: "get32 k (replicate m 0) = 0"
proof -
  have "word_of_bytes (replicate j 0) = (0 :: u32)" for j by (induction j) simp_all
  then show ?thesis by (simp add: get32_def take_replicate)
qed

lemma boot_zero: "refcnt (bufs (ex_boot\<lparr>disk := dk\<rparr>) b) = 0 \<and> dev (bufs (ex_boot\<lparr>disk := dk\<rparr>) b) \<noteq> 1"
  "refcnt (bufs ex_boot b) = 0 \<and> dev (bufs ex_boot b) \<noteq> 1"
  by (simp_all add: ex_boot_def zero_buf_def)

lemma binit_log_fields:
  "lstart (binit s) = lstart s" "lsize (binit s) = lsize s" "outstanding (binit s) = outstanding s"
  "committing (binit s) = committing s" "ldev (binit s) = ldev s" "lh_n (binit s) = lh_n s"
  "lh_block (binit s) = lh_block s"
  by (simp_all add: binit_def)

lemma ex_log_inv: "log_inv 1 ex_log {}" "in_op ex_log" "log_home ex_log = []" "lstart ex_log = 2"
proof -
  have c: "bc 1 ex_log {} = bc 1 (binit ex_boot) {}" "view 1 ex_log = view 1 (binit ex_boot)"
      "refs 1 ex_log = refs 1 (binit ex_boot)"
    by (rule bio_cong; simp add: ex_log_def)+
  show "log_home ex_log = []" "lstart ex_log = 2" "in_op ex_log"
    by (simp_all add: log_home_def ex_log_def ex_boot_def in_op_def binit_log_fields)
  then show "log_inv 1 ex_log {}"
    unfolding log_inv_def c using binit_bc [of ex_boot 1] boot_zero(2)
    by (simp add: ex_log_def ex_boot_def binit_log_fields binit_fields get32_zeros)
qed

lemma area_50: "50 \<notin> log_area 2"
proof
  assume "50 \<in> log_area 2"
  then obtain j where j: "50 = 2 + of_nat j + (1 :: u32)" "j < 29" by (auto simp: log_area_def set_log_slots)
  then have "of_nat 47 = (of_nat j :: u32)" by (simp add: algebra_simps)
  from of_nat_u32_inj [OF this] j(2) show False by simp
qed

lemma ex_tx_inv: "log_inv 1 ex_tx {}" "view 1 ex_tx = (view 1 ex_log)(50 := replicate 1024 7)"
  "log_home ex_tx = [50]" "lstart ex_tx = 2" "outstanding ex_tx = 1" "committing ex_tx = False" "lh_n ex_tx = 1"
proof -
  obtain s' where s': "logged_update 1 50 (\<lambda>_. replicate 1024 7) ex_log = Inr s'" "log_inv 1 s' {}"
      "view 1 s' = (view 1 ex_log)(50 := replicate 1024 7)" "log_home s' = [50]" "lstart s' = 2"
      "outstanding s' = 1" "committing s' = False"
    using logged_update_spec [OF ex_log_inv(1), of 50 "\<lambda>_. replicate 1024 7"] ex_log_inv area_50
    by (auto simp: ex_log_def ex_boot_def binit_log_fields)
  then show "log_inv 1 ex_tx {}" "view 1 ex_tx = (view 1 ex_log)(50 := replicate 1024 7)"
    "log_home ex_tx = [50]" "lstart ex_tx = 2" "outstanding ex_tx = 1" "committing ex_tx = False"
    by (simp_all add: ex_tx_def)
  then show "lh_n ex_tx = 1" using log_invD(4,12) [of 1 ex_tx "{}"] by simp
qed

section \<open>Properties\<close>

text \<open>Property C1. Crash atomicity of the log. A commit of a transaction with the home blocks
  \<open>log_home s\<close> returns and writes the blocks of \<open>commit_writes\<close> to the disk in that order. If
  the machine stops after any number \<open>k\<close> of these writes and starts again, with a cache that
  is empty, then \<open>initlog\<close> returns, and outside the log area the disk has either the contents
  from before the transaction, for every block, or those of the transaction, for every block; the
  latter from the write of the header on. The log is empty afterwards.\<close>

theorem commit_crash_atomic:
  assumes "log_inv d s {}" and "0 < lh_n s" and "k \<le> length (commit_writes d s)"
    and "\<forall>b<30. refcnt (bufs r b) = 0 \<and> dev (bufs r b) \<noteq> d" and "length (lh_block r) = 30"
    and "disk r = apply_writes (take k (commit_writes d s)) (disk s)" and "sb_logstart sb = lstart s"
  shows "\<exists>s' r'. commit s = Inr s' \<and> dwrites s' = dwrites s @ commit_writes d s \<and>
      initlog d sb (binit r) = Inr r' \<and> get32 0 (disk r' (lstart s)) = 0 \<and>
      (\<forall>n. n \<notin> log_area (lstart s) \<longrightarrow>
        disk r' n = (if k \<le> length (log_home s) then disk s n else view d s n))"
proof -
  obtain s' where "commit s = Inr s'" "dwrites s' = dwrites s @ commit_writes d s"
    using commit_spec [OF assms(1,2)] by blast
  moreover have "bc d (binit r) {}" "\<And>n. refs d (binit r) n = 0"
    using binit_bc [of r d] assms(4) by simp_all
  then obtain r' where "initlog d sb (binit r) = Inr r'" "get32 0 (disk r' (lstart s)) = 0"
      "\<forall>n. n \<notin> log_area (lstart s) \<longrightarrow> disk r' n = (if k \<le> length (log_home s) then disk s n else view d s n)"
    using crash_recovery [OF assms(1,3), of "binit r" sb] assms(5-7)
    by (auto simp: binit_fields binit_log_fields crash_disk_def)
  ultimately show ?thesis by blast
qed

theorem commit_crash_atomic_witness:
  "\<exists>s' r'. commit ex_tx = Inr s' \<and>
     initlog 1 \<lparr>sb_magic = FSMAGIC, sb_size = 1000, sb_nblocks = 954, sb_ninodes = 200, sb_nlog = 30,
       sb_logstart = 2, sb_inodestart = 32, sb_bmapstart = 45\<rparr>
       (binit (ex_boot\<lparr>disk := apply_writes (take 2 (commit_writes 1 ex_tx)) (disk ex_tx)\<rparr>)) = Inr r' \<and>
     disk r' 50 = replicate 1024 7"
proof -
  have "length (commit_writes 1 ex_tx) = 4" by (simp add: length_commit_writes ex_tx_inv(3))
  with commit_crash_atomic [OF ex_tx_inv(1), of 2 "ex_boot\<lparr>disk := apply_writes (take 2 (commit_writes 1 ex_tx)) (disk ex_tx)\<rparr>"
      "\<lparr>sb_magic = FSMAGIC, sb_size = 1000, sb_nblocks = 954, sb_ninodes = 200, sb_nlog = 30,
       sb_logstart = 2, sb_inodestart = 32, sb_bmapstart = 45\<rparr>"] boot_zero(1) ex_tx_inv area_50
  show ?thesis by (fastforce simp: ex_boot_def)
qed

lemma read_blocks_length: "read_blocks i k bs xs = Inr ys \<Longrightarrow> length ys = length xs"
  by (induction i k bs xs rule: read_blocks.induct) (auto split: if_splits)

lemma initlog_fields:
  assumes "initlog d sb s = Inr s'"
  shows "lh_n s' = 0" "outstanding s' = outstanding s" "committing s' = committing s" "lsize s' = sint (sb_nlog sb)"
    "length (lh_block s') = length (lh_block s)"
proof -
  let ?s = "s\<lparr>lstart := sb_logstart sb, lsize := sint (sb_nlog sb), ldev := d\<rparr>"
  obtain s1 s2 where r: "read_head ?s = Inr s1" "install_trans s1 = Inr s2" "write_head (s2\<lparr>lh_n := 0\<rparr>) = Inr s'"
    using assms by (auto simp: initlog_def recover_from_log_def)
  obtain b s0 n xs where h: "bread (ldev ?s) (lstart ?s) ?s = Inr (b, s0)" "length xs = length (lh_block s0)"
    "brelse b (s0\<lparr>lh_n := n, lh_block := xs\<rparr>) = Inr s1"
    using r(1) by (auto simp: read_head_def Let_def dest: read_blocks_length)
  note f = bio_only_log [OF bread_frame [OF h(1)]] bio_only_log [OF brelse_frame [OF h(3)]]
    bio_only_log [OF install_trans_frame [OF r(2)]] bio_only_log [OF write_head_frame [OF r(3)]]
  show "lh_n s' = 0" "outstanding s' = outstanding s" "committing s' = committing s" "lsize s' = sint (sb_nlog sb)"
    "length (lh_block s') = length (lh_block s)" by (simp_all add: f h(2))
qed

text \<open>An update of a block whose buffer has the count \<open>0xffffffff\<close>, in an empty transaction.\<close>

lemma logged_update_unpinned:
  assumes bc: "bc d s {}" and refs: "refs d s h = 0xffffffff"
    and l: "lh_n s = 0" "outstanding s = 1" "lsize s = 30" "length (lh_block s) = 30"
  shows "\<exists>s' b. logged_update d h (\<lambda>_. v) s = Inr s' \<and> log_home s' = [h] \<and> cached s' d h b \<and>
    data (bufs s' b) = v \<and> refcnt (bufs s' b) = 0"
proof -
  obtain xs where inv: "bio_inv d s xs {}" using bc by (auto simp: bc_def)
  obtain b where c: "cached s d h b" using refs refs_cached_ex [of d s h] by fastforce
  have b: "b < 30" "dev (bufs s b) = d" "blockno (bufs s b) = h" using c by (auto simp: cached_def)
  have r: "refcnt (bufs s b) = 0xffffffff" using view_cached(2) [OF inv c] refs by simp
  obtain s1 where s1: "bread d h s = Inr (b, s1)" and e: "s1 = s\<lparr>bufs := (bufs s)(b := bufs s1 b)\<rparr>"
    and x: "refcnt (bufs s1 b) = 0" "dev (bufs s1 b) = d" "blockno (bufs s1 b) = h"
      "sl_locked (blk (bufs s1 b))" "sl_pid (blk (bufs s1 b)) = mypid s"
    using bread_cached [OF inv c] b r by (auto simp: set_buf_def)
  have f: "lh_n s1 = 0" "outstanding s1 = 1" "lsize s1 = 30" "length (lh_block s1) = 30" "mypid s1 = mypid s"
    by (subst e, simp add: l)+
  obtain t ts where "lh_block s1 = t # ts" using f(4) by (cases "lh_block s1") auto
  then show ?thesis
    using s1 x f b(1)
    by (auto simp: logged_update_def log_write_def set_data_def upd_buf_def bpin_def brelse_def holdingsleep_def Let_def
        log_home_def cached_def releasesleep_def)
qed

text \<open>Property C31. Recovery breaks the reference counts of the buffers it uses: \<open>install_trans\<close>
  unpins the buffer of each block it installs, as after a commit, but no \<open>log_write\<close> pinned it, so
  its count goes from one to zero and then wraps around to \<open>0xffffffff\<close> in \<open>brelse\<close>. The first
  operation after \<open>initlog\<close> that updates such a block as the comment of \<open>log_write\<close> says (\<open>bread\<close>,
  modify, \<open>log_write\<close>, \<open>brelse\<close>) leaves it in the log with a buffer that has the new contents and
  the count 0: the buffer is not pinned, and \<open>bget\<close> may recycle it before the commit.\<close>

theorem recovery_unpins_log_blocks:
  assumes "log_inv d s {}" and "length (log_home s) < k" and "k \<le> 2 * length (log_home s) + 1"
    and "\<forall>b<30. refcnt (bufs r b) = 0 \<and> dev (bufs r b) \<noteq> d" and "length (lh_block r) = 30"
    and "disk r = apply_writes (take k (commit_writes d s)) (disk s)" and "sb_logstart sb = lstart s"
    and "sb_nlog sb = 30" and "outstanding r = 0" and "\<not> committing r"
  shows "\<exists>r' r1. initlog d sb (binit r) = Inr r' \<and> begin_op r' = Inr r1 \<and>
      (\<forall>h\<in>set (log_home s). refs d r' h = 0xffffffff \<and>
        (\<exists>s' b. logged_update d h (\<lambda>_. v) r1 = Inr s' \<and> log_home s' = [h] \<and> cached s' d h b \<and>
           data (bufs s' b) = v \<and> refcnt (bufs s' b) = 0))"
proof -
  have "k \<le> length (commit_writes d s)" using assms(3) by (simp add: length_commit_writes)
  moreover have "bc d (binit r) {}" "\<And>n. refs d (binit r) n = 0"
    using binit_bc [of r d] assms(4) by simp_all
  ultimately obtain r' where r': "initlog d sb (binit r) = Inr r'" "bc d r' {}"
      "refs d r' = (\<lambda>n. - of_bool (n \<in> set (header_blocks (crash_disk k d s (lstart s)))))"
    using crash_recovery [OF assms(1), of k "binit r" sb] assms(5-7)
    by (auto simp: binit_fields binit_log_fields crash_disk_def)
  note hs = crash_between(1) [OF assms(1-3)] and f = initlog_fields [OF r'(1), unfolded binit_log_fields]
  let ?r1 = "r'\<lparr>outstanding := 1\<rparr>"
  have c: "bc d ?r1 {} = bc d r' {}" "refs d ?r1 = refs d r'" by (rule bio_cong; simp)+
  have refs: "refs d r' h = 0xffffffff" if "h \<in> set (log_home s)" for h using r'(3) that by (simp add: hs)
  have "begin_op r' = Inr ?r1" using f assms(9,10) by (simp add: begin_op_def)
  moreover have "\<exists>s' b. logged_update d h (\<lambda>_. v) ?r1 = Inr s' \<and> log_home s' = [h] \<and> cached s' d h b \<and>
      data (bufs s' b) = v \<and> refcnt (bufs s' b) = 0" if "h \<in> set (log_home s)" for h
    by (rule logged_update_unpinned) (use c r'(2) refs [OF that] f assms(5,8) in simp_all)
  ultimately show ?thesis using r'(1) refs by blast
qed

theorem recovery_unpins_log_blocks_witness:
  "\<exists>r' r1 s' b. initlog 1 \<lparr>sb_magic = FSMAGIC, sb_size = 1000, sb_nblocks = 954, sb_ninodes = 200, sb_nlog = 30,
       sb_logstart = 2, sb_inodestart = 32, sb_bmapstart = 45\<rparr>
       (binit (ex_boot\<lparr>disk := apply_writes (take 2 (commit_writes 1 ex_tx)) (disk ex_tx)\<rparr>)) = Inr r' \<and>
     refs 1 r' 50 = 0xffffffff \<and> begin_op r' = Inr r1 \<and>
     logged_update 1 50 (\<lambda>_. replicate 1024 9) r1 = Inr s' \<and> log_home s' = [50] \<and> refcnt (bufs s' b) = 0"
  using recovery_unpins_log_blocks [OF ex_tx_inv(1), of 2 "ex_boot\<lparr>disk := apply_writes (take 2 (commit_writes 1 ex_tx)) (disk ex_tx)\<rparr>"
      "\<lparr>sb_magic = FSMAGIC, sb_size = 1000, sb_nblocks = 954, sb_ninodes = 200, sb_nlog = 30,
       sb_logstart = 2, sb_inodestart = 32, sb_bmapstart = 45\<rparr>" "replicate 1024 9"] boot_zero(1) ex_tx_inv
  by (fastforce simp: ex_boot_def)

lemma log_inv_op_update:
  "log_inv d (s\<lparr>outstanding := k\<rparr>) H = log_inv d s H"
  "view d (s\<lparr>outstanding := k\<rparr>) = view d s"
  "log_inv d (s\<lparr>committing := c\<rparr>) H = log_inv d s H" "view d (s\<lparr>committing := c\<rparr>) = view d s"
proof -
  have *: "bc d (s\<lparr>outstanding := k\<rparr>) H = bc d s H"
    "view d (s\<lparr>outstanding := k\<rparr>) = view d s"
    "refs d (s\<lparr>outstanding := k\<rparr>) = refs d s"
    "bc d (s\<lparr>committing := c\<rparr>) H = bc d s H" "view d (s\<lparr>committing := c\<rparr>) = view d s"
    "refs d (s\<lparr>committing := c\<rparr>) = refs d s"
    by (rule bio_cong; simp)+
  show "log_inv d (s\<lparr>outstanding := k\<rparr>) H = log_inv d s H"
    "log_inv d (s\<lparr>committing := c\<rparr>) H = log_inv d s H"
    unfolding log_inv_def * by (simp_all add: log_home_def)
  show "view d (s\<lparr>outstanding := k\<rparr>) = view d s" "view d (s\<lparr>committing := c\<rparr>) = view d s"
    by (fact *)+
qed

text \<open>Property C15. \<open>end_op\<close> of the last outstanding operation commits: it returns with every
  block outside the log on the disk as the operations left it, the log empty, no buffer pinned and
  the log open for new operations.\<close>

theorem end_op_commits:
  assumes "log_inv d s {}" and "outstanding s = 1" and "\<not> committing s"
  shows "\<exists>s'. end_op s = Inr s' \<and> log_inv d s' {} \<and> lh_n s' = 0 \<and> outstanding s' = 0 \<and> \<not> committing s' \<and>
      refs d s' = (\<lambda>_. 0) \<and>
      (\<forall>n. n \<notin> log_area (lstart s) \<longrightarrow> disk s' n = view d s n \<and> view d s' n = view d s n)"
proof -
  let ?s1 = "s\<lparr>outstanding := 0, committing := True\<rparr>"
  have e: "end_op_enter s = Inr (True, ?s1)" using assms(2,3) by (simp add: end_op_enter_def Let_def)
  have "log_inv d ?s1 {}" using assms(1) by (simp add: log_inv_op_update)
  then obtain s2 where c: "commit ?s1 = Inr s2" "log_inv d s2 {}" "lh_n s2 = 0" "bio_only (?s1\<lparr>lh_n := 0\<rparr>) s2"
      "\<forall>n. n \<notin> log_area (lstart s) \<longrightarrow> disk s2 n = view d s n \<and> view d s2 n = view d s n"
    using commit_log_inv [of d ?s1] by (auto simp: log_inv_op_update)
  have s3: "log_inv d (end_op_leave s2) {}" using c(2) by (simp add: end_op_leave_def log_inv_op_update)
  have "log_home (end_op_leave s2) = []" using c(3) by (simp add: log_home_def end_op_leave_def)
  then have "refs d (end_op_leave s2) = (\<lambda>_. 0)" using log_invD(9) [OF s3] by simp
  then show ?thesis
    using e c s3 bio_only_log [OF c(4)]
    by (intro exI [of _ "end_op_leave s2"]) (simp add: end_op_def end_op_leave_def log_inv_op_update)
qed

theorem end_op_commits_witness:
  "\<exists>s'. end_op ex_tx = Inr s' \<and> disk s' 50 = replicate 1024 7 \<and> lh_n s' = 0"
  using end_op_commits [OF ex_tx_inv(1)] ex_tx_inv(2,4-6) area_50 by fastforce

section \<open>The reservation of log space\<close>

text \<open>Any number of processes run operations on the file system. \<open>ops\<close> has one number for
  each operation that has begun and not ended: the calls of \<open>log_write\<close> it has made, at most
  \<open>MAXOPBLOCKS\<close>. \<open>begin_op\<close>, \<open>log_write\<close> and the two halves of \<open>end_op\<close> are
  steps of their own, since each runs under the lock; between them the other operations on
  buffers take place.\<close>

record log_sys =
  the_log :: log
  ops :: "nat list"

inductive log_step :: "log_sys \<Rightarrow> log_sys \<Rightarrow> bool" where
  begin_step: "begin_op (the_log x) = Inr s \<Longrightarrow> log_step x \<lparr>the_log = s, ops = 0 # ops x\<rparr>"
| write_step: "ops x = ks @ k # js \<Longrightarrow> k < 10 \<Longrightarrow> log_write b (the_log x) = Inr s \<Longrightarrow>
    log_step x \<lparr>the_log = s, ops = ks @ Suc k # js\<rparr>"
| end_step: "ops x = ks @ k # js \<Longrightarrow> end_op_enter (the_log x) = Inr (c, s) \<Longrightarrow>
    log_step x \<lparr>the_log = s, ops = ks @ js\<rparr>"
| commit_step: "committing (the_log x) \<Longrightarrow> commit (the_log x) = Inr s \<Longrightarrow>
    log_step x (x\<lparr>the_log := end_op_leave s\<rparr>)"
| buffer_step: "bio_only (the_log x) s \<Longrightarrow> log_step x (x\<lparr>the_log := s\<rparr>)"

inductive log_reach :: "log_sys \<Rightarrow> bool" where
  boot: "lh_n (the_log x) = 0 \<Longrightarrow> outstanding (the_log x) = 0 \<Longrightarrow> \<not> committing (the_log x) \<Longrightarrow>
    length (lh_block (the_log x)) = 30 \<Longrightarrow> ops x = [] \<Longrightarrow> log_reach x"
| step: "log_reach x \<Longrightarrow> log_step x y \<Longrightarrow> log_reach y"

text \<open>Every operation may still log \<open>10 - k\<close> blocks; the log has room for all of them.\<close>

definition reserved :: "nat list \<Rightarrow> int" where
  "reserved ks = sum_list (map (\<lambda>k. 10 - int k) ks)"

definition reserve_inv :: "log_sys \<Rightarrow> bool" where
  "reserve_inv x \<longleftrightarrow>
     0 \<le> lh_n (the_log x) \<and> (\<forall>k\<in>set (ops x). k \<le> 10) \<and> outstanding (the_log x) = int (length (ops x)) \<and>
     (committing (the_log x) \<longrightarrow> ops x = []) \<and> length (lh_block (the_log x)) = 30 \<and>
     lh_n (the_log x) + reserved (ops x) \<le> 30"

lemma reserved_le: "reserved ks \<le> 10 * int (length ks)"
  by (induction ks) (auto simp: reserved_def)

lemma reserved_nonneg: "\<forall>k\<in>set ks. k \<le> 10 \<Longrightarrow> 0 \<le> reserved ks"
  by (induction ks) (auto simp: reserved_def)

lemma reserved_append [simp]: "reserved (ks @ js) = reserved ks + reserved js"
  "reserved (k # js) = 10 - int k + reserved js"
  by (simp_all add: reserved_def)

lemma log_write_fields:
  assumes "log_write b s = Inr s'"
  shows "lh_n s' \<in> {lh_n s, lh_n s + 1}" "outstanding s' = outstanding s" "committing s' = committing s"
    "length (lh_block s') = length (lh_block s)" "lsize s' = lsize s"
proof -
  have pin: "outstanding (bpin b t) = outstanding t" "committing (bpin b t) = committing t"
    "lh_block (bpin b t) = lh_block t" "lsize (bpin b t) = lsize t" for t :: "'b log_scheme"
    using bio_only_log [OF bpin_frame(1)] by blast+
  show "lh_n s' \<in> {lh_n s, lh_n s + 1}" "outstanding s' = outstanding s" "committing s' = committing s"
    "length (lh_block s') = length (lh_block s)" "lsize s' = lsize s"
    using assms by (auto simp: log_write_def Let_def pin split: if_splits)
qed

lemma int_length_zero: "int (length ks) + int (length js) = 0 \<longleftrightarrow> ks = [] \<and> js = []"
  by (cases ks; cases js) auto

lemma reserve_inv_step:
  assumes "reserve_inv x" and "log_step x y"
  shows "reserve_inv y"
  using assms(2,1)
proof cases
  case (begin_step s)
  then show ?thesis using assms(1) reserved_le [of "ops x"]
    by (auto simp: reserve_inv_def begin_op_def split: if_splits)
next
  case (write_step ks k js b s)
  note f = log_write_fields [OF write_step(4)]
  from write_step f assms(1) show ?thesis by (auto simp: reserve_inv_def)
next
  case (end_step ks k js c s)
  then show ?thesis using assms(1)
    by (auto simp: reserve_inv_def end_op_enter_def Let_def int_length_zero split: if_splits)
next
  case (commit_step s)
  then have "0 \<le> lh_n (the_log x)" using assms(1) by (simp add: reserve_inv_def)
  note f = commit_fields [OF commit_step(3) this]
  from commit_step f assms(1) show ?thesis by (auto simp: reserve_inv_def end_op_leave_def reserved_def)
next
  case (buffer_step s)
  then show ?thesis using assms(1) bio_only_log [OF buffer_step(2)] by (simp add: reserve_inv_def)
qed

lemma reserve_inv_reach: "log_reach x \<Longrightarrow> reserve_inv x"
proof (induction rule: log_reach.induct)
  case (boot x)
  then show ?case by (simp add: reserve_inv_def reserved_def)
qed (rule reserve_inv_step)

text \<open>Property C16. The reservation of \<open>begin_op\<close> is enough: in every reachable state an
  operation that has logged fewer than \<open>MAXOPBLOCKS\<close> blocks can log another without a panic, and
  the index \<open>log_write\<close> uses is inside the array, provided the log on the disk has 31 or more
  blocks.\<close>

theorem log_space_reserved:
  assumes "log_reach x" and "k \<in> set (ops x)" and "k < 10" and "31 \<le> lsize (the_log x)"
  shows "(\<exists>s. log_write b (the_log x) = Inr s) \<and> lh_n (the_log x) < int (length (lh_block (the_log x)))"
proof -
  note inv = reserve_inv_reach [OF assms(1)]
  obtain ks js where ops: "ops x = ks @ k # js" using assms(2) by (meson split_list)
  have "0 \<le> reserved ks" "0 \<le> reserved js"
    using inv ops reserved_nonneg [of ks] reserved_nonneg [of js] by (auto simp: reserve_inv_def)
  then have "lh_n (the_log x) < 30" using inv ops assms(3) by (simp add: reserve_inv_def)
  moreover have "1 \<le> outstanding (the_log x)" using inv ops by (simp add: reserve_inv_def)
  ultimately show ?thesis
    using assms(4) inv by (auto simp: log_write_def Let_def reserve_inv_def)
qed

theorem log_space_reserved_witness:
  "\<exists>s. log_write 3 ((ex_boot\<lparr>lsize := 31, outstanding := 1\<rparr>)) = Inr s"
proof -
  have "log_reach \<lparr>the_log = ex_boot\<lparr>lsize := 31\<rparr>, ops = []\<rparr>" by (rule boot) (simp_all add: ex_boot_def)
  moreover have "log_step \<lparr>the_log = ex_boot\<lparr>lsize := 31\<rparr>, ops = []\<rparr>
      \<lparr>the_log = ex_boot\<lparr>lsize := 31, outstanding := 1\<rparr>, ops = [0]\<rparr>"
    using begin_step [of "\<lparr>the_log = ex_boot\<lparr>lsize := 31\<rparr>, ops = []\<rparr>" "ex_boot\<lparr>lsize := 31, outstanding := 1\<rparr>"]
    by (simp add: begin_op_def ex_boot_def)
  ultimately have "log_reach \<lparr>the_log = ex_boot\<lparr>lsize := 31, outstanding := 1\<rparr>, ops = [0]\<rparr>" by (rule step)
  from log_space_reserved [OF this, of 0 3] show ?thesis by simp
qed

text \<open>With the log of \<open>LOGSIZE\<close> blocks that \<open>mkfs\<close> makes, one of them the header, the
  reservation falls one block short. The run below has three operations that log ten, ten and
  nine blocks.\<close>

definition gap_run :: "nat \<Rightarrow> log \<Rightarrow> bool" where
  "gap_run n s \<longleftrightarrow> lh_n s = int n \<and> length (lh_block s) = 30 \<and> lsize s = 30 \<and> outstanding s = 3 \<and>
     (\<forall>b<30. blockno (bufs s b) = of_nat (100 + b)) \<and> set (log_home s) \<subseteq> (\<lambda>b. of_nat (100 + b)) ` {..<n}"

lemma gap_write:
  assumes g: "gap_run n s" and n: "n < 29"
  shows "\<exists>s'. log_write n s = Inr s' \<and> gap_run (Suc n) s'"
proof -
  have bn: "blockno (bufs s n) = of_nat (100 + n)" using g n by (simp add: gap_run_def)
  have new: "of_nat (100 + n) \<notin> set (log_home s)"
  proof
    assume "of_nat (100 + n) \<in> set (log_home s)"
    then obtain b where "of_nat (100 + n) = (of_nat (100 + b) :: u32)" "b < n" using g by (auto simp: gap_run_def)
    from of_nat_u32_inj [OF this(1)] this(2) n show False by simp
  qed
  let ?s1 = "s\<lparr>lh_block := (lh_block s)[n := of_nat (100 + n)]\<rparr>"
  let ?s2 = "(bpin n ?s1)\<lparr>lh_n := int n + 1\<rparr>"
  note lf = bio_only_log [OF bpin_frame(1), of n ?s1]
  have "log_write n s = Inr ?s2"
    using log_write_eq [of s n] g n new bn by (simp add: gap_run_def)
  moreover have "nat (int n + 1) = Suc n" by simp
  then have "log_home ?s2 = log_home s @ [of_nat (100 + n)]"
    using g n lf by (simp add: log_home_def gap_run_def take_Suc_conv_app_nth)
  moreover have "blockno (bufs (bpin n ?s1) b) = blockno (bufs s b)" for b by (simp add: bpin_def upd_buf_def)
  ultimately show ?thesis using g lf by (auto simp: gap_run_def)
qed

lemma gap_writes:
  assumes "log_reach \<lparr>the_log = s, ops = ks @ 0 # js\<rparr>" and "gap_run n s" and "m \<le> 10" and "n + m \<le> 29"
  shows "\<exists>s'. log_reach \<lparr>the_log = s', ops = ks @ m # js\<rparr> \<and> gap_run (n + m) s'"
  using assms(3,4)
proof (induction m)
  case 0
  then show ?case using assms by auto
next
  case (Suc m)
  then obtain s1 where s1: "log_reach \<lparr>the_log = s1, ops = ks @ m # js\<rparr>" "gap_run (n + m) s1" by auto
  obtain s2 where s2: "log_write (n + m) s1 = Inr s2" "gap_run (Suc (n + m)) s2"
    using gap_write [OF s1(2)] Suc.prems by auto
  have "log_step \<lparr>the_log = s1, ops = ks @ m # js\<rparr> \<lparr>the_log = s2, ops = ks @ Suc m # js\<rparr>"
    by (rule write_step) (use Suc.prems s2 in auto)
  with s1(1) s2(2) show ?case by (auto intro: step)
qed

definition ex_gap :: log where
  "ex_gap = ex_boot\<lparr>bufs := (\<lambda>b. zero_buf\<lparr>blockno := of_nat (100 + b)\<rparr>)\<rparr>"

lemma gap_start: "log_reach \<lparr>the_log = ex_gap\<lparr>outstanding := 3\<rparr>, ops = [0, 0, 0]\<rparr>"
proof -
  have "log_reach \<lparr>the_log = ex_gap, ops = []\<rparr>" by (rule boot) (simp_all add: ex_gap_def ex_boot_def)
  moreover have "log_step \<lparr>the_log = ex_gap, ops = []\<rparr> \<lparr>the_log = ex_gap\<lparr>outstanding := 1\<rparr>, ops = [0]\<rparr>"
    using begin_step [of "\<lparr>the_log = ex_gap, ops = []\<rparr>" "ex_gap\<lparr>outstanding := 1\<rparr>"]
    by (simp add: begin_op_def ex_gap_def ex_boot_def)
  moreover have "log_step \<lparr>the_log = ex_gap\<lparr>outstanding := 1\<rparr>, ops = [0]\<rparr> \<lparr>the_log = ex_gap\<lparr>outstanding := 2\<rparr>, ops = [0, 0]\<rparr>"
    using begin_step [of "\<lparr>the_log = ex_gap\<lparr>outstanding := 1\<rparr>, ops = [0]\<rparr>" "ex_gap\<lparr>outstanding := 2\<rparr>"]
    by (simp add: begin_op_def ex_gap_def ex_boot_def)
  moreover have "log_step \<lparr>the_log = ex_gap\<lparr>outstanding := 2\<rparr>, ops = [0, 0]\<rparr> \<lparr>the_log = ex_gap\<lparr>outstanding := 3\<rparr>, ops = [0, 0, 0]\<rparr>"
    using begin_step [of "\<lparr>the_log = ex_gap\<lparr>outstanding := 2\<rparr>, ops = [0, 0]\<rparr>" "ex_gap\<lparr>outstanding := 3\<rparr>"]
    by (simp add: begin_op_def ex_gap_def ex_boot_def)
  ultimately show ?thesis by (meson step)
qed

text \<open>Property C30. With a log of \<open>LOGSIZE\<close> blocks there is a reachable state in which an
  operation that has logged nine blocks, within its \<open>MAXOPBLOCKS\<close>, panics in its next
  \<open>log_write\<close>: \<open>begin_op\<close> lets three operations reserve 30 blocks, \<open>log_write\<close> accepts
  29.\<close>

theorem log_reservation_gap:
  "\<exists>x b. log_reach x \<and> lsize (the_log x) = 30 \<and> 9 \<in> set (ops x) \<and>
     log_write b (the_log x) = Inl (Panic ''too big a transaction'')"
proof -
  have "gap_run 0 (ex_gap\<lparr>outstanding := 3\<rparr>)"
    by (simp add: gap_run_def ex_gap_def ex_boot_def zero_buf_def log_home_def)
  then obtain s1 where s1: "log_reach \<lparr>the_log = s1, ops = [10, 0, 0]\<rparr>" "gap_run 10 s1"
    using gap_writes [of _ "[]" "[0, 0]" 0 10] gap_start by auto
  then obtain s2 where s2: "log_reach \<lparr>the_log = s2, ops = [10, 10, 0]\<rparr>" "gap_run 20 s2"
    using gap_writes [of s1 "[10]" "[0]" 10 10] by auto
  then obtain s3 where s3: "log_reach \<lparr>the_log = s3, ops = [10, 10, 9]\<rparr>" "gap_run 29 s3"
    using gap_writes [of s2 "[10, 10]" "[]" 20 9] by auto
  then show ?thesis
    by (intro exI [of _ "\<lparr>the_log = s3, ops = [10, 10, 9]\<rparr>"] exI [of _ 0]) (simp add: gap_run_def log_write_def)
qed

end
