(* ===== verification/Fs.thy ===== *)
theory Fs
  imports Transact UserMem
begin

text \<open>
  \<open>kernel/fs.c\<close>: block allocator, inode cache, file contents, directories and path names. A
  pointer to an inode is the index of its entry in the cache; the null pointer, where a function
  may return it, is \<open>None\<close>. Kernel addresses such as \<open>&de\<close> are addresses of the
  physical memory; \<open>de_addr\<close> is where the local variable \<open>de\<close> of the running function is.
  A C string is the list of its bytes without the NUL.

  The indices of the loops over the bitmap and over file contents are natural numbers: they stay
  below \<open>sb.size\<close> and below the size of the file, which the callers keep below \<open>2^31\<close>.
\<close>

section \<open>State\<close>

record inode =
  i_dev :: u32
  i_inum :: u32
  i_ref :: int
  i_lock :: sleeplock
  i_valid :: bool
  i_type :: u16
  i_major :: u16
  i_minor :: u16
  i_nlink :: u16
  i_size :: u32
  i_addrs :: "u32 list"

abbreviation (input) NINODE :: nat where "NINODE \<equiv> 50"
abbreviation (input) ROOTDEV :: u32 where "ROOTDEV \<equiv> 1"
abbreviation (input) ROOTINO :: u32 where "ROOTINO \<equiv> 1"
abbreviation (input) T_DIR :: u16 where "T_DIR \<equiv> 1"
abbreviation (input) T_FILE :: u16 where "T_FILE \<equiv> 2"
abbreviation (input) T_DEVICE :: u16 where "T_DEVICE \<equiv> 3"

record fs = log +
  sb :: superblock
  icache :: "inode list"
  cwd :: nat
  de_addr :: u64

definition upd_inode :: "nat \<Rightarrow> (inode \<Rightarrow> inode) \<Rightarrow> 'z fs_scheme \<Rightarrow> 'z fs_scheme" where
  "upd_inode ip f s = s\<lparr>icache := (icache s)[ip := f (icache s ! ip)]\<rparr>"

section \<open>Blocks\<close>

definition readsb :: "u32 \<Rightarrow> 'z fs_scheme \<Rightarrow> (superblock \<times> 'z fs_scheme) res" where
  "readsb d s =
     bindR (bread d 1 s) (\<lambda>(bp, s1).
     let x = get_superblock (data (bufs s1 bp))
     in bindR (brelse bp s1) (\<lambda>s2. Inr (x, s2)))"

definition fsinit :: "u32 \<Rightarrow> 'z fs_scheme \<Rightarrow> 'z fs_scheme res" where
  "fsinit d s =
     bindR (readsb d s) (\<lambda>(x, s1).
     let s2 = s1\<lparr>sb := x\<rparr>
     in if sb_magic x \<noteq> FSMAGIC then Inl (Panic ''invalid file system'') else initlog d x s2)"

definition bzero :: "u32 \<Rightarrow> u32 \<Rightarrow> 'z fs_scheme \<Rightarrow> 'z fs_scheme res" where
  "bzero d bno s =
     bindR (bread d bno s) (\<lambda>(bp, s1).
     bindR (log_write bp (set_data bp (replicate BSIZE 0) s1)) (brelse bp))"

text \<open>\<open>m = 1 << (bi % 8)\<close>, and the byte \<open>bp->data[bi/8]\<close>.\<close>

definition bit_mask :: "nat \<Rightarrow> byte" where
  "bit_mask bi = push_bit (bi mod 8) 1"

definition bit_set :: "nat \<Rightarrow> block \<Rightarrow> bool" where
  "bit_set bi bs \<longleftrightarrow> (bs ! (bi div 8)) AND bit_mask bi \<noteq> 0"

definition mark_used :: "nat \<Rightarrow> block \<Rightarrow> block" where
  "mark_used bi bs = bs[bi div 8 := (bs ! (bi div 8)) OR bit_mask bi]"

definition mark_free :: "nat \<Rightarrow> block \<Rightarrow> block" where
  "mark_free bi bs = bs[bi div 8 := (bs ! (bi div 8)) AND NOT (bit_mask bi)]"

text \<open>The scan of one block of the bitmap: \<open>k\<close> bits from \<open>bi\<close> on are left.\<close>

fun find_free_bit :: "nat \<Rightarrow> nat \<Rightarrow> block \<Rightarrow> nat option" where
  "find_free_bit bi 0 bs = None"
| "find_free_bit bi (Suc k) bs = (if \<not> bit_set bi bs then Some bi else find_free_bit (Suc bi) k bs)"

text \<open>\<open>for(b = ...; b < sb.size; b += BPB)\<close>, with \<open>k\<close> rounds left.\<close>

fun balloc_loop :: "nat \<Rightarrow> nat \<Rightarrow> u32 \<Rightarrow> 'z fs_scheme \<Rightarrow> (u32 \<times> 'z fs_scheme) res" where
  "balloc_loop b 0 d s = Inl (Panic ''balloc: out of blocks'')"
| "balloc_loop b (Suc k) d s =
     bindR (bread d (BBLOCK (of_nat b) (sb s)) s) (\<lambda>(bp, s1).
     case find_free_bit 0 (min 8192 (unat (sb_size (sb s1)) - b)) (data (bufs s1 bp)) of
       Some bi \<Rightarrow>
         bindR (log_write bp (set_data bp (mark_used bi (data (bufs s1 bp))) s1)) (\<lambda>s2.
         bindR (brelse bp s2) (\<lambda>s3.
         bindR (bzero d (of_nat (b + bi)) s3) (\<lambda>s4. Inr (of_nat (b + bi), s4))))
     | None \<Rightarrow> bindR (brelse bp s1) (balloc_loop (b + 8192) k d))"

definition balloc :: "u32 \<Rightarrow> 'z fs_scheme \<Rightarrow> (u32 \<times> 'z fs_scheme) res" where
  "balloc d s = balloc_loop 0 ((unat (sb_size (sb s)) + 8191) div 8192) d s"

definition bfree :: "u32 \<Rightarrow> u32 \<Rightarrow> 'z fs_scheme \<Rightarrow> 'z fs_scheme res" where
  "bfree d b s =
     bindR (bread d (BBLOCK b (sb s)) s) (\<lambda>(bp, s1).
     let bi = unat b mod 8192
     in if \<not> bit_set bi (data (bufs s1 bp)) then Inl (Panic ''freeing free block'')
        else bindR (log_write bp (set_data bp (mark_free bi (data (bufs s1 bp))) s1)) (brelse bp))"

section \<open>Inodes\<close>

definition iinit :: "'z fs_scheme \<Rightarrow> 'z fs_scheme" where
  "iinit s = s\<lparr>icache := map (\<lambda>x. x\<lparr>i_lock := initsleeplock\<rparr>) (icache s)\<rparr>"

text \<open>The search of \<open>iget\<close>: a cached entry, and the first empty slot seen before it.\<close>

fun iget_scan :: "u32 \<Rightarrow> u32 \<Rightarrow> nat \<Rightarrow> nat option \<Rightarrow> inode list \<Rightarrow> nat option \<times> nat option" where
  "iget_scan d n i free [] = (None, free)"
| "iget_scan d n i free (x # xs) =
     (if i_ref x > 0 \<and> i_dev x = d \<and> i_inum x = n then (Some i, free)
      else iget_scan d n (Suc i) (if free = None \<and> i_ref x = 0 then Some i else free) xs)"

definition iget :: "u32 \<Rightarrow> u32 \<Rightarrow> 'z fs_scheme \<Rightarrow> (nat \<times> 'z fs_scheme) res" where
  "iget d n s =
     (case iget_scan d n 0 None (icache s) of
        (Some ip, _) \<Rightarrow> Inr (ip, upd_inode ip (\<lambda>x. x\<lparr>i_ref := i_ref x + 1\<rparr>) s)
      | (None, None) \<Rightarrow> Inl (Panic ''iget: no inodes'')
      | (None, Some ip) \<Rightarrow>
          Inr (ip, upd_inode ip (\<lambda>x. x\<lparr>i_dev := d, i_inum := n, i_ref := 1, i_valid := False\<rparr>) s))"

definition dino_off :: "u32 \<Rightarrow> nat" where
  "dino_off n = 64 * (unat n mod 16)"

text \<open>\<open>for(inum = ...; inum < sb.ninodes; inum++)\<close>, with \<open>k\<close> rounds left.\<close>

fun ialloc_loop :: "nat \<Rightarrow> nat \<Rightarrow> u32 \<Rightarrow> u16 \<Rightarrow> 'z fs_scheme \<Rightarrow> (nat \<times> 'z fs_scheme) res" where
  "ialloc_loop n 0 d t s = Inl (Panic ''ialloc: no inodes'')"
| "ialloc_loop n (Suc k) d t s =
     bindR (bread d (IBLOCK (of_nat n) (sb s)) s) (\<lambda>(bp, s1).
     let k0 = dino_off (of_nat n); bs = data (bufs s1 bp)
     in if get16 k0 bs = 0
        then bindR (log_write bp (set_data bp (put16 k0 t (put_bytes k0 (replicate 64 0) bs)) s1)) (\<lambda>s2.
             bindR (brelse bp s2) (iget d (of_nat n)))
        else bindR (brelse bp s1) (ialloc_loop (Suc n) k d t))"

definition ialloc :: "u32 \<Rightarrow> u16 \<Rightarrow> 'z fs_scheme \<Rightarrow> (nat \<times> 'z fs_scheme) res" where
  "ialloc d t s = ialloc_loop 1 (unat (sb_ninodes (sb s)) - 1) d t s"

definition dinode_of :: "inode \<Rightarrow> dinode" where
  "dinode_of x = \<lparr>di_type = i_type x, di_major = i_major x, di_minor = i_minor x, di_nlink = i_nlink x,
     di_size = i_size x, di_addrs = i_addrs x\<rparr>"

definition iupdate :: "nat \<Rightarrow> 'z fs_scheme \<Rightarrow> 'z fs_scheme res" where
  "iupdate ip s =
     (let x = icache s ! ip
      in bindR (bread (i_dev x) (IBLOCK (i_inum x) (sb s)) s) (\<lambda>(bp, s1).
         bindR (log_write bp (set_data bp (put_dinode (dino_off (i_inum x)) (dinode_of x) (data (bufs s1 bp))) s1))
           (brelse bp)))"

definition idup :: "nat \<Rightarrow> 'z fs_scheme \<Rightarrow> nat \<times> 'z fs_scheme" where
  "idup ip s = (ip, upd_inode ip (\<lambda>x. x\<lparr>i_ref := i_ref x + 1\<rparr>) s)"

definition load_dinode :: "dinode \<Rightarrow> inode \<Rightarrow> inode" where
  "load_dinode di x = x\<lparr>i_type := di_type di, i_major := di_major di, i_minor := di_minor di,
     i_nlink := di_nlink di, i_size := di_size di, i_addrs := di_addrs di\<rparr>"

definition ilock :: "nat \<Rightarrow> 'z fs_scheme \<Rightarrow> 'z fs_scheme res" where
  "ilock ip s =
     (if i_ref (icache s ! ip) < 1 then Inl (Panic ''ilock'')
      else case acquiresleep (mypid s) (i_lock (icache s ! ip)) of
        None \<Rightarrow> Inl (Sleeps ''inode'')
      | Some lk \<Rightarrow>
        let s1 = upd_inode ip (i_lock_update (\<lambda>_. lk)) s; x = icache s1 ! ip
        in if \<not> i_valid x
           then bindR (bread (i_dev x) (IBLOCK (i_inum x) (sb s1)) s1) (\<lambda>(bp, s2).
                let di = get_dinode (dino_off (i_inum x)) (data (bufs s2 bp))
                in bindR (brelse bp (upd_inode ip (load_dinode di) s2)) (\<lambda>s3.
                   let s4 = upd_inode ip (i_valid_update (\<lambda>_. True)) s3
                   in if i_type (icache s4 ! ip) = 0 then Inl (Panic ''ilock: no type'') else Inr s4))
           else Inr s1)"

definition iunlock :: "nat \<Rightarrow> 'z fs_scheme \<Rightarrow> 'z fs_scheme res" where
  "iunlock ip s =
     (if \<not> holdingsleep (mypid s) (i_lock (icache s ! ip)) \<or> i_ref (icache s ! ip) < 1 then Inl (Panic ''iunlock'')
      else Inr (upd_inode ip (\<lambda>x. x\<lparr>i_lock := releasesleep (i_lock x)\<rparr>) s))"

section \<open>Contents\<close>

definition bmap :: "nat \<Rightarrow> nat \<Rightarrow> 'z fs_scheme \<Rightarrow> (u32 \<times> 'z fs_scheme) res" where
  "bmap ip bn s =
     (let x = icache s ! ip; d = i_dev x
      in if bn < NDIRECT
         then (if i_addrs x ! bn = 0
               then bindR (balloc d s) (\<lambda>(a, s1).
                    Inr (a, upd_inode ip (\<lambda>x. x\<lparr>i_addrs := (i_addrs x)[bn := a]\<rparr>) s1))
               else Inr (i_addrs x ! bn, s))
         else if bn - NDIRECT < NINDIRECT
         then bindR (if i_addrs x ! NDIRECT = 0
                     then bindR (balloc d s) (\<lambda>(a, s1).
                          Inr (a, upd_inode ip (\<lambda>x. x\<lparr>i_addrs := (i_addrs x)[NDIRECT := a]\<rparr>) s1))
                     else Inr (i_addrs x ! NDIRECT, s)) (\<lambda>(addr, s2).
              bindR (bread d addr s2) (\<lambda>(bp, s3).
              let k = 4 * (bn - NDIRECT)
              in if get32 k (data (bufs s3 bp)) = 0
                 then bindR (balloc d s3) (\<lambda>(a, s4).
                      bindR (log_write bp (set_data bp (put32 k a (data (bufs s4 bp))) s4)) (\<lambda>s5.
                      bindR (brelse bp s5) (\<lambda>s6. Inr (a, s6))))
                 else bindR (brelse bp s3) (\<lambda>s6. Inr (get32 k (data (bufs s3 bp)), s6))))
         else Inl (Panic ''bmap: out of range''))"

fun itrunc_direct :: "nat \<Rightarrow> nat \<Rightarrow> nat \<Rightarrow> 'z fs_scheme \<Rightarrow> 'z fs_scheme res" where
  "itrunc_direct ip i 0 s = Inr s"
| "itrunc_direct ip i (Suc k) s =
     (let x = icache s ! ip
      in if i_addrs x ! i \<noteq> 0
         then bindR (bfree (i_dev x) (i_addrs x ! i) s) (\<lambda>s1.
              itrunc_direct ip (Suc i) k (upd_inode ip (\<lambda>x. x\<lparr>i_addrs := (i_addrs x)[i := 0]\<rparr>) s1))
         else itrunc_direct ip (Suc i) k s)"

text \<open>\<open>a[j]\<close> is read from the buffer \<open>bp\<close>, which the caller holds.\<close>

fun itrunc_indirect :: "u32 \<Rightarrow> nat \<Rightarrow> nat \<Rightarrow> nat \<Rightarrow> 'z fs_scheme \<Rightarrow> 'z fs_scheme res" where
  "itrunc_indirect d bp j 0 s = Inr s"
| "itrunc_indirect d bp j (Suc k) s =
     (let a = get32 (4 * j) (data (bufs s bp))
      in if a \<noteq> 0 then bindR (bfree d a s) (itrunc_indirect d bp (Suc j) k)
         else itrunc_indirect d bp (Suc j) k s)"

definition itrunc :: "nat \<Rightarrow> 'z fs_scheme \<Rightarrow> 'z fs_scheme res" where
  "itrunc ip s =
     bindR (itrunc_direct ip 0 NDIRECT s) (\<lambda>s1.
     let x = icache s1 ! ip; a = i_addrs x ! NDIRECT
     in bindR (if a \<noteq> 0
               then bindR (bread (i_dev x) a s1) (\<lambda>(bp, s2).
                    bindR (itrunc_indirect (i_dev x) bp 0 NINDIRECT s2) (\<lambda>s3.
                    bindR (brelse bp s3) (\<lambda>s4.
                    bindR (bfree (i_dev x) a s4) (\<lambda>s5.
                    Inr (upd_inode ip (\<lambda>x. x\<lparr>i_addrs := (i_addrs x)[NDIRECT := 0]\<rparr>) s5)))))
               else Inr s1) (\<lambda>s6.
        iupdate ip (upd_inode ip (i_size_update (\<lambda>_. 0)) s6)))"

definition iput :: "nat \<Rightarrow> 'z fs_scheme \<Rightarrow> 'z fs_scheme res" where
  "iput ip s =
     (let x = icache s ! ip
      in bindR (if i_ref x = 1 \<and> i_valid x \<and> i_nlink x = 0
                then (case acquiresleep (mypid s) (i_lock x) of
                        None \<Rightarrow> Inl (Sleeps ''inode'')
                      | Some lk \<Rightarrow>
                        bindR (itrunc ip (upd_inode ip (i_lock_update (\<lambda>_. lk)) s)) (\<lambda>s1.
                        bindR (iupdate ip (upd_inode ip (i_type_update (\<lambda>_. 0)) s1)) (\<lambda>s2.
                        Inr (upd_inode ip (\<lambda>x. x\<lparr>i_valid := False, i_lock := releasesleep (i_lock x)\<rparr>) s2))))
                else Inr s) (\<lambda>s3.
         Inr (upd_inode ip (\<lambda>x. x\<lparr>i_ref := i_ref x - 1\<rparr>) s3)))"

definition iunlockput :: "nat \<Rightarrow> 'z fs_scheme \<Rightarrow> 'z fs_scheme res" where
  "iunlockput ip s = bindR (iunlock ip s) (iput ip)"

record stat =
  st_dev :: u32
  st_ino :: u32
  st_type :: u16
  st_nlink :: u16
  st_size :: u64

definition stati :: "nat \<Rightarrow> 'z fs_scheme \<Rightarrow> stat" where
  "stati ip s =
     (let x = icache s ! ip
      in \<lparr>st_dev = i_dev x, st_ino = i_inum x, st_type = i_type x, st_nlink = i_nlink x, st_size = ucast (i_size x)\<rparr>)"

text \<open>\<open>either_copyout\<close> and \<open>either_copyin\<close> of \<open>kernel/proc.c\<close>, with the kernel's side of
  the copy given as bytes: \<open>copyout_bytes\<close> and \<open>copyin_bytes\<close> are what \<open>copyout\<close> and
  \<open>copyin\<close> compute (theory \<open>UserMem\<close>). \<open>either_copyin\<close> also returns the bytes that were
  copied, which are fewer than asked for when it fails.\<close>

definition either_copyout :: "bool \<Rightarrow> u64 \<Rightarrow> byte list \<Rightarrow> 'z bio_scheme \<Rightarrow> int \<times> 'z bio_scheme" where
  "either_copyout user_dst dst bs s =
     (if user_dst then copyout_bytes (mypagetable s) dst bs s
      else (0, s\<lparr>pmem := store_bytes (pmem s) dst bs\<rparr>))"

definition either_copyin :: "bool \<Rightarrow> u64 \<Rightarrow> nat \<Rightarrow> 'z bio_scheme \<Rightarrow> int \<times> byte list" where
  "either_copyin user_src src n s =
     (if user_src then (let (bs, ok) = copyin_bytes (mypagetable s) src n s in (if ok then 0 else -1, bs))
      else (0, bytes_at (pmem s) src n))"

text \<open>The loop of \<open>readi\<close>, with \<open>n - tot\<close> bytes left to read; it returns the number read.\<close>

function readi_loop :: "nat \<Rightarrow> bool \<Rightarrow> u64 \<Rightarrow> nat \<Rightarrow> nat \<Rightarrow> 'z fs_scheme \<Rightarrow> (nat \<times> 'z fs_scheme) res" where
  "readi_loop ip user_dst dst off left s =
     (if left = 0 then Inr (0, s)
      else bindR (bmap ip (off div BSIZE) s) (\<lambda>(addr, s1).
           bindR (bread (i_dev (icache s1 ! ip)) addr s1) (\<lambda>(bp, s2).
           let m = min left (BSIZE - off mod BSIZE);
               (r, s3) = either_copyout user_dst dst (take m (drop (off mod BSIZE) (data (bufs s2 bp)))) s2
           in bindR (brelse bp s3) (\<lambda>s4.
              if r = -1 then Inr (0, s4)
              else bindR (readi_loop ip user_dst (dst + of_nat m) (off + m) (left - m) s4) (\<lambda>(tot, s5).
                   Inr (m + tot, s5))))))"
  by pat_completeness auto
termination
  by (relation "measure (\<lambda>(ip, u, dst, off, left, s). left)") auto

declare readi_loop.simps [simp del]

definition readi :: "nat \<Rightarrow> bool \<Rightarrow> u64 \<Rightarrow> u32 \<Rightarrow> u32 \<Rightarrow> 'z fs_scheme \<Rightarrow> (int \<times> 'z fs_scheme) res" where
  "readi ip user_dst dst off n s =
     (let sz = i_size (icache s ! ip)
      in if off > sz \<or> off + n < off then Inr (0, s)
         else let n' = (if off + n > sz then sz - off else n)
              in bindR (readi_loop ip user_dst dst (unat off) (unat n') s) (\<lambda>(tot, s1). Inr (int tot, s1)))"

text \<open>The loop of \<open>writei\<close> returns the final \<open>off\<close>.\<close>

function writei_loop :: "nat \<Rightarrow> bool \<Rightarrow> u64 \<Rightarrow> nat \<Rightarrow> nat \<Rightarrow> 'z fs_scheme \<Rightarrow> (nat \<times> 'z fs_scheme) res" where
  "writei_loop ip user_src src off left s =
     (if left = 0 then Inr (off, s)
      else bindR (bmap ip (off div BSIZE) s) (\<lambda>(addr, s1).
           bindR (bread (i_dev (icache s1 ! ip)) addr s1) (\<lambda>(bp, s2).
           let m = min left (BSIZE - off mod BSIZE);
               (r, bs) = either_copyin user_src src m s2;
               s3 = set_data bp (put_bytes (off mod BSIZE) bs (data (bufs s2 bp))) s2
           in if r = -1 then bindR (brelse bp s3) (\<lambda>s4. Inr (off, s4))
              else bindR (log_write bp s3) (\<lambda>s4. bindR (brelse bp s4) (\<lambda>s5.
                   writei_loop ip user_src (src + of_nat m) (off + m) (left - m) s5)))))"
  by pat_completeness auto
termination
  by (relation "measure (\<lambda>(ip, u, src, off, left, s). left)") auto

declare writei_loop.simps [simp del]

definition writei :: "nat \<Rightarrow> bool \<Rightarrow> u64 \<Rightarrow> u32 \<Rightarrow> u32 \<Rightarrow> 'z fs_scheme \<Rightarrow> (int \<times> 'z fs_scheme) res" where
  "writei ip user_src src off n s =
     (if off > i_size (icache s ! ip) \<or> off + n < off then Inr (-1, s)
      else if off + n > of_nat (MAXFILE * BSIZE) then Inr (-1, s)
      else bindR (writei_loop ip user_src src (unat off) (unat n) s) (\<lambda>(off', s1).
           bindR (if n > 0
                  then iupdate ip (if of_nat off' > i_size (icache s1 ! ip)
                         then upd_inode ip (i_size_update (\<lambda>_. of_nat off')) s1 else s1)
                  else Inr s1) (\<lambda>s2.
           Inr (sint n, s2))))"

section \<open>Directories\<close>

definition namecmp :: "byte list \<Rightarrow> byte list \<Rightarrow> int" where
  "namecmp p q = strncmp (array_of p) (array_of q) 14"

definition read_de :: "'z fs_scheme \<Rightarrow> dirent" where
  "read_de s = get_dirent (bytes_at (pmem s) (de_addr s) 16)"

text \<open>\<open>for(off = ...; off < dp->size; off += sizeof(de))\<close>; the result is the entry's inode and
  offset.\<close>

function dirlookup_loop :: "nat \<Rightarrow> byte list \<Rightarrow> nat \<Rightarrow> nat \<Rightarrow> 'z fs_scheme \<Rightarrow> ((nat \<times> u32) option \<times> 'z fs_scheme) res" where
  "dirlookup_loop dp name off sz s =
     (if off < sz
      then bindR (readi dp False (de_addr s) (of_nat off) 16 s) (\<lambda>(r, s1).
           if r \<noteq> 16 then Inl (Panic ''dirlookup read'')
           else let de = read_de s1
                in if de_inum de = 0 \<or> namecmp name (de_name de) \<noteq> 0 then dirlookup_loop dp name (off + 16) sz s1
                   else bindR (iget (i_dev (icache s1 ! dp)) (ucast (de_inum de)) s1) (\<lambda>(ip, s2).
                        Inr (Some (ip, of_nat off), s2)))
      else Inr (None, s))"
  by pat_completeness auto
termination
  by (relation "measure (\<lambda>(dp, name, off, sz, s). sz - off)") auto

declare dirlookup_loop.simps [simp del]

definition dirlookup :: "nat \<Rightarrow> byte list \<Rightarrow> 'z fs_scheme \<Rightarrow> ((nat \<times> u32) option \<times> 'z fs_scheme) res" where
  "dirlookup dp name s =
     (if i_type (icache s ! dp) \<noteq> T_DIR then Inl (Panic ''dirlookup not DIR'')
      else dirlookup_loop dp name 0 (unat (i_size (icache s ! dp))) s)"

text \<open>The search of \<open>dirlink\<close> for an entry that is not in use.\<close>

function dirlink_loop :: "nat \<Rightarrow> nat \<Rightarrow> nat \<Rightarrow> 'z fs_scheme \<Rightarrow> (nat \<times> 'z fs_scheme) res" where
  "dirlink_loop dp off sz s =
     (if off < sz
      then bindR (readi dp False (de_addr s) (of_nat off) 16 s) (\<lambda>(r, s1).
           if r \<noteq> 16 then Inl (Panic ''dirlink read'')
           else if de_inum (read_de s1) = 0 then Inr (off, s1)
           else dirlink_loop dp (off + 16) sz s1)
      else Inr (off, s))"
  by pat_completeness auto
termination
  by (relation "measure (\<lambda>(dp, off, sz, s). sz - off)") auto

declare dirlink_loop.simps [simp del]

definition new_de :: "byte list \<Rightarrow> u32 \<Rightarrow> dirent \<Rightarrow> dirent" where
  "new_de name inum de =
     \<lparr>de_inum = ucast inum, de_name = map (strncpy (array_of (de_name de)) (array_of name) 14) [0..<DIRSIZ]\<rparr>"

definition dirlink :: "nat \<Rightarrow> byte list \<Rightarrow> u32 \<Rightarrow> 'z fs_scheme \<Rightarrow> (int \<times> 'z fs_scheme) res" where
  "dirlink dp name inum s =
     bindR (dirlookup dp name s) (\<lambda>(r, s1).
     case r of
       Some (ip, _) \<Rightarrow> bindR (iput ip s1) (\<lambda>s2. Inr (-1, s2))
     | None \<Rightarrow>
         bindR (dirlink_loop dp 0 (unat (i_size (icache s1 ! dp))) s1) (\<lambda>(off, s2).
         let de = new_de name inum (read_de s2);
             s3 = s2\<lparr>pmem := store_bytes (pmem s2) (de_addr s2) (dirent_bytes de)\<rparr>
         in bindR (writei dp False (de_addr s3) (of_nat off) 16 s3) (\<lambda>(r, s4).
            if r \<noteq> 16 then Inl (Panic ''dirlink'') else Inr (0, s4))))"

section \<open>Paths\<close>

abbreviation (input) slash :: byte where "slash \<equiv> 47"

text \<open>\<open>skipelem\<close> returns the rest of the path and the element, of which the buffer \<open>name\<close>
  keeps the first \<open>DIRSIZ\<close> bytes.\<close>

definition skipelem :: "byte list \<Rightarrow> (byte list \<times> byte list) option" where
  "skipelem path =
     (let path1 = dropWhile (\<lambda>c. c = slash) path
      in if path1 = [] then None
         else let elem = takeWhile (\<lambda>c. c \<noteq> slash) path1; path2 = dropWhile (\<lambda>c. c \<noteq> slash) path1
              in Some (dropWhile (\<lambda>c. c = slash) path2, take DIRSIZ elem))"

lemma skipelem_shorter: "skipelem path = Some (rest, name) \<Longrightarrow> length rest < length path"
proof -
  assume a: "skipelem path = Some (rest, name)"
  let ?p = "dropWhile (\<lambda>c. c = slash) path"
  have "?p \<noteq> []" and r: "rest = dropWhile (\<lambda>c. c = slash) (dropWhile (\<lambda>c. c \<noteq> slash) ?p)"
    using a by (auto simp: skipelem_def Let_def split: if_splits)
  then obtain c cs where p: "?p = c # cs" "c \<noteq> slash" by (metis (full_types) hd_dropWhile list.collapse)
  have "length rest \<le> length cs"
    using r p length_dropWhile_le [of "\<lambda>c. c = slash" "dropWhile (\<lambda>c. c \<noteq> slash) cs"]
      length_dropWhile_le [of "\<lambda>c. c \<noteq> slash" cs]
    by simp
  also have "\<dots> < length path" using p length_dropWhile_le [of "\<lambda>c. c = slash" path] by simp
  finally show ?thesis .
qed

function namex_loop :: "nat \<Rightarrow> byte list \<Rightarrow> bool \<Rightarrow> byte list \<Rightarrow> 'z fs_scheme \<Rightarrow>
    ((nat \<times> byte list) option \<times> 'z fs_scheme) res" where
  "namex_loop ip path parent name s =
     (case skipelem path of
        None \<Rightarrow> if parent then bindR (iput ip s) (\<lambda>s1. Inr (None, s1)) else Inr (Some (ip, name), s)
      | Some (path', name') \<Rightarrow>
        bindR (ilock ip s) (\<lambda>s1.
        if i_type (icache s1 ! ip) \<noteq> T_DIR then bindR (iunlockput ip s1) (\<lambda>s2. Inr (None, s2))
        else if parent \<and> path' = [] then bindR (iunlock ip s1) (\<lambda>s2. Inr (Some (ip, name'), s2))
        else bindR (dirlookup ip name' s1) (\<lambda>(r, s2).
             bindR (iunlockput ip s2) (\<lambda>s3.
             case r of None \<Rightarrow> Inr (None, s3) | Some (next, _) \<Rightarrow> namex_loop next path' parent name' s3))))"
  by pat_completeness auto
termination
  by (relation "measure (\<lambda>(ip, path, parent, name, s). length path)") (auto dest: skipelem_shorter)

declare namex_loop.simps [simp del]

definition namex :: "byte list \<Rightarrow> bool \<Rightarrow> 'z fs_scheme \<Rightarrow> ((nat \<times> byte list) option \<times> 'z fs_scheme) res" where
  "namex path parent s =
     bindR (if path \<noteq> [] \<and> hd path = slash then iget ROOTDEV ROOTINO s else Inr (idup (cwd s) s)) (\<lambda>(ip, s1).
     namex_loop ip path parent [] s1)"

definition namei :: "byte list \<Rightarrow> 'z fs_scheme \<Rightarrow> (nat option \<times> 'z fs_scheme) res" where
  "namei path s = bindR (namex path False s) (\<lambda>(r, s1). Inr (map_option fst r, s1))"

definition nameiparent :: "byte list \<Rightarrow> 'z fs_scheme \<Rightarrow> ((nat \<times> byte list) option \<times> 'z fs_scheme) res" where
  "nameiparent path s = namex path True s"

end
