(* ===== verification/Uart.thy ===== *)
theory Uart
  imports Fs
begin

text \<open>
  \<open>kernel/uart.c\<close>. The device is what the driver sees of it: the bytes written to
  \<open>THR\<close>, oldest first (\<open>uart_out\<close>), the bytes waiting in \<open>RHR\<close> (\<open>uart_in\<close>) and
  the sequence of answers the line status register will give to the question whether the
  transmitter is idle (\<open>lsr_idle\<close>). Waiting for the transmitter in \<open>uartputc_sync\<close> has no
  effect on the state. A call of \<open>uartputc\<close> with the buffer full sleeps.
\<close>

section \<open>Definitions\<close>

abbreviation (input) UART_TX_BUF_SIZE :: nat where "UART_TX_BUF_SIZE \<equiv> 32"

record uart = fs +
  uart_tx_buf :: "byte list"
  uart_tx_w :: nat
  uart_tx_r :: nat
  panicked :: bool
  lsr_idle :: "nat \<Rightarrow> bool"
  uart_in :: "byte list"
  uart_out :: "byte list"

definition WriteTHR :: "byte \<Rightarrow> 'z uart_scheme \<Rightarrow> 'z uart_scheme" where
  "WriteTHR c s = s\<lparr>uart_out := uart_out s @ [c]\<rparr>"

text \<open>\<open>ReadReg(LSR) & LSR_TX_IDLE\<close>: each reading may differ from the last.\<close>

definition ReadIdle :: "'z uart_scheme \<Rightarrow> bool \<times> 'z uart_scheme" where
  "ReadIdle s = (lsr_idle s 0, s\<lparr>lsr_idle := (\<lambda>i. lsr_idle s (Suc i))\<rparr>)"

text \<open>\<open>while(1)\<close> of \<open>uartstart\<close>; each round takes a byte out of the buffer. The indices are
  always below 32 (\<open>tx_inv\<close>); the function is total because it stops otherwise.\<close>

function uartstart :: "'z uart_scheme \<Rightarrow> 'z uart_scheme" where
  "uartstart s =
     (if uart_tx_w s = uart_tx_r s \<or> uart_tx_w s \<ge> 32 \<or> uart_tx_r s \<ge> 32 then s
      else let (idle, s1) = ReadIdle s
           in if \<not> idle then s1
              else let c = uart_tx_buf s1 ! uart_tx_r s1
                   in uartstart (WriteTHR c (s1\<lparr>uart_tx_r := (uart_tx_r s1 + 1) mod UART_TX_BUF_SIZE\<rparr>)))"
  by pat_completeness auto
termination
proof (relation "measure (\<lambda>s. (uart_tx_w s + 32 - uart_tx_r s) mod 32)")
  fix s :: "'z uart_scheme" and p idle and s1 :: "'z uart_scheme" and c
  assume a: "\<not> (uart_tx_w s = uart_tx_r s \<or> uart_tx_w s \<ge> 32 \<or> uart_tx_r s \<ge> 32)" "p = ReadIdle s" "(idle, s1) = p"
  have f: "uart_tx_w s1 = uart_tx_w s" "uart_tx_r s1 = uart_tx_r s" using a(2,3) by (simp_all add: ReadIdle_def)
  have "(w + 32 - (r + 1) mod 32) mod 32 < (w + 32 - r) mod 32" if "w \<noteq> r" "w < 32" "r < (32::nat)" for w r
  proof (cases "r = 31")
    case True
    with that have "w < 31" by auto
    with True show ?thesis by (simp add: add.commute)
  next
    case False
    then show ?thesis using that by (cases "w < r") (auto simp: mod_if)
  qed
  with a(1) f show "(WriteTHR c (s1\<lparr>uart_tx_r := (uart_tx_r s1 + 1) mod 32\<rparr>), s) \<in>
      measure (\<lambda>s. (uart_tx_w s + 32 - uart_tx_r s) mod 32)"
    by (simp add: WriteTHR_def)
qed auto

declare uartstart.simps [simp del]

definition uartputc :: "byte \<Rightarrow> 'z uart_scheme \<Rightarrow> 'z uart_scheme res" where
  "uartputc c s =
     (if panicked s then Inl Diverges
      else if (uart_tx_w s + 1) mod UART_TX_BUF_SIZE = uart_tx_r s then Inl (Sleeps ''uart'')
      else Inr (uartstart (s\<lparr>uart_tx_buf := (uart_tx_buf s)[uart_tx_w s := c],
                            uart_tx_w := (uart_tx_w s + 1) mod UART_TX_BUF_SIZE\<rparr>)))"

definition uartputc_sync :: "byte \<Rightarrow> 'z uart_scheme \<Rightarrow> 'z uart_scheme res" where
  "uartputc_sync c s = (if panicked s then Inl Diverges else Inr (WriteTHR c s))"

definition uartgetc :: "'z uart_scheme \<Rightarrow> byte option \<times> 'z uart_scheme" where
  "uartgetc s = (case uart_in s of [] \<Rightarrow> (None, s) | c # cs \<Rightarrow> (Some c, s\<lparr>uart_in := cs\<rparr>))"

section \<open>The transmit buffer as a queue\<close>

definition tx_inv :: "'z uart_scheme \<Rightarrow> bool" where
  "tx_inv s \<longleftrightarrow> length (uart_tx_buf s) = 32 \<and> uart_tx_w s < 32 \<and> uart_tx_r s < 32"

definition tx_queue :: "'z uart_scheme \<Rightarrow> byte list" where
  "tx_queue s = map (\<lambda>k. uart_tx_buf s ! ((uart_tx_r s + k) mod 32)) [0..<(uart_tx_w s + 32 - uart_tx_r s) mod 32]"

lemma tx_count:
  "w \<noteq> r \<Longrightarrow> w < 32 \<Longrightarrow> r < (32::nat) \<Longrightarrow> (w + 32 - r) mod 32 = Suc ((w + 32 - (r + 1) mod 32) mod 32)"
  by (cases "w < r") (auto simp: mod_if)

lemma tx_queue_pop:
  assumes "tx_inv s" and "uart_tx_w s \<noteq> uart_tx_r s"
  shows "tx_queue s = uart_tx_buf s ! uart_tx_r s #
    tx_queue (s\<lparr>uart_tx_r := (uart_tx_r s + 1) mod 32\<rparr>)"
proof -
  note c = tx_count [of "uart_tx_w s" "uart_tx_r s"]
  have "(uart_tx_r s + Suc k) mod 32 = ((uart_tx_r s + 1) mod 32 + k) mod 32" for k
    by (simp add: mod_simps)
  then show ?thesis
    using assms c by (simp add: tx_queue_def tx_inv_def upt_conv_Cons map_Suc_upt [symmetric] comp_def del: upt_Suc)
qed

lemma uartstart_fields:
  "uart_tx_buf (uartstart s) = uart_tx_buf s \<and> uart_tx_w (uartstart s) = uart_tx_w s \<and>
   panicked (uartstart s) = panicked s"
proof (induction s rule: uartstart.induct)
  case (1 s)
  show ?case
    by (subst (1 2 3) uartstart.simps) (use 1 in \<open>auto simp: ReadIdle_def WriteTHR_def Let_def\<close>)
qed

text \<open>\<open>uartstart\<close> moves bytes from the buffer to the device in their order.\<close>

lemma uartstart_queue:
  "tx_inv s \<Longrightarrow> tx_inv (uartstart s) \<and> uart_out (uartstart s) @ tx_queue (uartstart s) = uart_out s @ tx_queue s"
proof (induction s rule: uartstart.induct)
  case (1 s)
  let ?s1 = "s\<lparr>lsr_idle := (\<lambda>i. lsr_idle s (Suc i))\<rparr>"
  show ?case
  proof (cases "uart_tx_w s = uart_tx_r s \<or> \<not> lsr_idle s 0")
    case True
    then have "uartstart s = s \<or> uartstart s = ?s1"
      by (subst (1 2) uartstart.simps) (auto simp: ReadIdle_def)
    then show ?thesis using 1(2) by (auto simp: tx_inv_def tx_queue_def)
  next
    case False
    let ?c = "uart_tx_buf ?s1 ! uart_tx_r ?s1"
    let ?s2 = "WriteTHR ?c (?s1\<lparr>uart_tx_r := (uart_tx_r ?s1 + 1) mod 32\<rparr>)"
    have u: "uartstart s = uartstart ?s2"
      using False 1(2) by (subst uartstart.simps) (simp add: ReadIdle_def tx_inv_def)
    have i2: "tx_inv ?s2" using 1(2) by (simp add: tx_inv_def WriteTHR_def)
    have "tx_inv (uartstart ?s2) \<and> uart_out (uartstart ?s2) @ tx_queue (uartstart ?s2) = uart_out ?s2 @ tx_queue ?s2"
    proof (rule 1(1) [of "ReadIdle s" "lsr_idle s 0" ?s1 ?c])
      show "\<not> (uart_tx_w s = uart_tx_r s \<or> 32 \<le> uart_tx_w s \<or> 32 \<le> uart_tx_r s)"
        using False 1(2) by (simp add: tx_inv_def)
    qed (use False i2 in \<open>simp_all add: ReadIdle_def\<close>)
    moreover have "tx_queue s = ?c # tx_queue ?s2"
      using tx_queue_pop [OF 1(2)] False by (simp add: tx_queue_def WriteTHR_def)
    ultimately show ?thesis unfolding u by (simp add: WriteTHR_def)
  qed
qed

lemma ring_neq: "k < d \<Longrightarrow> d < m \<Longrightarrow> (r + k) mod m \<noteq> (r + d) mod (m::nat)"
proof
  assume d: "k < d" "d < m" and "(r + k) mod m = (r + d) mod m"
  then have "m dvd (r + d) - (r + k)" by (subst (asm) eq_commute) (simp add: mod_eq_dvd_iff_nat)
  then have "m dvd d - k" by simp
  with d show False using nat_dvd_not_less [of "d - k" m] by simp
qed

lemma tx_queue_push:
  assumes "tx_inv s" and "(uart_tx_w s + 1) mod 32 \<noteq> uart_tx_r s"
  shows "tx_queue (s\<lparr>uart_tx_buf := (uart_tx_buf s)[uart_tx_w s := c], uart_tx_w := (uart_tx_w s + 1) mod 32\<rparr>) =
    tx_queue s @ [c]"
proof -
  let ?w = "uart_tx_w s" and ?r = "uart_tx_r s"
  let ?n = "(?w + 32 - ?r) mod 32"
  have wr: "?w < 32" "?r < 32" "length (uart_tx_buf s) = 32" using assms(1) by (simp_all add: tx_inv_def)
  have n: "((?w + 1) mod 32 + 32 - ?r) mod 32 = Suc ?n"
    using wr assms(2) by (cases "?w < ?r") (auto simp: mod_if split: if_splits)
  have at: "(?r + ?n) mod 32 = ?w" using wr by (cases "?w < ?r") (auto simp: mod_if)
  have other: "(?r + k) mod 32 \<noteq> ?w" if "k < ?n" for k
    using ring_neq [OF that, of 32 ?r] unfolding at by simp
  have "(uart_tx_buf s)[?w := c] ! ((?r + k) mod 32) = uart_tx_buf s ! ((?r + k) mod 32)" if "k < ?n" for k
    using other [OF that] by (metis nth_list_update_neq)
  then show ?thesis using n at wr by (simp add: tx_queue_def)
qed

text \<open>Property C34. The transmitter is first in, first out: after \<open>uartputc\<close> returns, the bytes
  the device got followed by those in the buffer are the earlier ones followed by the new byte,
  whatever the line status register answered; it sleeps exactly when 31 bytes are waiting.\<close>

theorem uartputc_fifo:
  assumes "tx_inv s" and "\<not> panicked s"
  shows "(case uartputc c s of
      Inr s' \<Rightarrow> tx_inv s' \<and> uart_out s' @ tx_queue s' = uart_out s @ tx_queue s @ [c] \<and> length (tx_queue s) < 31
    | Inl e \<Rightarrow> e = Sleeps ''uart'' \<and> length (tx_queue s) = 31)"
proof (cases "(uart_tx_w s + 1) mod 32 = uart_tx_r s")
  case True
  then have "length (tx_queue s) = 31"
    using assms(1) by (cases "uart_tx_w s = 31") (auto simp: tx_queue_def tx_inv_def mod_if split: if_splits)
  with True assms(2) show ?thesis by (simp add: uartputc_def)
next
  case False
  let ?s1 = "s\<lparr>uart_tx_buf := (uart_tx_buf s)[uart_tx_w s := c], uart_tx_w := (uart_tx_w s + 1) mod 32\<rparr>"
  have i1: "tx_inv ?s1" using assms(1) by (simp add: tx_inv_def)
  have "length (tx_queue s) < 31"
    using assms(1) False by (cases "uart_tx_w s < uart_tx_r s") (auto simp: tx_queue_def tx_inv_def mod_if split: if_splits)
  with False assms uartstart_queue [OF i1] tx_queue_push [OF assms(1) False, of c]
  show ?thesis by (simp add: uartputc_def)
qed

definition ex_uart :: "nat \<Rightarrow> 'z uart_scheme \<Rightarrow> 'z uart_scheme" where
  "ex_uart w s = s\<lparr>uart_tx_buf := replicate 32 65, uart_tx_w := w, uart_tx_r := 0, panicked := False,
     lsr_idle := (\<lambda>_. False), uart_out := []\<rparr>"

theorem uartputc_fifo_witness:
  "\<forall>s :: uart. (case uartputc 66 (ex_uart 2 s) of
      Inr s' \<Rightarrow> uart_out s' @ tx_queue s' = [65, 65, 66]
    | Inl e \<Rightarrow> False)"
proof
  fix s :: uart
  have i: "tx_inv (ex_uart 2 s)" "\<not> panicked (ex_uart 2 s)" by (simp_all add: ex_uart_def tx_inv_def)
  have "tx_queue (ex_uart 2 s) = [65, 65]" by (simp add: tx_queue_def ex_uart_def numeral_2_eq_2)
  with uartputc_fifo [OF i, of 66] show "case uartputc 66 (ex_uart 2 s) of
      Inr s' \<Rightarrow> uart_out s' @ tx_queue s' = [65, 65, 66] | Inl e \<Rightarrow> False"
    by (auto simp: ex_uart_def split: sum.splits)
qed

end
