(* ===== verification/Console.thy ===== *)
theory Console
  imports Uart
begin

text \<open>
  \<open>kernel/console.c\<close>, line-at-a-time input with editing. The input buffer is a ring of 128
  bytes with three free-running 32-bit indices: read, write and edit. \<open>consoleintr\<close> is the
  interrupt handler for one input byte; \<open>consoleread\<close> runs until it returns or sleeps.

  The bytes between the read and the write index are \<open>ready\<close>, those between the write and
  the edit index are the line being \<open>edited\<close>; the handler implements an editor on these two
  lists.
\<close>

section \<open>Definitions\<close>

abbreviation (input) INPUT_BUF :: u32 where "INPUT_BUF \<equiv> 128"
abbreviation (input) ctrl_D :: byte where "ctrl_D \<equiv> 4"
abbreviation (input) ctrl_H :: byte where "ctrl_H \<equiv> 8"
abbreviation (input) ctrl_P :: byte where "ctrl_P \<equiv> 16"
abbreviation (input) ctrl_U :: byte where "ctrl_U \<equiv> 21"
abbreviation (input) DEL :: byte where "DEL \<equiv> 127"
abbreviation (input) newline :: byte where "newline \<equiv> 10"
abbreviation (input) carriage :: byte where "carriage \<equiv> 13"

record cons = uart +
  c_buf :: "byte list"
  c_r :: u32
  c_w :: u32
  c_e :: u32
  cons_woken :: bool

text \<open>\<open>consputc\<close> of a byte and of \<open>BACKSPACE\<close>.\<close>

definition consputc :: "byte \<Rightarrow> 'z uart_scheme \<Rightarrow> 'z uart_scheme res" where
  "consputc c s = uartputc_sync c s"

definition consputc_backspace :: "'z uart_scheme \<Rightarrow> 'z uart_scheme res" where
  "consputc_backspace s =
     bindR (uartputc_sync 8 s) (\<lambda>s1. bindR (uartputc_sync 32 s1) (uartputc_sync 8))"

text \<open>\<open>for(i = ...; i < n; i++)\<close> of \<open>consolewrite\<close>, with \<open>k\<close> bytes left.\<close>

fun consolewrite_loop :: "bool \<Rightarrow> u64 \<Rightarrow> nat \<Rightarrow> nat \<Rightarrow> 'z cons_scheme \<Rightarrow> (int \<times> 'z cons_scheme) res" where
  "consolewrite_loop user_src src i 0 s = Inr (int i, s)"
| "consolewrite_loop user_src src i (Suc k) s =
     (case either_copyin user_src (src + of_nat i) 1 s of
        (r, bs) \<Rightarrow> if r = -1 then Inr (int i, s)
                  else bindR (uartputc (hd bs) s) (consolewrite_loop user_src src (Suc i) k))"

definition consolewrite :: "bool \<Rightarrow> u64 \<Rightarrow> int \<Rightarrow> 'z cons_scheme \<Rightarrow> (int \<times> 'z cons_scheme) res" where
  "consolewrite user_src src n s = consolewrite_loop user_src src 0 (nat n) s"

text \<open>\<open>consoleread\<close> with \<open>n\<close> of \<open>target\<close> bytes left to read.\<close>

fun consoleread_loop ::
  "bool \<Rightarrow> bool \<Rightarrow> u64 \<Rightarrow> nat \<Rightarrow> nat \<Rightarrow> 'z cons_scheme \<Rightarrow> (int \<times> 'z cons_scheme) res" where
  "consoleread_loop killed user_dst dst target 0 s = Inr (int target, s)"
| "consoleread_loop killed user_dst dst target (Suc n) s =
     (if c_r s = c_w s then if killed then Inr (-1, s) else Inl (Sleeps ''cons'')
      else let c = c_buf s ! unat (c_r s mod INPUT_BUF); s1 = s\<lparr>c_r := c_r s + 1\<rparr>
           in if c = ctrl_D
              then Inr (int (target - Suc n), if Suc n < target then s1\<lparr>c_r := c_r s1 - 1\<rparr> else s1)
              else case either_copyout user_dst dst [c] s1 of
                (r, s2) \<Rightarrow>
                  if r = -1 then Inr (int (target - Suc n), s2)
                  else if c = newline then Inr (int (target - n), s2)
                  else consoleread_loop killed user_dst (dst + 1) target n s2)"

definition consoleread :: "bool \<Rightarrow> bool \<Rightarrow> u64 \<Rightarrow> int \<Rightarrow> 'z cons_scheme \<Rightarrow> (int \<times> 'z cons_scheme) res" where
  "consoleread killed user_dst dst n s = consoleread_loop killed user_dst dst (nat n) (nat n) s"

text \<open>The loop of \<open>C('U')\<close>, which goes back at most the 128 bytes of the buffer.\<close>

fun kill_line :: "nat \<Rightarrow> 'z cons_scheme \<Rightarrow> 'z cons_scheme res" where
  "kill_line 0 s = Inl Diverges"
| "kill_line (Suc k) s =
     (if c_e s \<noteq> c_w s \<and> c_buf s ! unat ((c_e s - 1) mod INPUT_BUF) \<noteq> newline
      then bindR (consputc_backspace (s\<lparr>c_e := c_e s - 1\<rparr>)) (kill_line k) else Inr s)"

definition consoleintr :: "byte \<Rightarrow> 'z cons_scheme \<Rightarrow> 'z cons_scheme res" where
  "consoleintr c s =
     (if c = ctrl_P then Inr s
      else if c = ctrl_U then kill_line 129 s
      else if c = ctrl_H \<or> c = DEL
      then if c_e s \<noteq> c_w s then consputc_backspace (s\<lparr>c_e := c_e s - 1\<rparr>) else Inr s
      else if c \<noteq> 0 \<and> c_e s - c_r s < INPUT_BUF
      then let c' = (if c = carriage then newline else c)
           in bindR (consputc c' s) (\<lambda>s1.
              let s2 = s1\<lparr>c_buf := (c_buf s1)[unat (c_e s1 mod INPUT_BUF) := c'], c_e := c_e s1 + 1\<rparr>
              in if c' = newline \<or> c' = ctrl_D \<or> c_e s2 = c_r s2 + INPUT_BUF
                 then Inr (s2\<lparr>c_w := c_e s2, cons_woken := True\<rparr>) else Inr s2)
      else Inr s)"

section \<open>The two lists\<close>

definition ring_run :: "byte list \<Rightarrow> u32 \<Rightarrow> nat \<Rightarrow> byte list" where
  "ring_run buf i n = map (\<lambda>k. buf ! ((unat i + k) mod 128)) [0..<n]"

definition ready :: "'z cons_scheme \<Rightarrow> byte list" where
  "ready s = ring_run (c_buf s) (c_r s) (unat (c_w s - c_r s))"

definition edited :: "'z cons_scheme \<Rightarrow> byte list" where
  "edited s = ring_run (c_buf s) (c_w s) (unat (c_e s - c_w s))"

definition cons_inv :: "'z cons_scheme \<Rightarrow> bool" where
  "cons_inv s \<longleftrightarrow> length (c_buf s) = 128 \<and>
     unat (c_w s - c_r s) + unat (c_e s - c_w s) \<le> 128 \<and> newline \<notin> set (edited s) \<and> \<not> panicked s"

text \<open>The editor on the two lists: the bytes \<open>consoleread\<close> may take, and the current line.\<close>

definition edit :: "byte \<Rightarrow> byte list \<times> byte list \<Rightarrow> byte list \<times> byte list" where
  "edit c = (\<lambda>(rd, ln).
     if c = ctrl_P then (rd, ln)
     else if c = ctrl_U then (rd, [])
     else if c = ctrl_H \<or> c = DEL then (rd, butlast ln)
     else if c \<noteq> 0 \<and> length rd + length ln < 128
     then let c' = (if c = carriage then newline else c)
          in if c' = newline \<or> c' = ctrl_D \<or> length rd + length ln = 127 then (rd @ ln @ [c'], [])
             else (rd, ln @ [c'])
     else (rd, ln))"

section \<open>The ring\<close>

lemma ring_index: "unat (e mod 128) = (unat i + unat (e - i)) mod 128" for e i :: u32
proof -
  have "unat e = unat (i + (e - i))" by simp
  also have "\<dots> = (unat i + unat (e - i)) mod 4294967296" by (simp only: unat_word_ariths) simp
  finally have "unat e = (unat i + unat (e - i)) mod 4294967296" .
  then show ?thesis by (simp add: unat_mod mod_mod_cancel)
qed

lemma length_ring_run [simp]: "length (ring_run buf i n) = n"
  by (simp add: ring_run_def)

lemma ring_run_Suc: "ring_run buf i (Suc n) = ring_run buf i n @ [buf ! ((unat i + n) mod 128)]"
  by (simp add: ring_run_def)

lemma ring_run_append:
  "ring_run buf r (unat (w - r) + n) = ring_run buf r (unat (w - r)) @ ring_run buf w n" for r w :: u32
proof -
  have e: "(unat r + unat (w - r)) mod 128 = unat w mod 128" using ring_index [of w r] by (simp add: unat_mod)
  have "(unat r + (unat (w - r) + k)) mod 128 = (unat w + k) mod 128" for k
  proof -
    have "(unat r + (unat (w - r) + k)) mod 128 = ((unat r + unat (w - r)) mod 128 + k) mod 128"
      by (simp only: mod_add_left_eq add.assoc)
    then show ?thesis unfolding e by (simp only: mod_add_left_eq)
  qed
  then show ?thesis
    by (intro nth_equalityI) (auto simp: ring_run_def nth_append dest!: le_Suc_ex simp: not_less)
qed

lemma ring_run_update:
  assumes "n \<le> m" and "m < 128"
  shows "ring_run (buf[(unat i + m) mod 128 := c]) i n = ring_run buf i n"
proof -
  have "(unat i + m) mod 128 \<noteq> (unat i + k) mod 128" if "k < n" for k
    using ring_neq [of k m 128 "unat i"] that assms by auto
  then show ?thesis by (auto simp: ring_run_def)
qed

lemma ring_run_put:
  assumes "length buf = 128" and "n < 128"
  shows "ring_run (buf[(unat i + n) mod 128 := c]) i (Suc n) = ring_run buf i n @ [c]"
  using ring_run_update [of n n buf i c] assms by (simp add: ring_run_Suc)

text \<open>The whole buffer: the bytes that are ready, then those being edited.\<close>

lemma cons_all:
  assumes "unat (c_w s - c_r s) + unat (c_e s - c_w s) \<le> 128"
  shows "unat (c_e s - c_r s) = unat (c_w s - c_r s) + unat (c_e s - c_w s)"
    and "ready s @ edited s = ring_run (c_buf s) (c_r s) (unat (c_e s - c_r s))"
proof -
  show u: "unat (c_e s - c_r s) = unat (c_w s - c_r s) + unat (c_e s - c_w s)"
    using unat_add_no_wrap [of "c_w s - c_r s" "c_e s - c_w s"] assms by simp
  show "ready s @ edited s = ring_run (c_buf s) (c_r s) (unat (c_e s - c_r s))"
    unfolding u ring_run_append by (simp add: ready_def edited_def)
qed

section \<open>The handler implements the editor\<close>

lemma backspace_eq:
  "\<not> panicked s \<Longrightarrow> consputc_backspace s = Inr (s\<lparr>uart_out := uart_out s @ [8, 32, 8]\<rparr>)"
  by (simp add: consputc_backspace_def uartputc_sync_def WriteTHR_def)

lemma edit_step_back:
  fixes out :: "byte list"
  assumes "cons_inv s" and "c_e s \<noteq> c_w s"
  defines "s' \<equiv> s\<lparr>c_e := c_e s - 1, uart_out := out\<rparr>"
  shows "cons_inv s'" and "ready s' = ready s" and "edited s' = butlast (edited s)"
    and "unat (c_e s' - c_w s') = unat (c_e s - c_w s) - 1" and "0 < unat (c_e s - c_w s)"
    and "c_buf s ! unat ((c_e s - 1) mod 128) \<noteq> newline"
proof -
  have nz: "c_e s - c_w s \<noteq> 0" using assms(2) by simp
  then show pos: "0 < unat (c_e s - c_w s)" by (simp add: unat_gt_0)
  have "c_e s' - c_w s' = (c_e s - c_w s) - 1" by (simp add: s'_def algebra_simps)
  then show u: "unat (c_e s' - c_w s') = unat (c_e s - c_w s) - 1"
    using nz by (simp add: unat_minus_one)
  obtain n where n: "unat (c_e s - c_w s) = Suc n" using pos by (cases "unat (c_e s - c_w s)") auto
  have ix: "unat ((c_e s - 1) mod 128) = (unat (c_w s) + n) mod 128"
    using ring_index [of "c_e s - 1" "c_w s"] u n by (simp add: s'_def)
  have ed: "edited s = ring_run (c_buf s) (c_w s) n @ [c_buf s ! unat ((c_e s - 1) mod 128)]"
    unfolding edited_def n ring_run_Suc ix ..
  with assms(1) show "c_buf s ! unat ((c_e s - 1) mod 128) \<noteq> newline" by (auto simp: cons_inv_def)
  show r: "ready s' = ready s" by (simp add: ready_def s'_def)
  have "edited s' = ring_run (c_buf s') (c_w s') (unat (c_e s' - c_w s'))" by (simp add: edited_def)
  then show e: "edited s' = butlast (edited s)" unfolding u n ed by (simp add: s'_def)
  show "cons_inv s'"
    using assms(1) u e by (auto simp: cons_inv_def s'_def dest: in_set_butlastD)
qed

lemma kill_line_spec:
  assumes "cons_inv s" and "unat (c_e s - c_w s) < k"
  shows "\<exists>s'. kill_line k s = Inr s' \<and> cons_inv s' \<and> ready s' = ready s \<and> edited s' = []"
  using assms
proof (induction k arbitrary: s)
  case (Suc k)
  show ?case
  proof (cases "c_e s = c_w s")
    case True
    then show ?thesis using Suc.prems by (auto simp: edited_def ring_run_def)
  next
    case False
    note b = edit_step_back(1-4) [OF Suc.prems(1) False, of "uart_out s @ [8, 32, 8]"]
      edit_step_back(5,6) [OF Suc.prems(1) False]
    have p: "\<not> panicked s" using Suc.prems(1) by (simp add: cons_inv_def)
    let ?s1 = "s\<lparr>c_e := c_e s - 1, uart_out := uart_out s @ [8, 32, 8]\<rparr>"
    have "unat (c_e ?s1 - c_w ?s1) < k" using b(4,5) Suc.prems(2) by linarith
    from Suc.IH [OF b(1) this] b(2,6) False p show ?thesis
      by (simp add: backspace_eq)
  qed
qed simp

lemma append_spec:
  fixes out :: "byte list"
  assumes inv: "cons_inv s" and room: "unat (c_e s - c_r s) < 128" and c: "c \<noteq> newline \<or> w"
  defines "s2 \<equiv> s\<lparr>uart_out := out, c_buf := (c_buf s)[unat (c_e s mod 128) := c], c_e := c_e s + 1\<rparr>"
  defines "s' \<equiv> if w then s2\<lparr>c_w := c_e s + 1, cons_woken := True\<rparr> else s2"
  shows "cons_inv s'" and "ready s' = (if w then ready s @ edited s @ [c] else ready s)"
    and "edited s' = (if w then [] else edited s @ [c])"
proof -
  let ?a = "unat (c_w s - c_r s)" and ?b = "unat (c_e s - c_w s)"
  have buf: "length (c_buf s) = 128" and sum: "?a + ?b \<le> 128" and p: "\<not> panicked s" and nl: "newline \<notin> set (edited s)"
    using inv by (simp_all add: cons_inv_def)
  note all = cons_all [OF sum]
  have ab: "?a + ?b < 128" using room all(1) by simp
  have ix: "unat (c_e s mod 128) = (unat (c_r s) + (?a + ?b)) mod 128" "unat (c_e s mod 128) = (unat (c_w s) + ?b) mod 128"
    using ring_index [of "c_e s" "c_r s"] ring_index [of "c_e s" "c_w s"] all(1) by simp_all
  have e1: "unat (c_e s + 1 - c_w s) = Suc ?b" "unat (c_e s + 1 - c_r s) = Suc (?a + ?b)"
    using unat_add_no_wrap [of "c_e s - c_w s" 1] unat_add_no_wrap [of "c_e s - c_r s" 1] all(1) ab
    by (simp_all only: diff_add_eq) simp_all
  have r: "ready s2 = ready s" unfolding ready_def s2_def
    using ring_run_update [of ?a "?a + ?b" "c_buf s" "c_r s" c] ix ab by simp
  have ed: "edited s2 = edited s @ [c]" unfolding edited_def s2_def
    using ring_run_put [OF buf, of ?b "c_w s" c] ix ab e1 by simp
  have rw: "ready (s2\<lparr>c_w := c_e s + 1, cons_woken := True\<rparr>) = ready s @ edited s @ [c]"
    using ring_run_put [OF buf, of "?a + ?b" "c_r s" c] ix ab e1 all by (simp add: ready_def s2_def)
  show ry: "ready s' = (if w then ready s @ edited s @ [c] else ready s)" using r rw by (simp add: s'_def)
  show ey: "edited s' = (if w then [] else edited s @ [c])" using ed by (simp add: s'_def edited_def s2_def ring_run_def)
  show "cons_inv s'"
    unfolding cons_inv_def ey using buf p nl c e1 ab by (auto simp: s'_def s2_def)
qed

text \<open>Property C25. The input interrupt handler implements the line editor: for any input byte
  \<open>consoleintr\<close> returns, keeps the indices of the ring consistent, and changes the bytes ready
  to be read and the line being edited as \<open>edit\<close> says: control-U erases the line, control-H
  and delete its last byte, other bytes are appended while there is room, and a newline,
  control-D or a full buffer hands the line over to \<open>consoleread\<close>.\<close>

theorem consoleintr_edits:
  assumes "cons_inv s"
  shows "\<exists>s'. consoleintr c s = Inr s' \<and> cons_inv s' \<and> (ready s', edited s') = edit c (ready s, edited s)"
proof -
  have sum: "unat (c_w s - c_r s) + unat (c_e s - c_w s) \<le> 128" and p: "\<not> panicked s"
    using assms by (simp_all add: cons_inv_def)
  note all = cons_all [OF sum]
  have len: "length (ready s) + length (edited s) = unat (c_e s - c_r s)"
    using all(1) by (simp add: ready_def edited_def)
  have lt: "c_e s - c_r s < 128 \<longleftrightarrow> unat (c_e s - c_r s) < 128" by (simp add: word_less_nat_alt)
  have full: "c_e s + 1 = c_r s + 128 \<longleftrightarrow> unat (c_e s - c_r s) = 127"
  proof -
    have "c_e s + 1 = c_r s + 128 \<longleftrightarrow> c_e s - c_r s = 127" by (auto simp: algebra_simps)
    then show ?thesis by (simp add: word_unat_eq_iff)
  qed
  have nil: "c_e s = c_w s \<Longrightarrow> edited s = []" by (simp add: edited_def ring_run_def)
  consider "c = ctrl_P" | "c = ctrl_U" | "c = ctrl_H \<or> c = DEL"
    | "c \<noteq> ctrl_P" "c \<noteq> ctrl_U" "c \<noteq> ctrl_H" "c \<noteq> DEL" by blast
  then show ?thesis
  proof cases
    case 1
    then show ?thesis using assms by (simp add: consoleintr_def edit_def)
  next
    case 2
    then show ?thesis using kill_line_spec [OF assms, of 129] sum by (auto simp: consoleintr_def edit_def)
  next
    case 3
    then show ?thesis
      using edit_step_back [OF assms] backspace_eq [of "s\<lparr>c_e := c_e s - 1\<rparr>"] p nil assms
      by (cases "c_e s = c_w s") (auto simp: consoleintr_def edit_def)
  next
    case 4
    show ?thesis
    proof (cases "c \<noteq> 0 \<and> unat (c_e s - c_r s) < 128")
      case False
      then show ?thesis using 4 assms len lt by (auto simp: consoleintr_def edit_def)
    next
      case True
      let ?c = "if c = carriage then newline else c"
      let ?w = "?c = newline \<or> ?c = ctrl_D \<or> unat (c_e s - c_r s) = 127"
      have "?c \<noteq> newline \<or> ?w" by blast
      note ap = append_spec [OF assms conjunct2 [OF True] this, of "uart_out s @ [?c]"]
      let ?s2 = "s\<lparr>uart_out := uart_out s @ [?c], c_buf := (c_buf s)[unat (c_e s mod 128) := ?c], c_e := c_e s + 1\<rparr>"
      let ?s' = "if ?w then ?s2\<lparr>c_w := c_e s + 1, cons_woken := True\<rparr> else ?s2"
      have "consoleintr c s = Inr ?s'"
        using 4 True lt full p
        by (simp add: consoleintr_def consputc_def uartputc_sync_def WriteTHR_def Let_def)
      moreover have "edit c (ready s, edited s) = (if ?w then (ready s @ edited s @ [?c], []) else (ready s, edited s @ [?c]))"
        using 4 True len by (simp add: edit_def Let_def)
      ultimately show ?thesis using ap by (intro exI [of _ ?s']) simp
    qed
  qed
qed

definition ex_cons :: "'z cons_scheme \<Rightarrow> 'z cons_scheme" where
  "ex_cons s = s\<lparr>panicked := False, c_buf := [104, 105] @ replicate 126 0, c_r := 0, c_w := 0, c_e := 2\<rparr>"

theorem consoleintr_edits_witness:
  "\<forall>s :: cons. \<exists>s'. consoleintr carriage (ex_cons s) = Inr s' \<and> ready s' = [104, 105, 10] \<and> edited s' = []"
proof
  fix s :: cons
  have e: "edited (ex_cons s) = [104, 105]" "ready (ex_cons s) = []"
    by (simp_all add: edited_def ready_def ring_run_def ex_cons_def upt_rec)
  then have "cons_inv (ex_cons s)" by (simp add: cons_inv_def) (simp add: ex_cons_def)
  from consoleintr_edits [OF this, of carriage] e
  show "\<exists>s'. consoleintr carriage (ex_cons s) = Inr s' \<and> ready s' = [104, 105, 10] \<and> edited s' = []"
    by (auto simp: edit_def)
qed

end
