(* ===== verification/File.thy ===== *)
theory File
  imports Console Pipe
begin

text \<open>
  \<open>kernel/file.c\<close> and \<open>pipealloc\<close>: the table of open files. A pointer to a file is its
  index in the table. A pipe is named by the address of its page. The console is the only device
  with entries in \<open>devsw\<close>. \<open>mykilled\<close> is \<open>myproc()->killed\<close>. The functions run without
  interruption; one that would sleep ends with \<open>Sleeps\<close>.
\<close>

section \<open>Definitions\<close>

abbreviation (input) NFILE :: nat where "NFILE \<equiv> 100"
abbreviation (input) NDEV :: int where "NDEV \<equiv> 10"
abbreviation (input) CONSOLE :: u16 where "CONSOLE \<equiv> 1"

datatype ftype = FD_NONE | FD_PIPE | FD_INODE | FD_DEVICE

record kfile =
  f_type :: ftype
  f_ref :: int
  f_readable :: bool
  f_writable :: bool
  f_pipe :: u64
  f_ip :: nat
  f_off :: u32
  f_major :: u16

record ftab = cons +
  ftable :: "kfile list"
  pipes :: "u64 \<Rightarrow> pipe"
  mykilled :: bool

definition upd_file :: "nat \<Rightarrow> (kfile \<Rightarrow> kfile) \<Rightarrow> 'z ftab_scheme \<Rightarrow> 'z ftab_scheme" where
  "upd_file f g s = s\<lparr>ftable := (ftable s)[f := g (ftable s ! f)]\<rparr>"

definition filealloc :: "'z ftab_scheme \<Rightarrow> nat option \<times> 'z ftab_scheme" where
  "filealloc s =
     (case find_from (\<lambda>x. f_ref x = 0) 0 (ftable s) of
        None \<Rightarrow> (None, s)
      | Some f \<Rightarrow> (Some f, upd_file f (f_ref_update (\<lambda>_. 1)) s))"

definition filedup :: "nat \<Rightarrow> 'z ftab_scheme \<Rightarrow> 'z ftab_scheme res" where
  "filedup f s =
     (if f_ref (ftable s ! f) < 1 then Inl (Panic ''filedup'')
      else Inr (upd_file f (\<lambda>x. x\<lparr>f_ref := f_ref x + 1\<rparr>) s))"

text \<open>\<open>pipeclose\<close> of the pipe at \<open>pi\<close>, with the page freed after the second call.\<close>

definition close_pipe :: "u64 \<Rightarrow> bool \<Rightarrow> 'z ftab_scheme \<Rightarrow> 'z ftab_scheme res" where
  "close_pipe pi writable s =
     (case pipeclose writable (pipes s pi) of
        (p, w, free) \<Rightarrow>
          let s1 = s\<lparr>pipes := (pipes s)(pi := p)\<rparr> in if free then kfree pi s1 else Inr s1)"

definition fileclose :: "nat \<Rightarrow> 'z ftab_scheme \<Rightarrow> 'z ftab_scheme res" where
  "fileclose f s =
     (if f_ref (ftable s ! f) < 1 then Inl (Panic ''fileclose'')
      else let s1 = upd_file f (\<lambda>x. x\<lparr>f_ref := f_ref x - 1\<rparr>) s
           in if f_ref (ftable s1 ! f) > 0 then Inr s1
              else let ff = ftable s1 ! f;
                       s2 = upd_file f (\<lambda>x. x\<lparr>f_ref := 0, f_type := FD_NONE\<rparr>) s1
                   in (case f_type ff of
                         FD_PIPE \<Rightarrow> close_pipe (f_pipe ff) (f_writable ff) s2
                       | FD_NONE \<Rightarrow> Inr s2
                       | _ \<Rightarrow> bindR (begin_op s2) (\<lambda>s3. bindR (iput (f_ip ff) s3) end_op)))"

definition pipealloc :: "'z ftab_scheme \<Rightarrow> ((nat \<times> nat) option \<times> 'z ftab_scheme) res" where
  "pipealloc s =
     (case filealloc s of
        (None, s1) \<Rightarrow> Inr (None, s1)
      | (Some f0, s1) \<Rightarrow> (case filealloc s1 of
          (None, s2) \<Rightarrow> bindR (fileclose f0 s2) (\<lambda>s3. Inr (None, s3))
        | (Some f1, s2) \<Rightarrow> (case kalloc s2 of
            (pi, s3) \<Rightarrow>
              if pi = 0 then bindR (fileclose f0 s3) (\<lambda>s4. bindR (fileclose f1 s4) (\<lambda>s5. Inr (None, s5)))
              else let s4 = s3\<lparr>pipes := (pipes s3)(pi := pipe_init (bytes_at (pmem s3) (pi + 24) 512))\<rparr>;
                       s5 = upd_file f0 (\<lambda>x. x\<lparr>f_type := FD_PIPE, f_readable := True, f_writable := False, f_pipe := pi\<rparr>) s4;
                       s6 = upd_file f1 (\<lambda>x. x\<lparr>f_type := FD_PIPE, f_readable := False, f_writable := True, f_pipe := pi\<rparr>) s5
                   in Inr (Some (f0, f1), s6))))"

text \<open>The bytes of a \<open>struct stat\<close>: four fields, two bytes each for the shorts, four bytes of
  padding in front of the 64-bit size.\<close>

definition stat_bytes :: "stat \<Rightarrow> byte list" where
  "stat_bytes st = bytes_of_word 4 (st_dev st) @ bytes_of_word 4 (st_ino st) @ bytes_of_word 2 (st_type st) @
     bytes_of_word 2 (st_nlink st) @ replicate 4 0 @ bytes_of_word 8 (st_size st)"

definition filestat :: "nat \<Rightarrow> u64 \<Rightarrow> 'z ftab_scheme \<Rightarrow> (int \<times> 'z ftab_scheme) res" where
  "filestat f addr s =
     (let x = ftable s ! f
      in if f_type x = FD_INODE \<or> f_type x = FD_DEVICE
         then bindR (ilock (f_ip x) s) (\<lambda>s1.
              let st = stati (f_ip x) s1
              in bindR (iunlock (f_ip x) s1) (\<lambda>s2.
                 case copyout_bytes (mypagetable s2) addr (stat_bytes st) s2 of
                   (r, s3) \<Rightarrow> Inr (if r < 0 then -1 else 0, s3)))
         else Inr (-1, s))"

definition fileread :: "nat \<Rightarrow> u64 \<Rightarrow> int \<Rightarrow> 'z ftab_scheme \<Rightarrow> (int \<times> 'z ftab_scheme) res" where
  "fileread f addr n s =
     (let x = ftable s ! f
      in if \<not> f_readable x then Inr (-1, s)
         else (case f_type x of
           FD_PIPE \<Rightarrow> (case piperead (mykilled s) (mypagetable s) addr (nat n) (pipes s (f_pipe x)) s of
               (Return r, pi, s1, _) \<Rightarrow> Inr (r, s1\<lparr>pipes := (pipes s1)(f_pipe x := pi)\<rparr>)
             | (Sleep _, _, _, _) \<Rightarrow> Inl (Sleeps ''pipe''))
         | FD_DEVICE \<Rightarrow>
             if sint (f_major x) < 0 \<or> sint (f_major x) \<ge> NDEV \<or> f_major x \<noteq> CONSOLE then Inr (-1, s)
             else consoleread (mykilled s) True addr n s
         | FD_INODE \<Rightarrow>
             bindR (ilock (f_ip x) s) (\<lambda>s1.
             bindR (readi (f_ip x) True addr (f_off x) (word_of_int n) s1) (\<lambda>(r, s2).
             bindR (iunlock (f_ip x) (if r > 0 then upd_file f (\<lambda>x. x\<lparr>f_off := f_off x + word_of_int r\<rparr>) s2 else s2)) (\<lambda>s3.
             Inr (r, s3))))
         | FD_NONE \<Rightarrow> Inl (Panic ''fileread'')))"

text \<open>The loop of \<open>filewrite\<close> over chunks of \<open>max = ((MAXOPBLOCKS-1-1-2) / 2) * BSIZE\<close> bytes; it
  returns the final \<open>i\<close>.\<close>

abbreviation (input) max_chunk :: nat where "max_chunk \<equiv> 3072"

function filewrite_loop :: "nat \<Rightarrow> u64 \<Rightarrow> nat \<Rightarrow> nat \<Rightarrow> 'z ftab_scheme \<Rightarrow> (nat \<times> 'z ftab_scheme) res" where
  "filewrite_loop f addr n i s =
     (if i < n
      then let n1 = min (n - i) max_chunk
           in bindR (begin_op s) (\<lambda>s1.
              let x = ftable s1 ! f
              in bindR (ilock (f_ip x) s1) (\<lambda>s2.
                 bindR (writei (f_ip x) True (addr + of_nat i) (f_off x) (of_nat n1) s2) (\<lambda>(r, s3).
                 bindR (iunlock (f_ip x) (if r > 0 then upd_file f (\<lambda>x. x\<lparr>f_off := f_off x + word_of_int r\<rparr>) s3 else s3)) (\<lambda>s4.
                 bindR (end_op s4) (\<lambda>s5.
                 if r < 0 then Inr (i, s5)
                 else if r \<noteq> int n1 then Inl (Panic ''short filewrite'')
                 else filewrite_loop f addr n (i + n1) s5)))))
      else Inr (i, s))"
  by pat_completeness auto
termination
  by (relation "measure (\<lambda>(f, addr, n, i, s). n - i)") auto

declare filewrite_loop.simps [simp del]

definition filewrite :: "nat \<Rightarrow> u64 \<Rightarrow> int \<Rightarrow> 'z ftab_scheme \<Rightarrow> (int \<times> 'z ftab_scheme) res" where
  "filewrite f addr n s =
     (let x = ftable s ! f
      in if \<not> f_writable x then Inr (-1, s)
         else (case f_type x of
           FD_PIPE \<Rightarrow> (case pipewrite (mykilled s) (user_src (mypagetable s) addr s) (nat n) 0 (pipes s (f_pipe x)) of
               (Return r, pi, _) \<Rightarrow> Inr (r, s\<lparr>pipes := (pipes s)(f_pipe x := pi)\<rparr>)
             | (Sleep _, _, _) \<Rightarrow> Inl (Sleeps ''pipe''))
         | FD_DEVICE \<Rightarrow>
             if sint (f_major x) < 0 \<or> sint (f_major x) \<ge> NDEV \<or> f_major x \<noteq> CONSOLE then Inr (-1, s)
             else consolewrite True addr n s
         | FD_INODE \<Rightarrow>
             bindR (filewrite_loop f addr (nat n) 0 s) (\<lambda>(i, s1). Inr (if int i = n then n else -1, s1))
         | FD_NONE \<Rightarrow> Inl (Panic ''filewrite'')))"

end
