(* ===== verification/Proc.thy ===== *)
theory Proc
  imports File
begin

text \<open>
  \<open>kernel/proc.c\<close>: the process table and the life of a process. A pointer to a process is its
  index in the table. The functions here are what one hart does between two calls of
  \<open>swtch\<close>, with the locks it holds; how the harts interleave is the subject of theory
  \<open>Sched\<close>. The trap frame of a process is a page of memory, read and written at the offsets
  of \<open>struct trapframe\<close>. \<open>me\<close> is \<open>myproc()\<close>; the fields of \<open>myproc()\<close> the layers
  below use (\<open>mypid\<close>, \<open>mypagetable\<close>, \<open>cwd\<close>, \<open>mykilled\<close>) are kept equal to those of
  the table by \<open>switch_to\<close> and by the functions that change them.
\<close>

section \<open>State\<close>

abbreviation (input) NPROC :: nat where "NPROC \<equiv> 64"
abbreviation (input) NOFILE :: nat where "NOFILE \<equiv> 16"

datatype procstate = UNUSED | SLEEPING | RUNNABLE | RUNNING | ZOMBIE

text \<open>What a process can sleep on: a process (\<open>wait\<close>) or another address.\<close>

datatype chan = NoChan | ProcChan nat | AddrChan u64

record proc =
  p_state :: procstate
  p_parent :: "nat option"
  p_chan :: chan
  p_killed :: bool
  p_xstate :: u32
  p_pid :: int
  p_kstack :: u64
  p_sz :: u64
  p_pagetable :: u64
  p_trapframe :: u64
  p_ra :: u64
  p_sp :: u64
  p_ofile :: "nat option list"
  p_cwd :: nat
  p_name :: "byte list"

record ptab = ftab +
  procs :: "proc list"
  initproc :: nat
  nextpid :: int
  me :: nat
  forkret_addr :: u64

definition upd_proc :: "nat \<Rightarrow> (proc \<Rightarrow> proc) \<Rightarrow> 'z ptab_scheme \<Rightarrow> 'z ptab_scheme" where
  "upd_proc p f s = s\<lparr>procs := (procs s)[p := f (procs s ! p)]\<rparr>"

abbreviation (input) tf_epc :: u64 where "tf_epc \<equiv> 24"
abbreviation (input) tf_sp :: u64 where "tf_sp \<equiv> 48"
abbreviation (input) tf_a0 :: u64 where "tf_a0 \<equiv> 112"
abbreviation (input) tf_a1 :: u64 where "tf_a1 \<equiv> 120"
abbreviation (input) tf_a7 :: u64 where "tf_a7 \<equiv> 168"

definition tf_get :: "nat \<Rightarrow> u64 \<Rightarrow> 'z ptab_scheme \<Rightarrow> u64" where
  "tf_get p off s = load64 (pmem s) (p_trapframe (procs s ! p) + off)"

definition tf_set :: "nat \<Rightarrow> u64 \<Rightarrow> u64 \<Rightarrow> 'z ptab_scheme \<Rightarrow> 'z ptab_scheme" where
  "tf_set p off v s = s\<lparr>pmem := store64 (pmem s) (p_trapframe (procs s ! p) + off) v\<rparr>"

text \<open>A call that does not return as one that diverges.\<close>

definition returns :: "'a res option \<Rightarrow> 'a res" where
  "returns r = (case r of None \<Rightarrow> Inl Diverges | Some x \<Rightarrow> x)"

section \<open>Processes\<close>

fun procinit_loop :: "nat \<Rightarrow> nat \<Rightarrow> 'z ptab_scheme \<Rightarrow> 'z ptab_scheme res" where
  "procinit_loop p 0 s = Inr s"
| "procinit_loop p (Suc k) s =
     (case kalloc s of
        (pa, s1) \<Rightarrow>
          if pa = 0 then Inl (Panic ''kalloc'')
          else bindR (kvmmap (KSTACK p) pa PGSIZE (PTE_R OR PTE_W) s1) (\<lambda>s2.
               procinit_loop (Suc p) k (upd_proc p (p_kstack_update (\<lambda>_. KSTACK p)) s2)))"

definition procinit :: "'z ptab_scheme \<Rightarrow> 'z ptab_scheme res" where
  "procinit s = bindR (procinit_loop 0 NPROC s) (\<lambda>s1. Inr (kvminithart s1))"

definition allocpid :: "'z ptab_scheme \<Rightarrow> int \<times> 'z ptab_scheme" where
  "allocpid s = (nextpid s, s\<lparr>nextpid := nextpid s + 1\<rparr>)"

definition proc_pagetable :: "nat \<Rightarrow> 'z ptab_scheme \<Rightarrow> (u64 \<times> 'z ptab_scheme) res" where
  "proc_pagetable p s =
     (case uvmcreate s of
        (pt, s1) \<Rightarrow>
          if pt = 0 then Inr (0, s1)
          else bindR (mappages pt TRAMPOLINE PGSIZE (trampoline s1) (PTE_R OR PTE_X) s1) (\<lambda>(r, s2).
               if r < 0 then bindR (returns (uvmfree pt 0 s2)) (\<lambda>s3. Inr (0, s3))
               else bindR (mappages pt TRAPFRAME PGSIZE (p_trapframe (procs s2 ! p)) (PTE_R OR PTE_W) s2) (\<lambda>(r, s3).
                    if r < 0
                    then bindR (uvmunmap pt TRAMPOLINE 1 False s3) (\<lambda>s4.
                         bindR (returns (uvmfree pt 0 s4)) (\<lambda>s5. Inr (0, s5)))
                    else Inr (pt, s3))))"

definition proc_freepagetable :: "u64 \<Rightarrow> u64 \<Rightarrow> 'z ptab_scheme \<Rightarrow> 'z ptab_scheme res" where
  "proc_freepagetable pt sz s =
     bindR (uvmunmap pt TRAMPOLINE 1 False s) (\<lambda>s1.
     bindR (uvmunmap pt TRAPFRAME 1 False s1) (\<lambda>s2.
     returns (uvmfree pt sz s2)))"

definition freeproc :: "nat \<Rightarrow> 'z ptab_scheme \<Rightarrow> 'z ptab_scheme res" where
  "freeproc p s =
     bindR (if p_trapframe (procs s ! p) \<noteq> 0 then kfree (p_trapframe (procs s ! p)) s else Inr s) (\<lambda>s1.
     let s2 = upd_proc p (p_trapframe_update (\<lambda>_. 0)) s1; x = procs s2 ! p
     in bindR (if p_pagetable x \<noteq> 0 then proc_freepagetable (p_pagetable x) (p_sz x) s2 else Inr s2) (\<lambda>s3.
        Inr (upd_proc p (\<lambda>x. x\<lparr>p_pagetable := 0, p_sz := 0, p_pid := 0, p_parent := None,
               p_name := (p_name x)[0 := 0], p_chan := NoChan, p_killed := False, p_xstate := 0, p_state := UNUSED\<rparr>) s3)))"

definition allocproc :: "'z ptab_scheme \<Rightarrow> (nat option \<times> 'z ptab_scheme) res" where
  "allocproc s =
     (case find_from (\<lambda>x. p_state x = UNUSED) 0 (procs s) of
        None \<Rightarrow> Inr (None, s)
      | Some p \<Rightarrow>
          let (pid, s1) = allocpid s;
              s2 = upd_proc p (p_pid_update (\<lambda>_. pid)) s1;
              (tf, s3) = kalloc s2;
              s4 = upd_proc p (p_trapframe_update (\<lambda>_. tf)) s3
          in if tf = 0 then Inr (None, s4)
             else bindR (proc_pagetable p s4) (\<lambda>(pt, s5).
                  let s6 = upd_proc p (p_pagetable_update (\<lambda>_. pt)) s5
                  in if pt = 0 then bindR (freeproc p s6) (\<lambda>s7. Inr (None, s7))
                     else Inr (Some p, upd_proc p (\<lambda>x. x\<lparr>p_ra := forkret_addr s6, p_sp := p_kstack x + PGSIZE\<rparr>) s6)))"

text \<open>\<open>safestrcpy(p->name, src, sizeof(p->name))\<close>\<close>

definition set_name :: "byte list \<Rightarrow> proc \<Rightarrow> proc" where
  "set_name src x = x\<lparr>p_name := map (safestrcpy (array_of (p_name x)) (array_of src) 16) [0..<16]\<rparr>"

text \<open>\<open>initcode\<close> is the address of the 52 bytes of the first user program.\<close>

definition userinit :: "u64 \<Rightarrow> 'z ptab_scheme \<Rightarrow> 'z ptab_scheme res" where
  "userinit initcode s =
     bindR (allocproc s) (\<lambda>(r, s1).
     case r of
       None \<Rightarrow> Inl (Undefined ''allocproc'')
     | Some p \<Rightarrow>
         bindR (uvminit (p_pagetable (procs s1 ! p)) initcode 52 (s1\<lparr>initproc := p\<rparr>)) (\<lambda>s2.
         let s3 = upd_proc p (p_sz_update (\<lambda>_. PGSIZE)) s2;
             s4 = tf_set p tf_sp PGSIZE (tf_set p tf_epc 0 s3);
             s5 = upd_proc p (set_name (map of_nat [105, 110, 105, 116, 99, 111, 100, 101])) s4
         in bindR (namei [slash] s5) (\<lambda>(ip, s6).
            case ip of
              None \<Rightarrow> Inl (Undefined ''namei'')
            | Some ip \<Rightarrow> Inr (upd_proc p (\<lambda>x. x\<lparr>p_cwd := ip, p_state := RUNNABLE\<rparr>) s6))))"

text \<open>\<open>sz\<close> is a 32-bit variable: the size of the process and the sums are truncated.\<close>

definition growproc :: "u32 \<Rightarrow> 'z ptab_scheme \<Rightarrow> (int \<times> 'z ptab_scheme) res" where
  "growproc n s =
     (let x = procs s ! me s; sz = ucast (p_sz x) :: u32
      in if sint n > 0
         then bindR (uvmalloc (p_pagetable x) (ucast sz) (ucast (sz + n)) s) (\<lambda>(r, s1).
              let sz' = ucast r :: u32
              in if sz' = 0 then Inr (-1, s1)
                 else Inr (0, upd_proc (me s) (p_sz_update (\<lambda>_. ucast sz')) s1))
         else if sint n < 0
         then bindR (uvmdealloc (p_pagetable x) (ucast sz) (ucast (sz + n)) s) (\<lambda>(r, s1).
              Inr (0, upd_proc (me s) (p_sz_update (\<lambda>_. ucast (ucast r :: u32))) s1))
         else Inr (0, upd_proc (me s) (p_sz_update (\<lambda>_. ucast sz)) s))"

text \<open>\<open>for(i = 0; i < NOFILE; i++) if(p->ofile[i]) np->ofile[i] = filedup(p->ofile[i]);\<close>\<close>

fun dup_files :: "nat \<Rightarrow> nat \<Rightarrow> nat option list \<Rightarrow> 'z ptab_scheme \<Rightarrow> 'z ptab_scheme res" where
  "dup_files np i [] s = Inr s"
| "dup_files np i (None # fs) s = dup_files np (Suc i) fs s"
| "dup_files np i (Some f # fs) s =
     bindR (filedup f s) (\<lambda>s1.
     dup_files np (Suc i) fs (upd_proc np (\<lambda>x. x\<lparr>p_ofile := (p_ofile x)[i := Some f]\<rparr>) s1))"

definition fork :: "'z ptab_scheme \<Rightarrow> (int \<times> 'z ptab_scheme) res" where
  "fork s =
     (let p = me s
      in bindR (allocproc s) (\<lambda>(r, s1).
         case r of
           None \<Rightarrow> Inr (-1, s1)
         | Some np \<Rightarrow>
             let x = procs s1 ! p
             in bindR (uvmcopy (p_pagetable x) (p_pagetable (procs s1 ! np)) (p_sz x) s1) (\<lambda>(r, s2).
                if r < 0 then bindR (freeproc np s2) (\<lambda>s3. Inr (-1, s3))
                else let s3 = upd_proc np (\<lambda>y. y\<lparr>p_sz := p_sz x, p_parent := Some p\<rparr>) s2;
                         s4 = s3\<lparr>pmem := store_bytes (pmem s3) (p_trapframe (procs s3 ! np))
                                  (bytes_at (pmem s3) (p_trapframe (procs s3 ! p)) 288)\<rparr>;
                         s5 = tf_set np tf_a0 0 s4
                     in bindR (dup_files np 0 (p_ofile (procs s5 ! p)) s5) (\<lambda>s6.
                        let (ip, s7) = idup (p_cwd (procs s6 ! p)) s6;
                            s8 = upd_proc np (\<lambda>y. set_name (p_name (procs s7 ! p)) (y\<lparr>p_cwd := ip\<rparr>)) s7
                        in Inr (p_pid (procs s8 ! np), upd_proc np (p_state_update (\<lambda>_. RUNNABLE)) s8)))))"

definition reparent :: "nat \<Rightarrow> 'z ptab_scheme \<Rightarrow> 'z ptab_scheme" where
  "reparent p s =
     s\<lparr>procs := map (\<lambda>pp. if p_parent pp = Some p then pp\<lparr>p_parent := Some (initproc s)\<rparr> else pp) (procs s)\<rparr>"

definition wakeup1 :: "nat \<Rightarrow> 'z ptab_scheme \<Rightarrow> 'z ptab_scheme" where
  "wakeup1 p s =
     (let x = procs s ! p
      in if p_chan x = ProcChan p \<and> p_state x = SLEEPING then upd_proc p (p_state_update (\<lambda>_. RUNNABLE)) s else s)"

fun close_files :: "nat \<Rightarrow> nat \<Rightarrow> nat \<Rightarrow> 'z ptab_scheme \<Rightarrow> 'z ptab_scheme res" where
  "close_files p fd 0 s = Inr s"
| "close_files p fd (Suc k) s =
     (case p_ofile (procs s ! p) ! fd of
        None \<Rightarrow> close_files p (Suc fd) k s
      | Some f \<Rightarrow> bindR (fileclose f s) (\<lambda>s1.
          close_files p (Suc fd) k (upd_proc p (\<lambda>x. x\<lparr>p_ofile := (p_ofile x)[fd := None]\<rparr>) s1)))"

text \<open>\<open>exit\<close> up to its call of \<open>sched\<close>.\<close>

definition exit :: "u32 \<Rightarrow> 'z ptab_scheme \<Rightarrow> 'z ptab_scheme res" where
  "exit status s =
     (let p = me s
      in if p = initproc s then Inl (Panic ''init exiting'')
         else bindR (close_files p 0 NOFILE s) (\<lambda>s1.
              bindR (begin_op s1) (\<lambda>s2.
              bindR (iput (p_cwd (procs s2 ! p)) s2) (\<lambda>s3.
              bindR (end_op s3) (\<lambda>s4.
              let s5 = wakeup1 (initproc s4) s4
              in case p_parent (procs s5 ! p) of
                   None \<Rightarrow> Inl (Undefined ''original_parent'')
                 | Some parent \<Rightarrow>
                     let s6 = reparent p s5; s7 = wakeup1 parent s6
                     in Inr (upd_proc p (\<lambda>x. x\<lparr>p_xstate := status, p_state := ZOMBIE\<rparr>) s7))))))"

text \<open>The scan of \<open>wait\<close> from index \<open>np\<close> on: the first exited child, and whether there is a
  child.\<close>

fun wait_scan :: "nat \<Rightarrow> nat \<Rightarrow> bool \<Rightarrow> proc list \<Rightarrow> nat option \<times> bool" where
  "wait_scan p np havekids [] = (None, havekids)"
| "wait_scan p np havekids (x # xs) =
     (if p_parent x = Some p
      then if p_state x = ZOMBIE then (Some np, True) else wait_scan p (Suc np) True xs
      else wait_scan p (Suc np) havekids xs)"

definition wait :: "u64 \<Rightarrow> 'z ptab_scheme \<Rightarrow> (int \<times> 'z ptab_scheme) res" where
  "wait addr s =
     (let p = me s
      in case wait_scan p 0 False (procs s) of
           (Some np, _) \<Rightarrow>
             let x = procs s ! np;
                 (r, s1) = (if addr \<noteq> 0
                            then copyout_bytes (p_pagetable (procs s ! p)) addr (bytes_of_word 4 (p_xstate x)) s
                            else (0, s))
             in if r < 0 then Inr (-1, s1)
                else bindR (freeproc np s1) (\<lambda>s2. Inr (p_pid x, s2))
         | (None, havekids) \<Rightarrow>
             if \<not> havekids \<or> p_killed (procs s ! p) then Inr (-1, s) else Inl (Sleeps ''wait''))"

definition wakeup :: "chan \<Rightarrow> 'z ptab_scheme \<Rightarrow> 'z ptab_scheme" where
  "wakeup ch s =
     s\<lparr>procs := map (\<lambda>x. if p_state x = SLEEPING \<and> p_chan x = ch then x\<lparr>p_state := RUNNABLE\<rparr> else x) (procs s)\<rparr>"

definition kill :: "int \<Rightarrow> 'z ptab_scheme \<Rightarrow> int \<times> 'z ptab_scheme" where
  "kill pid s =
     (case find_from (\<lambda>x. p_pid x = pid) 0 (procs s) of
        None \<Rightarrow> (-1, s)
      | Some p \<Rightarrow>
          (0, upd_proc p (\<lambda>x. x\<lparr>p_killed := True,
                p_state := (if p_state x = SLEEPING then RUNNABLE else p_state x)\<rparr>)
                (s\<lparr>mykilled := mykilled s \<or> p = me s\<rparr>)))"

text \<open>What the scheduler does when it picks a process, up to \<open>swtch\<close>.\<close>

definition switch_to :: "nat \<Rightarrow> 'z ptab_scheme \<Rightarrow> 'z ptab_scheme" where
  "switch_to p s =
     (let s1 = upd_proc p (p_state_update (\<lambda>_. RUNNING)) s; x = procs s1 ! p
      in s1\<lparr>me := p, mypid := p_pid x, mypagetable := p_pagetable x, cwd := p_cwd x, mykilled := p_killed x\<rparr>)"

text \<open>One pass of the loop of \<open>scheduler\<close> over the table: the first process that can run.\<close>

definition pick :: "nat \<Rightarrow> 'z ptab_scheme \<Rightarrow> nat option" where
  "pick i s = find_from (\<lambda>x. p_state x = RUNNABLE) i (drop i (procs s))"

definition yield :: "'z ptab_scheme \<Rightarrow> 'z ptab_scheme" where
  "yield s = upd_proc (me s) (p_state_update (\<lambda>_. RUNNABLE)) s"

definition sleep :: "chan \<Rightarrow> 'z ptab_scheme \<Rightarrow> 'z ptab_scheme" where
  "sleep ch s = upd_proc (me s) (\<lambda>x. x\<lparr>p_chan := ch, p_state := SLEEPING\<rparr>) s"

end
