(* ===== verification/Syscall.thy ===== *)
theory Syscall
  imports Proc
begin

text \<open>
  Arguments of system calls (\<open>kernel/syscall.c\<close>) and the system calls on files
  (\<open>kernel/sysfile.c\<close>). The arguments are in the trap frame of the calling process. The local
  arrays \<open>path\<close>, \<open>old\<close> and \<open>new\<close> are kernel memory at \<open>path_addr\<close> and
  \<open>path2_addr\<close>; \<open>copyinstr\<close> fills them. A call that returns \<open>-1\<close> is one with an
  error.
\<close>

section \<open>Arguments\<close>

record sysst = ptab +
  path_addr :: u64
  path2_addr :: u64
  ticks :: u32

definition argraw :: "nat \<Rightarrow> 'z ptab_scheme \<Rightarrow> u64 res" where
  "argraw n s = (if n \<le> 5 then Inr (tf_get (me s) (tf_a0 + 8 * of_nat n) s) else Inl (Panic ''argraw''))"

definition argint :: "nat \<Rightarrow> 'z ptab_scheme \<Rightarrow> u32 res" where
  "argint n s = bindR (argraw n s) (\<lambda>x. Inr (ucast x))"

definition argaddr :: "nat \<Rightarrow> 'z ptab_scheme \<Rightarrow> u64 res" where
  "argaddr n s = argraw n s"

text \<open>\<open>fetchaddr\<close> reads eight bytes of the user; the local variable they go to is the result.\<close>

definition fetchaddr :: "u64 \<Rightarrow> 'z ptab_scheme \<Rightarrow> u64 option" where
  "fetchaddr addr s =
     (let x = procs s ! me s
      in if addr \<ge> p_sz x \<or> addr + 8 > p_sz x then None
         else case copyin_bytes (p_pagetable x) addr 8 s of
                (bs, ok) \<Rightarrow> if ok then Some (word_of_bytes bs) else None)"

definition fetchstr :: "u64 \<Rightarrow> u64 \<Rightarrow> u64 \<Rightarrow> 'z ptab_scheme \<Rightarrow> (int \<times> 'z ptab_scheme) res" where
  "fetchstr addr buf mx s =
     bindR (copyinstr (p_pagetable (procs s ! me s)) buf addr mx s) (\<lambda>(err, s1).
     if err < 0 then Inr (err, s1)
     else case strlen (array_at (pmem s1) buf) of
            None \<Rightarrow> Inl Diverges
          | Some k \<Rightarrow> Inr (int k, s1))"

definition argstr :: "nat \<Rightarrow> u64 \<Rightarrow> u64 \<Rightarrow> 'z ptab_scheme \<Rightarrow> (int \<times> 'z ptab_scheme) res" where
  "argstr n buf mx s = bindR (argaddr n s) (\<lambda>addr. fetchstr addr buf mx s)"

abbreviation (input) MAXPATH :: nat where "MAXPATH \<equiv> 128"

definition path_at :: "u64 \<Rightarrow> 'z ptab_scheme \<Rightarrow> byte list" where
  "path_at a s = cstr MAXPATH (array_at (pmem s) a)"

section \<open>Descriptors\<close>

definition argfd :: "nat \<Rightarrow> 'z ptab_scheme \<Rightarrow> (nat \<times> nat) option res" where
  "argfd n s =
     bindR (argint n s) (\<lambda>fd.
     let i = sint fd
     in if i < 0 \<or> i \<ge> 16 then Inr None
        else case p_ofile (procs s ! me s) ! nat i of
               None \<Rightarrow> Inr None
             | Some f \<Rightarrow> Inr (Some (nat i, f)))"

definition set_ofile :: "nat \<Rightarrow> nat option \<Rightarrow> 'z ptab_scheme \<Rightarrow> 'z ptab_scheme" where
  "set_ofile fd f s = upd_proc (me s) (\<lambda>x. x\<lparr>p_ofile := (p_ofile x)[fd := f]\<rparr>) s"

definition fdalloc :: "nat \<Rightarrow> 'z ptab_scheme \<Rightarrow> nat option \<times> 'z ptab_scheme" where
  "fdalloc f s =
     (case find_from (\<lambda>x. x = None) 0 (p_ofile (procs s ! me s)) of
        None \<Rightarrow> (None, s)
      | Some fd \<Rightarrow> (Some fd, set_ofile fd (Some f) s))"

definition sys_dup :: "'z ptab_scheme \<Rightarrow> (int \<times> 'z ptab_scheme) res" where
  "sys_dup s =
     bindR (argfd 0 s) (\<lambda>r.
     case r of
       None \<Rightarrow> Inr (-1, s)
     | Some (_, f) \<Rightarrow> (case fdalloc f s of
         (None, s1) \<Rightarrow> Inr (-1, s1)
       | (Some fd, s1) \<Rightarrow> bindR (filedup f s1) (\<lambda>s2. Inr (int fd, s2))))"

definition sys_read :: "'z ptab_scheme \<Rightarrow> (int \<times> 'z ptab_scheme) res" where
  "sys_read s =
     bindR (argfd 0 s) (\<lambda>r.
     case r of
       None \<Rightarrow> Inr (-1, s)
     | Some (_, f) \<Rightarrow> bindR (argint 2 s) (\<lambda>n. bindR (argaddr 1 s) (\<lambda>p. fileread f p (sint n) s)))"

definition sys_write :: "'z ptab_scheme \<Rightarrow> (int \<times> 'z ptab_scheme) res" where
  "sys_write s =
     bindR (argfd 0 s) (\<lambda>r.
     case r of
       None \<Rightarrow> Inr (-1, s)
     | Some (_, f) \<Rightarrow> bindR (argint 2 s) (\<lambda>n. bindR (argaddr 1 s) (\<lambda>p. filewrite f p (sint n) s)))"

definition sys_close :: "'z ptab_scheme \<Rightarrow> (int \<times> 'z ptab_scheme) res" where
  "sys_close s =
     bindR (argfd 0 s) (\<lambda>r.
     case r of
       None \<Rightarrow> Inr (-1, s)
     | Some (fd, f) \<Rightarrow> bindR (fileclose f (set_ofile fd None s)) (\<lambda>s1. Inr (0, s1)))"

definition sys_fstat :: "'z ptab_scheme \<Rightarrow> (int \<times> 'z ptab_scheme) res" where
  "sys_fstat s =
     bindR (argfd 0 s) (\<lambda>r.
     case r of
       None \<Rightarrow> Inr (-1, s)
     | Some (_, f) \<Rightarrow> bindR (argaddr 1 s) (\<lambda>st. filestat f st s))"

section \<open>Names\<close>

text \<open>\<open>end_op(); return r;\<close>\<close>

definition finish_op :: "int \<Rightarrow> 'z ptab_scheme \<Rightarrow> (int \<times> 'z ptab_scheme) res" where
  "finish_op r s = bindR (end_op s) (\<lambda>s1. Inr (r, s1))"

text \<open>The code at \<open>bad\<close> of \<open>sys_link\<close>.\<close>

definition link_bad :: "nat \<Rightarrow> 'z ptab_scheme \<Rightarrow> (int \<times> 'z ptab_scheme) res" where
  "link_bad ip s =
     bindR (ilock ip s) (\<lambda>s1.
     bindR (iupdate ip (upd_inode ip (\<lambda>x. x\<lparr>i_nlink := i_nlink x - 1\<rparr>) s1)) (\<lambda>s2.
     bindR (iunlockput ip s2) (finish_op (-1))))"

definition link_op :: "byte list \<Rightarrow> byte list \<Rightarrow> 'z ptab_scheme \<Rightarrow> (int \<times> 'z ptab_scheme) res" where
  "link_op old new s =
     bindR (begin_op s) (\<lambda>s1.
     bindR (namei old s1) (\<lambda>(r, s2).
     case r of
       None \<Rightarrow> finish_op (-1) s2
     | Some ip \<Rightarrow>
         bindR (ilock ip s2) (\<lambda>s3.
         if i_type (icache s3 ! ip) = T_DIR then bindR (iunlockput ip s3) (finish_op (-1))
         else bindR (iupdate ip (upd_inode ip (\<lambda>x. x\<lparr>i_nlink := i_nlink x + 1\<rparr>) s3)) (\<lambda>s4.
              bindR (iunlock ip s4) (\<lambda>s5.
              bindR (nameiparent new s5) (\<lambda>(r, s6).
              case r of
                None \<Rightarrow> link_bad ip s6
              | Some (dp, name) \<Rightarrow>
                  bindR (ilock dp s6) (\<lambda>s7.
                  if i_dev (icache s7 ! dp) \<noteq> i_dev (icache s7 ! ip)
                  then bindR (iunlockput dp s7) (link_bad ip)
                  else bindR (dirlink dp name (i_inum (icache s7 ! ip)) s7) (\<lambda>(r, s8).
                       if r < 0 then bindR (iunlockput dp s8) (link_bad ip)
                       else bindR (iunlockput dp s8) (\<lambda>s9. bindR (iput ip s9) (finish_op 0))))))))))"

definition sys_link :: "'z sysst_scheme \<Rightarrow> (int \<times> 'z sysst_scheme) res" where
  "sys_link s =
     bindR (argstr 0 (path_addr s) 128 s) (\<lambda>(r0, s1).
     if r0 < 0 then Inr (-1, s1)
     else bindR (argstr 1 (path2_addr s1) 128 s1) (\<lambda>(r1, s2).
          if r1 < 0 then Inr (-1, s2)
          else link_op (path_at (path_addr s2) s2) (path_at (path2_addr s2) s2) s2))"

function isdirempty_loop :: "nat \<Rightarrow> nat \<Rightarrow> nat \<Rightarrow> 'z fs_scheme \<Rightarrow> (bool \<times> 'z fs_scheme) res" where
  "isdirempty_loop dp off sz s =
     (if off < sz
      then bindR (readi dp False (de_addr s) (of_nat off) 16 s) (\<lambda>(r, s1).
           if r \<noteq> 16 then Inl (Panic ''isdirempty: readi'')
           else if de_inum (read_de s1) \<noteq> 0 then Inr (False, s1)
           else isdirempty_loop dp (off + 16) sz s1)
      else Inr (True, s))"
  by pat_completeness auto
termination
  by (relation "measure (\<lambda>(dp, off, sz, s). sz - off)") auto

declare isdirempty_loop.simps [simp del]

definition isdirempty :: "nat \<Rightarrow> 'z fs_scheme \<Rightarrow> (bool \<times> 'z fs_scheme) res" where
  "isdirempty dp s = isdirempty_loop dp 32 (unat (i_size (icache s ! dp))) s"

definition unlink_bad :: "nat \<Rightarrow> 'z ptab_scheme \<Rightarrow> (int \<times> 'z ptab_scheme) res" where
  "unlink_bad dp s = bindR (iunlockput dp s) (finish_op (-1))"

abbreviation (input) dot :: "byte list" where "dot \<equiv> [46]"
abbreviation (input) dotdot :: "byte list" where "dotdot \<equiv> [46, 46]"

definition unlink_op :: "byte list \<Rightarrow> 'z ptab_scheme \<Rightarrow> (int \<times> 'z ptab_scheme) res" where
  "unlink_op path s =
     bindR (begin_op s) (\<lambda>s1.
     bindR (nameiparent path s1) (\<lambda>(r, s2).
     case r of
       None \<Rightarrow> finish_op (-1) s2
     | Some (dp, name) \<Rightarrow>
         bindR (ilock dp s2) (\<lambda>s3.
         if namecmp name dot = 0 \<or> namecmp name dotdot = 0 then unlink_bad dp s3
         else bindR (dirlookup dp name s3) (\<lambda>(r, s4).
         case r of
           None \<Rightarrow> unlink_bad dp s4
         | Some (ip, off) \<Rightarrow>
             bindR (ilock ip s4) (\<lambda>s5.
             if sint (i_nlink (icache s5 ! ip)) < 1 then Inl (Panic ''unlink: nlink < 1'')
             else bindR (if i_type (icache s5 ! ip) = T_DIR then isdirempty ip s5 else Inr (True, s5)) (\<lambda>(ok, s6).
                  if \<not> ok then bindR (iunlockput ip s6) (unlink_bad dp)
                  else bindR (writei dp False (de_addr s6) off 16
                         (s6\<lparr>pmem := store_bytes (pmem s6) (de_addr s6) (replicate 16 0)\<rparr>)) (\<lambda>(r, s7).
                       if r \<noteq> 16 then Inl (Panic ''unlink: writei'')
                       else bindR (if i_type (icache s7 ! ip) = T_DIR
                                   then iupdate dp (upd_inode dp (\<lambda>x. x\<lparr>i_nlink := i_nlink x - 1\<rparr>) s7)
                                   else Inr s7) (\<lambda>s8.
                            bindR (iunlockput dp s8) (\<lambda>s9.
                            bindR (iupdate ip (upd_inode ip (\<lambda>x. x\<lparr>i_nlink := i_nlink x - 1\<rparr>) s9)) (\<lambda>s10.
                            bindR (iunlockput ip s10) (finish_op 0)))))))))))"

definition sys_unlink :: "'z sysst_scheme \<Rightarrow> (int \<times> 'z sysst_scheme) res" where
  "sys_unlink s =
     bindR (argstr 0 (path_addr s) 128 s) (\<lambda>(r, s1).
     if r < 0 then Inr (-1, s1) else unlink_op (path_at (path_addr s1) s1) s1)"

text \<open>\<open>create\<close> returns the new inode locked.\<close>

definition create :: "byte list \<Rightarrow> u16 \<Rightarrow> u16 \<Rightarrow> u16 \<Rightarrow> 'z fs_scheme \<Rightarrow> (nat option \<times> 'z fs_scheme) res" where
  "create path typ major minor s =
     bindR (nameiparent path s) (\<lambda>(r, s1).
     case r of
       None \<Rightarrow> Inr (None, s1)
     | Some (dp, name) \<Rightarrow>
         bindR (ilock dp s1) (\<lambda>s2.
         bindR (dirlookup dp name s2) (\<lambda>(r, s3).
         case r of
           Some (ip, _) \<Rightarrow>
             bindR (iunlockput dp s3) (\<lambda>s4.
             bindR (ilock ip s4) (\<lambda>s5.
             let t = i_type (icache s5 ! ip)
             in if typ = T_FILE \<and> (t = T_FILE \<or> t = T_DEVICE) then Inr (Some ip, s5)
                else bindR (iunlockput ip s5) (\<lambda>s6. Inr (None, s6))))
         | None \<Rightarrow>
             bindR (ialloc (i_dev (icache s3 ! dp)) typ s3) (\<lambda>(ip, s4).
             bindR (ilock ip s4) (\<lambda>s5.
             bindR (iupdate ip (upd_inode ip (\<lambda>x. x\<lparr>i_major := major, i_minor := minor, i_nlink := 1\<rparr>) s5)) (\<lambda>s6.
             bindR (if typ = T_DIR
                    then bindR (iupdate dp (upd_inode dp (\<lambda>x. x\<lparr>i_nlink := i_nlink x + 1\<rparr>) s6)) (\<lambda>s7.
                         bindR (dirlink ip dot (i_inum (icache s7 ! ip)) s7) (\<lambda>(r, s8).
                         if r < 0 then Inl (Panic ''create dots'')
                         else bindR (dirlink ip dotdot (i_inum (icache s8 ! dp)) s8) (\<lambda>(r, s9).
                              if r < 0 then Inl (Panic ''create dots'') else Inr s9)))
                    else Inr s6) (\<lambda>s10.
             bindR (dirlink dp name (i_inum (icache s10 ! ip)) s10) (\<lambda>(r, s11).
             if r < 0 then Inl (Panic ''create: dirlink'')
             else bindR (iunlockput dp s11) (\<lambda>s12. Inr (Some ip, s12))))))))))"

abbreviation (input) O_RDONLY :: u32 where "O_RDONLY \<equiv> 0"
abbreviation (input) O_WRONLY :: u32 where "O_WRONLY \<equiv> 1"
abbreviation (input) O_RDWR :: u32 where "O_RDWR \<equiv> 2"
abbreviation (input) O_CREATE :: u32 where "O_CREATE \<equiv> 0x200"
abbreviation (input) O_TRUNC :: u32 where "O_TRUNC \<equiv> 0x400"

text \<open>The first part of \<open>sys_open\<close>: the inode, locked, or \<open>None\<close> after the operation has been
  ended.\<close>

definition open_inode :: "byte list \<Rightarrow> u32 \<Rightarrow> 'z fs_scheme \<Rightarrow> (nat option \<times> 'z fs_scheme) res" where
  "open_inode path omode s =
     (if omode AND O_CREATE \<noteq> 0
      then bindR (create path T_FILE 0 0 s) (\<lambda>(r, s1).
           case r of
             None \<Rightarrow> bindR (end_op s1) (\<lambda>s2. Inr (None, s2))
           | Some ip \<Rightarrow> Inr (Some ip, s1))
      else bindR (namei path s) (\<lambda>(r, s1).
           case r of
             None \<Rightarrow> bindR (end_op s1) (\<lambda>s2. Inr (None, s2))
           | Some ip \<Rightarrow>
               bindR (ilock ip s1) (\<lambda>s2.
               if i_type (icache s2 ! ip) = T_DIR \<and> omode \<noteq> O_RDONLY
               then bindR (iunlockput ip s2) (\<lambda>s3. bindR (end_op s3) (\<lambda>s4. Inr (None, s4)))
               else Inr (Some ip, s2))))"

text \<open>\<open>iunlockput(ip); end_op(); return -1;\<close>\<close>

definition open_fail :: "nat \<Rightarrow> 'z ptab_scheme \<Rightarrow> (int \<times> 'z ptab_scheme) res" where
  "open_fail ip s = bindR (iunlockput ip s) (finish_op (-1))"

definition open_op :: "byte list \<Rightarrow> u32 \<Rightarrow> 'z ptab_scheme \<Rightarrow> (int \<times> 'z ptab_scheme) res" where
  "open_op path omode s =
     bindR (begin_op s) (\<lambda>s1.
     bindR (open_inode path omode s1) (\<lambda>(r, s2).
     case r of
       None \<Rightarrow> Inr (-1, s2)
     | Some ip \<Rightarrow>
         let x = icache s2 ! ip
         in if i_type x = T_DEVICE \<and> (sint (i_major x) < 0 \<or> sint (i_major x) \<ge> NDEV) then open_fail ip s2
            else (case filealloc s2 of
              (None, s3) \<Rightarrow> open_fail ip s3
            | (Some f, s3) \<Rightarrow> (case fdalloc f s3 of
                (None, s4) \<Rightarrow> bindR (fileclose f s4) (open_fail ip)
              | (Some fd, s4) \<Rightarrow>
                  let s5 = upd_file f (\<lambda>y. if i_type x = T_DEVICE then y\<lparr>f_type := FD_DEVICE, f_major := i_major x\<rparr>
                                          else y\<lparr>f_type := FD_INODE, f_off := 0\<rparr>) s4;
                      s6 = upd_file f (\<lambda>y. y\<lparr>f_ip := ip, f_readable := (omode AND O_WRONLY = 0),
                             f_writable := (omode AND O_WRONLY \<noteq> 0 \<or> omode AND O_RDWR \<noteq> 0)\<rparr>) s5
                  in bindR (if omode AND O_TRUNC \<noteq> 0 \<and> i_type x = T_FILE then itrunc ip s6 else Inr s6) (\<lambda>s7.
                     bindR (iunlock ip s7) (finish_op (int fd)))))))"

definition sys_open :: "'z sysst_scheme \<Rightarrow> (int \<times> 'z sysst_scheme) res" where
  "sys_open s =
     bindR (argstr 0 (path_addr s) 128 s) (\<lambda>(n, s1).
     if n < 0 then Inr (-1, s1)
     else bindR (argint 1 s1) (\<lambda>omode. open_op (path_at (path_addr s1) s1) omode s1))"

text \<open>\<open>sys_mkdir\<close> and \<open>sys_mknod\<close> after their arguments.\<close>

definition create_op :: "byte list \<Rightarrow> u16 \<Rightarrow> u16 \<Rightarrow> u16 \<Rightarrow> 'z ptab_scheme \<Rightarrow> (int \<times> 'z ptab_scheme) res" where
  "create_op path typ major minor s =
     bindR (create path typ major minor s) (\<lambda>(r, s1).
     case r of
       None \<Rightarrow> finish_op (-1) s1
     | Some ip \<Rightarrow> bindR (iunlockput ip s1) (finish_op 0))"

definition sys_mkdir :: "'z sysst_scheme \<Rightarrow> (int \<times> 'z sysst_scheme) res" where
  "sys_mkdir s =
     bindR (begin_op s) (\<lambda>s1.
     bindR (argstr 0 (path_addr s1) 128 s1) (\<lambda>(r, s2).
     if r < 0 then finish_op (-1) s2 else create_op (path_at (path_addr s2) s2) T_DIR 0 0 s2))"

definition sys_mknod :: "'z sysst_scheme \<Rightarrow> (int \<times> 'z sysst_scheme) res" where
  "sys_mknod s =
     bindR (begin_op s) (\<lambda>s1.
     bindR (argstr 0 (path_addr s1) 128 s1) (\<lambda>(r, s2).
     if r < 0 then finish_op (-1) s2
     else bindR (argint 1 s2) (\<lambda>major. bindR (argint 2 s2) (\<lambda>minor.
          create_op (path_at (path_addr s2) s2) T_DEVICE (ucast major) (ucast minor) s2))))"

definition set_cwd :: "nat \<Rightarrow> 'z ptab_scheme \<Rightarrow> 'z ptab_scheme" where
  "set_cwd ip s = upd_proc (me s) (p_cwd_update (\<lambda>_. ip)) (s\<lparr>cwd := ip\<rparr>)"

definition sys_chdir :: "'z sysst_scheme \<Rightarrow> (int \<times> 'z sysst_scheme) res" where
  "sys_chdir s =
     bindR (begin_op s) (\<lambda>s1.
     bindR (argstr 0 (path_addr s1) 128 s1) (\<lambda>(r, s2).
     if r < 0 then finish_op (-1) s2
     else bindR (namei (path_at (path_addr s2) s2) s2) (\<lambda>(r, s3).
          case r of
            None \<Rightarrow> finish_op (-1) s3
          | Some ip \<Rightarrow>
              bindR (ilock ip s3) (\<lambda>s4.
              if i_type (icache s4 ! ip) \<noteq> T_DIR then bindR (iunlockput ip s4) (finish_op (-1))
              else bindR (iunlock ip s4) (\<lambda>s5.
                   bindR (iput (p_cwd (procs s5 ! me s5)) s5) (\<lambda>s6.
                   bindR (end_op s6) (\<lambda>s7. Inr (0, set_cwd ip s7))))))))"

definition sys_pipe :: "'z ptab_scheme \<Rightarrow> (int \<times> 'z ptab_scheme) res" where
  "sys_pipe s =
     bindR (argaddr 0 s) (\<lambda>fdarray.
     bindR (pipealloc s) (\<lambda>(r, s1).
     case r of
       None \<Rightarrow> Inr (-1, s1)
     | Some (fr, fw) \<Rightarrow>
         let close_both = (\<lambda>s. bindR (fileclose fr s) (\<lambda>s'. bindR (fileclose fw s') (\<lambda>s''. Inr (-1, s''))))
         in (case fdalloc fr s1 of
               (None, s2) \<Rightarrow> close_both s2
             | (Some fd0, s2) \<Rightarrow> (case fdalloc fw s2 of
                 (None, s3) \<Rightarrow> close_both (set_ofile fd0 None s3)
               | (Some fd1, s3) \<Rightarrow>
                   let pt = p_pagetable (procs s3 ! me s3);
                       (r0, s4) = copyout_bytes pt fdarray (bytes_of_word 4 (of_nat fd0 :: u32)) s3;
                       (r1, s5) = (if r0 < 0 then (r0, s4)
                                   else copyout_bytes pt (fdarray + 4) (bytes_of_word 4 (of_nat fd1 :: u32)) s4)
                   in if r1 < 0 then close_both (set_ofile fd1 None (set_ofile fd0 None s5))
                      else Inr (0, s5)))))"

end
