(* ===== verification/Exec.thy ===== *)
theory Exec
  imports Syscall
begin

text \<open>
  \<open>kernel/exec.c\<close> and \<open>sys_exec\<close>. The local variables \<open>elf\<close> and \<open>ph\<close> are kernel
  memory at \<open>elf_addr\<close> and \<open>ph_addr\<close>; their fields are read at the offsets of
  \<open>kernel/elf.h\<close>. The argument strings are pages of kernel memory, given by their addresses.
\<close>

record execst = sysst +
  elf_addr :: u64
  ph_addr :: u64

abbreviation (input) ELF_MAGIC :: u32 where "ELF_MAGIC \<equiv> 0x464C457F"
abbreviation (input) ELF_PROG_LOAD :: u32 where "ELF_PROG_LOAD \<equiv> 1"
abbreviation (input) MAXARG :: nat where "MAXARG \<equiv> 32"

record elfhdr =
  e_magic :: u32
  e_entry :: u64
  e_phoff :: u64
  e_phnum :: u16

record proghdr =
  ph_type :: u32
  ph_off :: u64
  ph_vaddr :: u64
  ph_filesz :: u64
  ph_memsz :: u64

definition read_elf :: "'z execst_scheme \<Rightarrow> elfhdr" where
  "read_elf s =
     \<lparr>e_magic = load32 (pmem s) (elf_addr s), e_entry = load64 (pmem s) (elf_addr s + 24),
      e_phoff = load64 (pmem s) (elf_addr s + 32), e_phnum = get16 0 (bytes_at (pmem s) (elf_addr s + 56) 2)\<rparr>"

definition read_ph :: "'z execst_scheme \<Rightarrow> proghdr" where
  "read_ph s =
     \<lparr>ph_type = load32 (pmem s) (ph_addr s), ph_off = load64 (pmem s) (ph_addr s + 8),
      ph_vaddr = load64 (pmem s) (ph_addr s + 16), ph_filesz = load64 (pmem s) (ph_addr s + 32),
      ph_memsz = load64 (pmem s) (ph_addr s + 40)\<rparr>"

text \<open>\<open>for(i = ...; i < sz; i += PGSIZE)\<close>. The counter is a \<open>uint\<close>: after the last page below
  \<open>2 ^ 32\<close> it is 0 again and the loop repeats the same reads for ever.\<close>

function loadseg_loop :: "u64 \<Rightarrow> u64 \<Rightarrow> nat \<Rightarrow> u32 \<Rightarrow> nat \<Rightarrow> nat \<Rightarrow> 'z fs_scheme \<Rightarrow> (int \<times> 'z fs_scheme) res" where
  "loadseg_loop pt va ip offset i sz s =
     (if i < sz
      then bindR (walkaddr pt (va + of_nat i) s) (\<lambda>pa.
           if pa = 0 then Inl (Panic ''loadseg: address should exist'')
           else let n = (if sz - i < 4096 then sz - i else 4096)
                in bindR (readi ip False pa (offset + of_nat i) (of_nat n) s) (\<lambda>(r, s1).
                   if r \<noteq> int n then Inr (-1, s1)
                   else if i + 4096 \<ge> 2 ^ 32 then Inl Diverges
                   else loadseg_loop pt va ip offset (i + 4096) sz s1))
      else Inr (0, s))"
  by pat_completeness auto
termination
  by (relation "measure (\<lambda>(pt, va, ip, offset, i, sz, s). sz - i)") auto

declare loadseg_loop.simps [simp del]

definition loadseg :: "u64 \<Rightarrow> u64 \<Rightarrow> nat \<Rightarrow> u32 \<Rightarrow> u32 \<Rightarrow> 'z fs_scheme \<Rightarrow> (int \<times> 'z fs_scheme) res" where
  "loadseg pt va ip offset sz s =
     (if va mod PGSIZE \<noteq> 0 then Inl (Panic ''loadseg: va must be page aligned'')
      else loadseg_loop pt va ip offset 0 (unat sz) s)"

text \<open>The loop over the program headers, with \<open>k\<close> left: whether it ended without \<open>goto bad\<close>,
  and \<open>sz\<close>.\<close>

fun exec_load :: "nat \<Rightarrow> u32 \<Rightarrow> nat \<Rightarrow> u64 \<Rightarrow> u64 \<Rightarrow> 'z execst_scheme \<Rightarrow> ((bool \<times> u64) \<times> 'z execst_scheme) res" where
  "exec_load 0 off ip pt sz s = Inr ((True, sz), s)"
| "exec_load (Suc k) off ip pt sz s =
     bindR (readi ip False (ph_addr s) off 56 s) (\<lambda>(r, s1).
     if r \<noteq> 56 then Inr ((False, sz), s1)
     else let ph = read_ph s1
          in if ph_type ph \<noteq> ELF_PROG_LOAD then exec_load k (off + 56) ip pt sz s1
             else if ph_memsz ph < ph_filesz ph then Inr ((False, sz), s1)
             else if ph_vaddr ph + ph_memsz ph < ph_vaddr ph then Inr ((False, sz), s1)
             else bindR (uvmalloc pt sz (ph_vaddr ph + ph_memsz ph) s1) (\<lambda>(sz1, s2).
                  if sz1 = 0 then Inr ((False, sz), s2)
                  else if ph_vaddr ph mod PGSIZE \<noteq> 0 then Inr ((False, sz1), s2)
                  else bindR (loadseg pt (ph_vaddr ph) ip (ucast (ph_off ph)) (ucast (ph_filesz ph)) s2) (\<lambda>(r, s3).
                       if r < 0 then Inr ((False, sz1), s3) else exec_load k (off + 56) ip pt sz1 s3)))"

text \<open>The loop that pushes the argument strings: the stack pointer and \<open>ustack\<close>, or \<open>None\<close> for
  \<open>goto bad\<close>.\<close>

fun exec_args :: "nat \<Rightarrow> u64 list \<Rightarrow> u64 \<Rightarrow> u64 \<Rightarrow> u64 \<Rightarrow> u64 list \<Rightarrow> 'z execst_scheme \<Rightarrow>
    ((u64 \<times> u64 list) option \<times> 'z execst_scheme) res" where
  "exec_args argc [] pt sp stackbase ustack s = Inr (Some (sp, ustack @ [0]), s)"
| "exec_args argc (a # as) pt sp stackbase ustack s =
     (if argc \<ge> MAXARG then Inr (None, s)
      else case strlen (array_at (pmem s) a) of
             None \<Rightarrow> Inl Diverges
           | Some len \<Rightarrow>
               let sp1 = sp - (of_nat len + 1); sp2 = sp1 - sp1 mod 16
               in if sp2 < stackbase then Inr (None, s)
                  else bindR (copyout pt sp2 a (of_nat len + 1) s) (\<lambda>(r, s1).
                       if r < 0 then Inr (None, s1)
                       else exec_args (Suc argc) as pt sp2 stackbase (ustack @ [sp2]) s1))"

text \<open>The code at \<open>bad\<close>: \<open>pagetable\<close> may be zero and \<open>ip\<close> may be null.\<close>

definition exec_bad :: "u64 \<Rightarrow> u64 \<Rightarrow> nat option \<Rightarrow> 'z execst_scheme \<Rightarrow> (int \<times> 'z execst_scheme) res" where
  "exec_bad pt sz ip s =
     bindR (if pt \<noteq> 0 then proc_freepagetable pt sz s else Inr s) (\<lambda>s1.
     case ip of None \<Rightarrow> Inr (-1, s1) | Some ip \<Rightarrow> bindR (iunlockput ip s1) (finish_op (-1)))"

text \<open>The part of the path after the last slash.\<close>

definition last_elem :: "byte list \<Rightarrow> byte list" where
  "last_elem path = rev (takeWhile (\<lambda>c. c \<noteq> slash) (rev path))"

text \<open>From the allocation of the stack on.\<close>

definition exec_commit :: "byte list \<Rightarrow> u64 list \<Rightarrow> elfhdr \<Rightarrow> u64 \<Rightarrow> u64 \<Rightarrow> 'z execst_scheme \<Rightarrow> (int \<times> 'z execst_scheme) res" where
  "exec_commit path argv elf pt sz0 s =
     (let p = me s; oldsz = p_sz (procs s ! p); sz = PGROUNDUP sz0
      in bindR (uvmalloc pt sz (sz + 2 * PGSIZE) s) (\<lambda>(sz1, s1).
         if sz1 = 0 then exec_bad pt sz None s1
         else bindR (uvmclear pt (sz1 - 2 * PGSIZE) s1) (\<lambda>s2.
              let stackbase = sz1 - PGSIZE
              in bindR (exec_args 0 argv pt sz1 stackbase [] s2) (\<lambda>(r, s3).
                 case r of
                   None \<Rightarrow> exec_bad pt sz1 None s3
                 | Some (sp, ustack) \<Rightarrow>
                     let argc = length argv; sp1 = sp - (of_nat argc + 1) * 8; sp2 = sp1 - sp1 mod 16
                     in if sp2 < stackbase then exec_bad pt sz1 None s3
                        else case copyout_bytes pt sp2 (concat (map (bytes_of_word 8) ustack)) s3 of
                          (r, s4) \<Rightarrow>
                            if r < 0 then exec_bad pt sz1 None s4
                            else let s5 = tf_set p tf_a1 sp2 s4;
                                     s6 = upd_proc p (set_name (last_elem path)) s5;
                                     oldpt = p_pagetable (procs s6 ! p);
                                     s7 = upd_proc p (\<lambda>x. x\<lparr>p_pagetable := pt, p_sz := sz1\<rparr>) (s6\<lparr>mypagetable := pt\<rparr>);
                                     s8 = tf_set p tf_sp sp2 (tf_set p tf_epc (e_entry elf) s7)
                                 in bindR (proc_freepagetable oldpt oldsz s8) (\<lambda>s9. Inr (int argc, s9))))))"

definition exec :: "byte list \<Rightarrow> u64 list \<Rightarrow> 'z execst_scheme \<Rightarrow> (int \<times> 'z execst_scheme) res" where
  "exec path argv s =
     bindR (begin_op s) (\<lambda>s1.
     bindR (namei path s1) (\<lambda>(r, s2).
     case r of
       None \<Rightarrow> finish_op (-1) s2
     | Some ip \<Rightarrow>
         bindR (ilock ip s2) (\<lambda>s3.
         bindR (readi ip False (elf_addr s3) 0 64 s3) (\<lambda>(r, s4).
         let elf = read_elf s4
         in if r \<noteq> 64 then exec_bad 0 0 (Some ip) s4
            else if e_magic elf \<noteq> ELF_MAGIC then exec_bad 0 0 (Some ip) s4
            else bindR (proc_pagetable (me s4) s4) (\<lambda>(pt, s5).
                 if pt = 0 then exec_bad 0 0 (Some ip) s5
                 else bindR (exec_load (unat (e_phnum elf)) (ucast (e_phoff elf)) ip pt 0 s5) (\<lambda>((ok, sz), s6).
                      if \<not> ok then exec_bad pt sz (Some ip) s6
                      else bindR (iunlockput ip s6) (\<lambda>s7.
                           bindR (end_op s7) (exec_commit path argv elf pt sz))))))))"

text \<open>\<open>kfree\<close> of every page of \<open>argv\<close>.\<close>

fun free_args :: "u64 list \<Rightarrow> 'z kmem_scheme \<Rightarrow> 'z kmem_scheme res" where
  "free_args [] s = Inr s"
| "free_args (a # as) s = bindR (kfree a s) (free_args as)"

text \<open>The loop of \<open>sys_exec\<close> over \<open>uargv\<close>, with \<open>k\<close> of the 32 entries left: the pages so far
  and whether it met the terminating null.\<close>

fun fetch_args :: "nat \<Rightarrow> nat \<Rightarrow> u64 \<Rightarrow> u64 list \<Rightarrow> 'z ptab_scheme \<Rightarrow> ((bool \<times> u64 list) \<times> 'z ptab_scheme) res" where
  "fetch_args i 0 uargv argv s = Inr ((False, argv), s)"
| "fetch_args i (Suc k) uargv argv s =
     (case fetchaddr (uargv + 8 * of_nat i) s of
        None \<Rightarrow> Inr ((False, argv), s)
      | Some uarg \<Rightarrow>
          if uarg = 0 then Inr ((True, argv), s)
          else case kalloc s of
            (page, s1) \<Rightarrow>
              if page = 0 then Inr ((False, argv), s1)
              else bindR (fetchstr uarg page PGSIZE s1) (\<lambda>(r, s2).
                   if r < 0 then Inr ((False, argv @ [page]), s2)
                   else fetch_args (Suc i) k uargv (argv @ [page]) s2))"

definition sys_exec :: "'z execst_scheme \<Rightarrow> (int \<times> 'z execst_scheme) res" where
  "sys_exec s =
     bindR (argstr 0 (path_addr s) 128 s) (\<lambda>(r, s1).
     if r < 0 then Inr (-1, s1)
     else bindR (argaddr 1 s1) (\<lambda>uargv.
          bindR (fetch_args 0 MAXARG uargv [] s1) (\<lambda>((ok, argv), s2).
          if \<not> ok then bindR (free_args argv s2) (\<lambda>s3. Inr (-1, s3))
          else bindR (exec (path_at (path_addr s2) s2) argv s2) (\<lambda>(ret, s3).
               bindR (free_args argv s3) (\<lambda>s4. Inr (ret, s4))))))"

end
