(* ===== verification/Trap.thy ===== *)
theory Trap
  imports Exec
begin

text \<open>
  \<open>kernel/sysproc.c\<close>, the dispatch of \<open>kernel/syscall.c\<close> and \<open>kernel/trap.c\<close>. The control
  registers of the hart are fields of the state. \<open>exit\<close> does not return: a call that ends in
  it has the outcome \<open>Exits\<close> of the type below. Messages to the console are left out.
\<close>

section \<open>State\<close>

record trapst = execst +
  sstatus :: u64
  stvec :: u64
  sepc :: u64
  scause :: u64
  sip :: u64
  r_tp :: u64
  plic_irq :: nat
  kernelvec :: u64
  uservec_off :: u64
  usertrap_addr :: u64

abbreviation (input) SSTATUS_SPP :: u64 where "SSTATUS_SPP \<equiv> 256"
abbreviation (input) SSTATUS_SPIE :: u64 where "SSTATUS_SPIE \<equiv> 32"
abbreviation (input) SSTATUS_SIE :: u64 where "SSTATUS_SIE \<equiv> 2"
abbreviation (input) UART0_IRQ :: nat where "UART0_IRQ \<equiv> 10"
abbreviation (input) VIRTIO0_IRQ :: nat where "VIRTIO0_IRQ \<equiv> 1"

definition intr_on :: "'z trapst_scheme \<Rightarrow> 'z trapst_scheme" where
  "intr_on s = s\<lparr>sstatus := sstatus s OR SSTATUS_SIE\<rparr>"

definition intr_off :: "'z trapst_scheme \<Rightarrow> 'z trapst_scheme" where
  "intr_off s = s\<lparr>sstatus := sstatus s AND NOT SSTATUS_SIE\<rparr>"

definition intr_get :: "'z trapst_scheme \<Rightarrow> bool" where
  "intr_get s \<longleftrightarrow> sstatus s AND SSTATUS_SIE \<noteq> 0"

text \<open>The end of a system call or a trap: control goes back to the caller, or the process has
  exited and the scheduler runs.\<close>

datatype 'a ends = Goes 'a | Exits

section \<open>System calls on processes\<close>

definition sys_exit :: "'z ptab_scheme \<Rightarrow> 'z ptab_scheme res" where
  "sys_exit s = bindR (argint 0 s) (\<lambda>n. exit n s)"

definition sys_getpid :: "'z ptab_scheme \<Rightarrow> int" where
  "sys_getpid s = p_pid (procs s ! me s)"

definition sys_fork :: "'z ptab_scheme \<Rightarrow> (int \<times> 'z ptab_scheme) res" where
  "sys_fork s = fork s"

definition sys_wait :: "'z ptab_scheme \<Rightarrow> (int \<times> 'z ptab_scheme) res" where
  "sys_wait s = bindR (argaddr 0 s) (\<lambda>p. wait p s)"

definition sys_sbrk :: "'z ptab_scheme \<Rightarrow> (int \<times> 'z ptab_scheme) res" where
  "sys_sbrk s =
     bindR (argint 0 s) (\<lambda>n.
     let addr = sint (ucast (p_sz (procs s ! me s)) :: u32)
     in bindR (growproc n s) (\<lambda>(r, s1). Inr (if r < 0 then -1 else addr, s1)))"

text \<open>One round of the loop of \<open>sys_sleep\<close> that began at \<open>ticks0\<close>: \<open>ticks - ticks0 < n\<close> compares
  unsigned numbers, so a negative \<open>n\<close> is a large one.\<close>

definition sys_sleep_round :: "u32 \<Rightarrow> u32 \<Rightarrow> 'z sysst_scheme \<Rightarrow> int res" where
  "sys_sleep_round ticks0 n s =
     (if ticks s - ticks0 < n
      then if p_killed (procs s ! me s) then Inr (-1) else Inl (Sleeps ''ticks'')
      else Inr 0)"

definition sys_sleep :: "'z sysst_scheme \<Rightarrow> int res" where
  "sys_sleep s = bindR (argint 0 s) (\<lambda>n. sys_sleep_round (ticks s) n s)"

definition sys_kill :: "'z ptab_scheme \<Rightarrow> (int \<times> 'z ptab_scheme) res" where
  "sys_kill s = bindR (argint 0 s) (\<lambda>pid. Inr (kill (sint pid) s))"

definition sys_uptime :: "'z sysst_scheme \<Rightarrow> int" where
  "sys_uptime s = uint (ticks s)"

section \<open>Dispatch\<close>

text \<open>The entries of the table \<open>syscalls\<close>, in the order of the numbers of
  \<open>kernel/syscall.h\<close>.\<close>

definition syscalls :: "int \<Rightarrow> 'z execst_scheme \<Rightarrow> (int \<times> 'z execst_scheme) ends res option" where
  "syscalls num s =
     (let ret = (\<lambda>r. bindR r (\<lambda>x. Inr (Goes x)))
      in if num = 1 then Some (ret (sys_fork s))
         else if num = 2 then Some (bindR (sys_exit s) (\<lambda>_. Inr Exits))
         else if num = 3 then Some (ret (sys_wait s))
         else if num = 4 then Some (ret (sys_pipe s))
         else if num = 5 then Some (ret (sys_read s))
         else if num = 6 then Some (ret (sys_kill s))
         else if num = 7 then Some (ret (sys_exec s))
         else if num = 8 then Some (ret (sys_fstat s))
         else if num = 9 then Some (ret (sys_chdir s))
         else if num = 10 then Some (ret (sys_dup s))
         else if num = 11 then Some (Inr (Goes (sys_getpid s, s)))
         else if num = 12 then Some (ret (sys_sbrk s))
         else if num = 13 then Some (bindR (sys_sleep s) (\<lambda>r. Inr (Goes (r, s))))
         else if num = 14 then Some (Inr (Goes (sys_uptime s, s)))
         else if num = 15 then Some (ret (sys_open s))
         else if num = 16 then Some (ret (sys_write s))
         else if num = 17 then Some (ret (sys_mknod s))
         else if num = 18 then Some (ret (sys_unlink s))
         else if num = 19 then Some (ret (sys_link s))
         else if num = 20 then Some (ret (sys_mkdir s))
         else if num = 21 then Some (ret (sys_close s))
         else None)"

text \<open>The result of a call goes to \<open>a0\<close>. The address of the trap frame is read after the call.\<close>

definition syscall :: "'z execst_scheme \<Rightarrow> 'z execst_scheme ends res" where
  "syscall s =
     (case syscalls (sint (ucast (tf_get (me s) tf_a7 s) :: u32)) s of
        None \<Rightarrow> Inr (Goes (tf_set (me s) tf_a0 (-1) s))
      | Some r \<Rightarrow> bindR r (\<lambda>e. case e of
          Exits \<Rightarrow> Inr Exits
        | Goes (v, s1) \<Rightarrow> Inr (Goes (tf_set (me s1) tf_a0 (word_of_int v) s1))))"

section \<open>Traps\<close>

definition trapinithart :: "'z trapst_scheme \<Rightarrow> 'z trapst_scheme" where
  "trapinithart s = s\<lparr>stvec := kernelvec s\<rparr>"

text \<open>The channel \<open>&ticks\<close> is the address 0 of the model's channels.\<close>

definition clockintr :: "'z sysst_scheme \<Rightarrow> 'z sysst_scheme" where
  "clockintr s = wakeup (AddrChan 0) (s\<lparr>ticks := ticks s + 1\<rparr>)"

fun uart_input :: "nat \<Rightarrow> 'z cons_scheme \<Rightarrow> 'z cons_scheme res" where
  "uart_input 0 s = Inr s"
| "uart_input (Suc k) s =
     (case uartgetc s of
        (None, s1) \<Rightarrow> Inr s1
      | (Some c, s1) \<Rightarrow> bindR (consoleintr c s1) (uart_input k))"

definition uartintr :: "'z cons_scheme \<Rightarrow> 'z cons_scheme res" where
  "uartintr s = bindR (uart_input (Suc (length (uart_in s))) s) (\<lambda>s1. Inr (uartstart s1))"

text \<open>The interrupt of the disk completes a request (see \<open>virtio_disk_rw\<close> in theory \<open>Bio\<close>) and
  has no effect of its own here.\<close>

definition devintr :: "'z trapst_scheme \<Rightarrow> (nat \<times> 'z trapst_scheme) res" where
  "devintr s =
     (if scause s AND 0x8000000000000000 \<noteq> 0 \<and> scause s AND 0xff = 9
      then let irq = plic_irq s
           in if irq = UART0_IRQ then bindR (uartintr s) (\<lambda>s1. Inr (1, s1)) else Inr (1, s)
      else if scause s = 0x8000000000000001
      then let s1 = (if r_tp s = 0 then clockintr s else s)
           in Inr (2, s1\<lparr>sip := sip s1 AND NOT 2\<rparr>)
      else Inr (0, s))"

definition usertrapret :: "'z trapst_scheme \<Rightarrow> (u64 \<times> 'z trapst_scheme)" where
  "usertrapret s =
     (let p = me s;
          s1 = intr_off s;
          s2 = s1\<lparr>stvec := TRAMPOLINE + uservec_off s1\<rparr>;
          s3 = tf_set p 0 (satp s2) s2;
          s4 = tf_set p 8 (p_kstack (procs s3 ! p) + PGSIZE) s3;
          s5 = tf_set p 16 (usertrap_addr s4) s4;
          s6 = tf_set p 32 (r_tp s5) s5;
          s7 = s6\<lparr>sstatus := (sstatus s6 AND NOT SSTATUS_SPP) OR SSTATUS_SPIE\<rparr>;
          s8 = s7\<lparr>sepc := tf_get p tf_epc s7\<rparr>
      in (MAKE_SATP (p_pagetable (procs s8 ! p)), s8))"

text \<open>\<open>usertrap\<close> up to \<open>usertrapret\<close> or \<open>exit\<close>; the flag tells that it yields first.\<close>

definition exit_now :: "'z trapst_scheme \<Rightarrow> (bool \<times> 'z trapst_scheme) ends res" where
  "exit_now s = bindR (exit (-1) s) (\<lambda>_. Inr Exits)"

definition usertrap_end :: "nat \<Rightarrow> 'z trapst_scheme \<Rightarrow> (bool \<times> 'z trapst_scheme) ends res" where
  "usertrap_end which_dev s =
     (if p_killed (procs s ! me s) then exit_now s else Inr (Goes (which_dev = 2, s)))"

definition usertrap :: "'z trapst_scheme \<Rightarrow> (bool \<times> 'z trapst_scheme) ends res" where
  "usertrap s =
     (if sstatus s AND SSTATUS_SPP \<noteq> 0 then Inl (Panic ''usertrap: not from user mode'')
      else let s1 = s\<lparr>stvec := kernelvec s\<rparr>;
               s2 = tf_set (me s1) tf_epc (sepc s1) s1
           in if scause s2 = 8
              then if p_killed (procs s2 ! me s2) then exit_now s2
                   else let s3 = tf_set (me s2) tf_epc (tf_get (me s2) tf_epc s2 + 4) s2
                        in bindR (syscall (intr_on s3)) (\<lambda>e. case e of Exits \<Rightarrow> Inr Exits | Goes s4 \<Rightarrow> usertrap_end 0 s4)
              else bindR (devintr s2) (\<lambda>(which_dev, s3).
                   if which_dev \<noteq> 0 then usertrap_end which_dev s3
                   else usertrap_end 0 (upd_proc (me s3) (p_killed_update (\<lambda>_. True)) s3)))"

text \<open>\<open>kerneltrap\<close>; the flag tells that it yields, after which it restores the registers.\<close>

definition kerneltrap :: "'z trapst_scheme \<Rightarrow> (bool \<times> 'z trapst_scheme) res" where
  "kerneltrap s =
     (if sstatus s AND SSTATUS_SPP = 0 then Inl (Panic ''kerneltrap: not from supervisor mode'')
      else if intr_get s then Inl (Panic ''kerneltrap: interrupts enabled'')
      else bindR (devintr s) (\<lambda>(which_dev, s1).
           if which_dev = 0 then Inl (Panic ''kerneltrap'')
           else Inr (which_dev = 2 \<and> p_state (procs s1 ! me s1) = RUNNING,
                     s1\<lparr>sepc := sepc s, sstatus := sstatus s\<rparr>)))"

end
