(* ===== verification/BlockTx.thy ===== *)
theory BlockTx
  imports Fs
begin

text \<open>
  What \<open>kernel/fs.c\<close> relies on in the log and the buffer cache: a block is read, changed,
  logged and released inside a transaction. The locale \<open>block_store\<close> states this contract,
  proves what its clients use (a block read or updated, a search through a sequence of blocks), and
  is interpreted on \<open>bread\<close>, \<open>log_write\<close> and \<open>brelse\<close>.

  \<open>tx d H W s s'\<close> relates the states before and after a section of a file system operation
  that wrote no blocks but those of \<open>W\<close>, with the blocks \<open>H\<close> held throughout;
  \<open>room k s\<close> says that the transaction has room for \<open>k\<close> more blocks.
\<close>

section \<open>Frames\<close>

text \<open>Operations on blocks change buffers, disk and log header only; operations on inodes change
  the inode cache and the memory they copy to as well.\<close>

definition fs_frame :: "'z fs_scheme \<Rightarrow> 'z fs_scheme \<Rightarrow> bool" where
  "fs_frame s s' \<longleftrightarrow> freelist s' = freelist s \<and> kend s' = kend s \<and> kernel_pagetable s' = kernel_pagetable s \<and>
     etext s' = etext s \<and> trampoline s' = trampoline s \<and> satp s' = satp s \<and> mypid s' = mypid s \<and>
     mypagetable s' = mypagetable s \<and> lstart s' = lstart s \<and> lsize s' = lsize s \<and> outstanding s' = outstanding s \<and>
     committing s' = committing s \<and> ldev s' = ldev s \<and> sb s' = sb s \<and> cwd s' = cwd s \<and> de_addr s' = de_addr s \<and>
     fs.more s' = fs.more s"

definition blk_frame :: "'z fs_scheme \<Rightarrow> 'z fs_scheme \<Rightarrow> bool" where
  "blk_frame s s' \<longleftrightarrow> fs_frame s s' \<and> icache s' = icache s \<and> pmem s' = pmem s"

lemma fs_frame_refl [simp]: "fs_frame s s" and blk_frame_refl [simp]: "blk_frame s s"
  by (simp_all add: fs_frame_def blk_frame_def)

lemma fs_frame_trans: "fs_frame s s' \<Longrightarrow> fs_frame s' s'' \<Longrightarrow> fs_frame s s''"
  by (simp add: fs_frame_def)

lemma blk_frame_trans: "blk_frame s s' \<Longrightarrow> blk_frame s' s'' \<Longrightarrow> blk_frame s s''"
  by (auto simp: blk_frame_def intro: fs_frame_trans)

lemma blk_frameD:
  assumes "blk_frame s s'"
  shows "lstart s' = lstart s" "lsize s' = lsize s" "outstanding s' = outstanding s" "sb s' = sb s"
    "icache s' = icache s" "pmem s' = pmem s" "cwd s' = cwd s" "de_addr s' = de_addr s" "mypid s' = mypid s"
    "mypagetable s' = mypagetable s"
  using assms by (simp_all add: fs_frame_def blk_frame_def)

lemma blk_frame_bio: "bio_only s s' \<Longrightarrow> blk_frame s s'"
  unfolding bio_only_def by (auto simp: blk_frame_def fs_frame_def)

lemma log_write_frame: "log_write b s = Inr s' \<Longrightarrow> blk_frame s s'"
  by (auto simp: log_write_def Let_def bpin_def upd_buf_def blk_frame_def fs_frame_def split: if_splits)

section \<open>Sections of a transaction\<close>

definition tx :: "u32 \<Rightarrow> u32 set \<Rightarrow> u32 set \<Rightarrow> 'z fs_scheme \<Rightarrow> 'z fs_scheme \<Rightarrow> bool" where
  "tx d H W s s' \<longleftrightarrow> blk_frame s s' \<and> keeps d s H s' \<and> disk s' = disk s \<and> dwrites s' = dwrites s \<and>
     set (log_home s) \<subseteq> set (log_home s') \<and> set (log_home s') \<subseteq> set (log_home s) \<union> W \<and>
     (\<forall>n. n \<notin> W \<longrightarrow> view d s' n = view d s n)"

definition room :: "nat \<Rightarrow> 'z fs_scheme \<Rightarrow> bool" where
  "room k s \<longleftrightarrow> k > 0 \<longrightarrow> 1 \<le> outstanding s \<and> lh_n s + int k \<le> 29 \<and> lh_n s + int k < lsize s"

definition clean :: "u32 \<Rightarrow> 'z fs_scheme \<Rightarrow> u32 \<Rightarrow> bool" where
  "clean d s n \<longleftrightarrow> n \<in> set (log_home s) \<or> view d s n = disk s n"

lemma keeps_refl [simp]: "keeps d s H s"
  by (simp add: keeps_def)

lemma tx_refl [simp]: "tx d H W s s"
  by (auto simp: tx_def)

lemma tx_trans: "tx d H W s s' \<Longrightarrow> tx d H V s' s'' \<Longrightarrow> tx d H (W \<union> V) s s''"
  unfolding tx_def keeps_def by (auto intro: blk_frame_trans)

lemma tx_mono: "tx d H W s s' \<Longrightarrow> W \<subseteq> V \<Longrightarrow> G \<subseteq> H \<Longrightarrow> tx d G V s s'"
  unfolding tx_def keeps_def by blast

lemma txD:
  assumes "tx d H W s s'"
  shows "blk_frame s s'" "disk s' = disk s" "dwrites s' = dwrites s" "n \<notin> W \<Longrightarrow> view d s' n = view d s n"
    "n \<in> H \<Longrightarrow> cached s d n b \<Longrightarrow> cached s' d n b" "n \<notin> W \<Longrightarrow> clean d s n \<Longrightarrow> clean d s' n"
  using assms by (auto simp: tx_def keeps_def clean_def)

lemma room_mono: "room k s \<Longrightarrow> j \<le> k \<Longrightarrow> room j s"
  by (auto simp: room_def)

lemma tx_room:
  assumes t: "tx d H W s s'" and inv: "log_inv d s G" "log_inv d s' G'" and W: "finite W" "card W \<le> j"
    and r: "room (j + k) s"
  shows "room k s'"
proof -
  have "card (set (log_home s')) \<le> card (set (log_home s) \<union> W)"
    using t W by (intro card_mono) (auto simp: tx_def)
  also have "\<dots> \<le> card (set (log_home s)) + card W" by (rule card_Un_le)
  finally have "nat (lh_n s') \<le> nat (lh_n s) + card W"
    using distinct_card [OF log_invD(6) [OF inv(1)]] distinct_card [OF log_invD(6) [OF inv(2)]]
      log_invD(12) [OF inv(1)] log_invD(12) [OF inv(2)] by simp
  then show ?thesis
    using r W log_invD(4) [OF inv(1)] log_invD(4) [OF inv(2)] blk_frameD [OF txD(1) [OF t]] by (auto simp: room_def)
qed

lemma tx_bread:
  assumes inv: "log_inv d s H" and n: "n \<notin> H" "n \<notin> log_area (lstart s)" and H: "H = {} \<or> card H = 1 \<and> room 1 s"
  shows "\<exists>b s'. bread d n s = Inr (b, s') \<and> log_inv d s' (insert n H) \<and> cached s' d n b \<and>
      data (bufs s' b) = view d s n \<and> clean d s' n \<and> tx d H {} s s'"
proof -
  have "card (set (log_home s) \<union> H) \<le> card (set (log_home s)) + card H" by (rule card_Un_le)
  also have "\<dots> < 30"
    using H log_invD(5,12) [OF inv] card_length [of "log_home s"] by (auto simp: room_def)
  finally obtain b s' where r: "bread d n s = Inr (b, s')" "log_inv d s' (insert n H)" "cached s' d n b"
      "data (bufs s' b) = view d s n" "view d s' = view d s" "keeps d s H s'" "bio_only s s'" "disk s' = disk s"
      "dwrites s' = dwrites s"
    using log_bread [OF inv n] by blast
  have "clean d s' n"
    using log_inv_view_clean [OF inv _ n(1)] r(5,8) bio_only_home [OF r(7)] by (auto simp: clean_def)
  with r show ?thesis
    using blk_frame_bio [OF r(7)] bio_only_home [OF r(7)] by (auto simp: tx_def)
qed

lemma tx_set_data:
  assumes "log_inv d s H" and "n \<in> H" "cached s d n b" and "length v = 1024"
  shows "log_inv d (set_data b v s) H" and "view d (set_data b v s) = (view d s)(n := v)"
    and "tx d H {n} s (set_data b v s)"
  using log_set_data [OF assms] blk_frame_bio [of s "set_data b v s"] bio_only_home [of s "set_data b v s"]
  by (auto simp: tx_def)

lemma tx_log_write:
  assumes "log_inv d s H" and "n \<in> H" "cached s d n b" and "room 1 s"
  shows "\<exists>s'. log_write b s = Inr s' \<and> log_inv d s' H \<and> view d s' = view d s \<and> clean d s' n \<and> tx d H {n} s s'"
  using log_write_spec [OF assms(1-3)] assms(4) by (auto simp: room_def tx_def clean_def dest: log_write_frame)

lemma tx_brelse:
  assumes "log_inv d s H" and "n \<in> H" "cached s d n b" and "clean d s n"
  shows "\<exists>s'. brelse b s = Inr s' \<and> log_inv d s' (H - {n}) \<and> tx d (H - {n}) {} s s'"
proof -
  obtain s' where r: "brelse b s = Inr s'" "log_inv d s' (H - {n})" "view d s' = view d s"
      "keeps d s (H - {n}) s'" "bio_only s s'" "disk s' = disk s" "dwrites s' = dwrites s"
    using log_brelse [OF assms(1-3)] assms(4) unfolding clean_def by blast
  then show ?thesis using blk_frame_bio [OF r(5)] bio_only_home [OF r(5)] by (auto simp: tx_def)
qed

section \<open>The interface\<close>

text \<open>\<open>ok s H\<close>: the caller holds the buffers of the blocks \<open>H\<close>; \<open>cont s n\<close> is the
  content of a block as the transaction sees it; \<open>space k s\<close>: \<open>k\<close> more blocks can be
  logged; \<open>fresh s n\<close>: the buffer of \<open>n\<close> may be released; \<open>step H W s s'\<close>: a section
  that writes blocks of \<open>W\<close>.\<close>

locale block_store =
  fixes get_blk :: "u32 \<Rightarrow> 's \<Rightarrow> (nat \<times> 's) res"
    and buf_data :: "'s \<Rightarrow> nat \<Rightarrow> block"
    and set_blk :: "nat \<Rightarrow> block \<Rightarrow> 's \<Rightarrow> 's"
    and log_blk :: "nat \<Rightarrow> 's \<Rightarrow> 's res"
    and rel_blk :: "nat \<Rightarrow> 's \<Rightarrow> 's res"
    and ok :: "'s \<Rightarrow> u32 set \<Rightarrow> bool"
    and held :: "'s \<Rightarrow> u32 \<Rightarrow> nat \<Rightarrow> bool"
    and cont :: "'s \<Rightarrow> u32 \<Rightarrow> block"
    and usable :: "'s \<Rightarrow> u32 \<Rightarrow> bool"
    and space :: "nat \<Rightarrow> 's \<Rightarrow> bool"
    and fresh :: "'s \<Rightarrow> u32 \<Rightarrow> bool"
    and step :: "u32 set \<Rightarrow> u32 set \<Rightarrow> 's \<Rightarrow> 's \<Rightarrow> bool"
  assumes step_refl: "step H W s s"
    and step_trans: "step H W s s' \<Longrightarrow> step H V s' s'' \<Longrightarrow> step H (W \<union> V) s s''"
    and step_mono: "step H W s s' \<Longrightarrow> W \<subseteq> V \<Longrightarrow> G \<subseteq> H \<Longrightarrow> step G V s s'"
    and step_cont: "step H W s s' \<Longrightarrow> n \<notin> W \<Longrightarrow> cont s' n = cont s n"
    and step_held: "step H W s s' \<Longrightarrow> n \<in> H \<Longrightarrow> held s n b \<Longrightarrow> held s' n b"
    and step_usable: "step H W s s' \<Longrightarrow> usable s' = usable s"
    and step_space: "step H W s s' \<Longrightarrow> ok s G \<Longrightarrow> ok s' G' \<Longrightarrow> finite W \<Longrightarrow> card W \<le> j \<Longrightarrow>
      space (j + k) s \<Longrightarrow> space k s'"
    and get_blk: "ok s H \<Longrightarrow> n \<notin> H \<Longrightarrow> usable s n \<Longrightarrow> H = {} \<or> card H = 1 \<and> space 1 s \<Longrightarrow>
      \<exists>b s'. get_blk n s = Inr (b, s') \<and> ok s' (insert n H) \<and> held s' n b \<and> buf_data s' b = cont s n \<and>
        fresh s' n \<and> step H {} s s'"
    and set_blk: "ok s H \<Longrightarrow> n \<in> H \<Longrightarrow> held s n b \<Longrightarrow> length v = 1024 \<Longrightarrow>
      ok (set_blk b v s) H \<and> cont (set_blk b v s) = (cont s)(n := v) \<and> step H {n} s (set_blk b v s) \<and>
        (space k s \<longrightarrow> space k (set_blk b v s))"
    and log_blk: "ok s H \<Longrightarrow> n \<in> H \<Longrightarrow> held s n b \<Longrightarrow> space 1 s \<Longrightarrow>
      \<exists>s'. log_blk b s = Inr s' \<and> ok s' H \<and> cont s' = cont s \<and> fresh s' n \<and> step H {n} s s'"
    and rel_blk: "ok s H \<Longrightarrow> n \<in> H \<Longrightarrow> held s n b \<Longrightarrow> fresh s n \<Longrightarrow>
      \<exists>s'. rel_blk b s = Inr s' \<and> ok s' (H - {n}) \<and> step (H - {n}) {} s s'"
begin

lemma step0_trans: "step H {} s s' \<Longrightarrow> step H V s' s'' \<Longrightarrow> step H V s s''"
  using step_trans [of H "{}" s s' V s''] by simp

lemma step_trans0: "step H W s s' \<Longrightarrow> step H {} s' s'' \<Longrightarrow> step H W s s''"
  using step_trans [of H W s s' "{}" s''] by simp

lemma step_cont0: "step H {} s s' \<Longrightarrow> cont s' = cont s"
  using step_cont [of H "{}" s s'] by auto

text \<open>A block is read and released.\<close>

lemma read_blk:
  assumes "ok s H" and "n \<notin> H" "usable s n" and "H = {} \<or> card H = 1 \<and> space 1 s"
  obtains b s1 s2 where "get_blk n s = Inr (b, s1)" "ok s1 (insert n H)" "buf_data s1 b = cont s n" "step H {} s s1"
    "rel_blk b s1 = Inr s2" "ok s2 H" "step H {} s s2" "cont s2 = cont s"
proof -
  obtain b s1 where g: "get_blk n s = Inr (b, s1)" "ok s1 (insert n H)" "held s1 n b" "buf_data s1 b = cont s n"
      "fresh s1 n" "step H {} s s1"
    using get_blk [OF assms] by blast
  have H: "insert n H - {n} = H" using assms(2) by auto
  obtain s2 where r: "rel_blk b s1 = Inr s2" "ok s2 H" "step H {} s1 s2"
    using rel_blk [OF g(2) insertI1 g(3,5)] unfolding H by blast
  have "step H {} s s2" using step0_trans [OF g(6) r(3)] .
  from that [OF g(1,2,4,6) r(1,2) this] step_cont0 [OF this] show thesis by blast
qed

text \<open>The buffer of a held block is written, logged and released.\<close>

lemma update_held:
  assumes "ok s (insert n H)" "n \<notin> H" "held s n b" and "space 1 s" and v: "length v = 1024"
  obtains s1 s2 where "log_blk b (set_blk b v s) = Inr s1" "rel_blk b s1 = Inr s2" "ok s2 H" "step H {n} s s2"
    "cont s2 = (cont s)(n := v)" "step H {n} s s1"
proof -
  let ?s = "set_blk b v s"
  have sb: "ok ?s (insert n H)" "cont ?s = (cont s)(n := v)" "step (insert n H) {n} s ?s" "space 1 ?s"
    using set_blk [OF assms(1) insertI1 assms(3) v] assms(4) by blast+
  have h: "held ?s n b" using step_held [OF sb(3) insertI1 assms(3)] .
  obtain s1 where l: "log_blk b ?s = Inr s1" "ok s1 (insert n H)" "cont s1 = cont ?s" "fresh s1 n"
      "step (insert n H) {n} ?s s1"
    using log_blk [OF sb(1) insertI1 h sb(4)] by blast
  have H: "insert n H - {n} = H" using assms(2) by auto
  obtain s2 where r: "rel_blk b s1 = Inr s2" "ok s2 H" "step H {} s1 s2"
    using rel_blk [OF l(2) insertI1 step_held [OF l(5) insertI1 h] l(4)] unfolding H by blast
  have "step (insert n H) {n} s s1" using step_trans [OF sb(3) l(5)] by simp
  then have s1: "step H {n} s s1" by (rule step_mono) auto
  show thesis
    using that [OF l(1) r(1,2) step_trans0 [OF s1 r(3)] _ s1] step_cont0 [OF r(3)] l(3) sb(2) by simp
qed

lemma update_blk:
  assumes "ok s H" and n: "n \<notin> H" and "usable s n" and H: "H = {} \<or> card H = 1" and sp: "space 1 s"
    and v: "length v = 1024"
  obtains b s1 s2 s3 where "get_blk n s = Inr (b, s1)" "buf_data s1 b = cont s n" "step H {} s s1"
    "log_blk b (set_blk b v s1) = Inr s2" "rel_blk b s2 = Inr s3" "ok s3 H" "step H {n} s s3"
    "cont s3 = (cont s)(n := v)"
proof -
  obtain b s1 where g: "get_blk n s = Inr (b, s1)" "ok s1 (insert n H)" "held s1 n b" "buf_data s1 b = cont s n"
      "fresh s1 n" "step H {} s s1"
    using get_blk [OF assms(1-3)] H sp by blast
  have "space 1 s1" using step_space [OF g(6) assms(1) g(2), of 0 1] sp by simp
  from update_held [OF g(2) n g(3) this v] obtain s2 s3 where u: "log_blk b (set_blk b v s1) = Inr s2"
      "rel_blk b s2 = Inr s3" "ok s3 H" "step H {n} s1 s3" "cont s3 = (cont s1)(n := v)"
    by blast
  show thesis
    using that [OF g(1,4,6) u(1-3) step0_trans [OF g(6) u(4)]] u(5) step_cont0 [OF g(6)] by simp
qed

text \<open>A search through the blocks \<open>bno s i, bno s (i + 1), ...\<close>: the first block that passes the
  test is updated, then \<open>fin\<close> runs; \<open>e\<close> is the end of a search that finds none.\<close>

primrec scan :: "('s \<Rightarrow> nat \<Rightarrow> u32) \<Rightarrow> ('s \<Rightarrow> nat \<Rightarrow> block \<Rightarrow> 'r option) \<Rightarrow> ('r \<Rightarrow> block \<Rightarrow> block) \<Rightarrow>
    ('r \<Rightarrow> 's \<Rightarrow> 'x res) \<Rightarrow> error \<Rightarrow> nat \<Rightarrow> nat \<Rightarrow> 's \<Rightarrow> 'x res" where
  "scan bno test upd fin e 0 i s = Inl e"
| "scan bno test upd fin e (Suc k) i s =
     bindR (get_blk (bno s i) s) (\<lambda>(b, s1).
     case test s1 i (buf_data s1 b) of
       Some r \<Rightarrow> bindR (log_blk b (set_blk b (upd r (buf_data s1 b)) s1)) (\<lambda>s2. bindR (rel_blk b s2) (fin r))
     | None \<Rightarrow> bindR (rel_blk b s1) (scan bno test upd fin e k (Suc i)))"

lemma scan_none:
  assumes "ok s H" and "H = {} \<or> card H = 1 \<and> space 1 s"
    and "\<And>s'. step H {} s s' \<Longrightarrow> bno s' = bno s \<and> test s' = test s"
    and "\<And>j. i \<le> j \<Longrightarrow> j < i + k \<Longrightarrow> bno s j \<notin> H \<and> usable s (bno s j) \<and> test s j (cont s (bno s j)) = None"
  shows "scan bno test upd fin e k i s = Inl e"
  using assms
proof (induction k arbitrary: i s)
  case (Suc k)
  from Suc.prems(4) [of i] have n: "bno s i \<notin> H" "usable s (bno s i)" by auto
  obtain b s1 s2 where r: "get_blk (bno s i) s = Inr (b, s1)" "buf_data s1 b = cont s (bno s i)" "step H {} s s1"
      "rel_blk b s1 = Inr s2" "ok s2 H" "step H {} s s2" "cont s2 = cont s"
    using read_blk [OF Suc.prems(1) n Suc.prems(2)] by metis
  have sp: "H = {} \<or> card H = 1 \<and> space 1 s2"
    using Suc.prems(2) step_space [OF r(6) Suc.prems(1) r(5), of 0 1] by auto
  have "scan bno test upd fin e k (Suc i) s2 = Inl e"
    using Suc.prems(3) [OF r(6)] Suc.prems(3) [OF step0_trans [OF r(6)]] Suc.prems(4) step_usable [OF r(6)] r(7)
    by (intro Suc.IH [OF r(5) sp]) auto
  then show ?case
    using r Suc.prems(3) [OF r(3)] Suc.prems(4) [of i] by simp
qed simp

lemma disjE_space: "H = {} \<or> card H = 1 \<Longrightarrow> space 1 s \<Longrightarrow> H = {} \<or> card H = 1 \<and> space 1 s"
  by blast

lemma scan_some:
  assumes "ok s H" and "H = {} \<or> card H = 1" and "space 1 s"
    and "\<And>s'. step H {} s s' \<Longrightarrow> bno s' = bno s \<and> test s' = test s"
    and "\<And>j. i \<le> j \<Longrightarrow> j \<le> i + m \<Longrightarrow> bno s j \<notin> H \<and> usable s (bno s j)"
    and "\<And>j. i \<le> j \<Longrightarrow> j < i + m \<Longrightarrow> test s j (cont s (bno s j)) = None"
    and "m < k" and "test s (i + m) (cont s (bno s (i + m))) = Some r"
    and "length (upd r (cont s (bno s (i + m)))) = 1024"
  shows "\<exists>s'. scan bno test upd fin e k i s = fin r s' \<and> ok s' H \<and> step H {bno s (i + m)} s s' \<and>
      cont s' = (cont s)(bno s (i + m) := upd r (cont s (bno s (i + m))))"
  using assms
proof (induction m arbitrary: k i s)
  case 0
  obtain k' where k: "k = Suc k'" using "0.prems"(7) by (cases k) auto
  from "0.prems"(5) [of i] have n: "bno s i \<notin> H" "usable s (bno s i)" by auto
  let ?v = "upd r (cont s (bno s i))"
  have v: "length ?v = 1024" "test s i (cont s (bno s i)) = Some r" using "0.prems"(8,9) by simp_all
  obtain b s1 s2 s3 where u: "get_blk (bno s i) s = Inr (b, s1)" "buf_data s1 b = cont s (bno s i)" "step H {} s s1"
      "log_blk b (set_blk b ?v s1) = Inr s2" "rel_blk b s2 = Inr s3" "ok s3 H"
      "step H {bno s i} s s3" "cont s3 = (cont s)(bno s i := ?v)"
    using update_blk [OF "0.prems"(1) n "0.prems"(2,3) v(1)] by blast
  have "test s1 = test s" using "0.prems"(4) [OF u(3)] by simp
  then show ?case
    using u k v(2) by (intro exI [of _ s3]) simp
next
  case (Suc m)
  obtain k' where k: "k = Suc k'" using Suc.prems(7) by (cases k) auto
  from Suc.prems(5) [of i] have n: "bno s i \<notin> H" "usable s (bno s i)" by auto
  obtain b s1 s2 where r: "get_blk (bno s i) s = Inr (b, s1)" "buf_data s1 b = cont s (bno s i)" "step H {} s s1"
      "rel_blk b s1 = Inr s2" "ok s2 H" "step H {} s s2" "cont s2 = cont s"
    using read_blk [OF Suc.prems(1) n disjE_space [OF Suc.prems(2,3)]] by blast
  have sp: "space 1 s2" using Suc.prems(3) step_space [OF r(6) Suc.prems(1) r(5), of 0 1] by simp
  have b2: "bno s2 = bno s" "test s2 = test s" using Suc.prems(4) [OF r(6)] by auto
  have keep: "bno s' = bno s2 \<and> test s' = test s2" if "step H {} s2 s'" for s'
    using Suc.prems(4) [OF step0_trans [OF r(6) that]] b2 by simp
  have us: "bno s2 j \<notin> H \<and> usable s2 (bno s2 j)" if "Suc i \<le> j" "j \<le> Suc i + m" for j
    using Suc.prems(5) [of j] that unfolding b2 step_usable [OF r(6)] by simp
  have no: "test s2 j (cont s2 (bno s2 j)) = None" if "Suc i \<le> j" "j < Suc i + m" for j
    using Suc.prems(6) [of j] that unfolding b2 r(7) by simp
  have last: "m < k'" "test s2 (Suc i + m) (cont s2 (bno s2 (Suc i + m))) = Some r"
      "length (upd r (cont s2 (bno s2 (Suc i + m)))) = 1024"
    using Suc.prems(7-9) k unfolding b2 r(7) by simp_all
  obtain s' where s': "scan bno test upd fin e k' (Suc i) s2 = fin r s'" "ok s' H" "step H {bno s (i + Suc m)} s2 s'"
      "cont s' = (cont s)(bno s (i + Suc m) := upd r (cont s (bno s (i + Suc m))))"
    using Suc.IH [OF r(5) Suc.prems(2) sp keep us no last] unfolding b2 r(7) add_Suc_shift by blast
  have "test s1 = test s" using Suc.prems(4) [OF r(3)] by simp
  moreover have "test s i (cont s (bno s i)) = None" using Suc.prems(6) [of i] by simp
  ultimately have "test s1 i (buf_data s1 b) = None" using r(2) by simp
  then show ?case
    using s' r(1,4) k step0_trans [OF r(6) s'(3)] by (intro exI [of _ s']) simp
qed

end

interpretation fslog: block_store "bread d" "\<lambda>s b. data (bufs s b)" set_data log_write brelse "log_inv d"
    "\<lambda>s n b. cached s d n b" "view d" "\<lambda>s n. n \<notin> log_area (lstart s)" room "clean d" "tx d"
  for d
proof unfold_locales
  show "tx d H W s s' \<Longrightarrow> (\<lambda>n. n \<notin> log_area (lstart s')) = (\<lambda>n. n \<notin> log_area (lstart s))" for H W s s'
    by (drule txD(1), drule blk_frameD(1)) simp
  show "log_inv d (set_data b v s) H \<and> view d (set_data b v s) = (view d s)(n := v) \<and> tx d H {n} s (set_data b v s) \<and>
        (room k s \<longrightarrow> room k (set_data b v s))"
    if "log_inv d s H" "n \<in> H" "cached s d n b" "length v = 1024" for s H n b v k
    using tx_set_data [OF that] by (simp add: room_def set_data_def upd_buf_def)
qed (fact tx_refl tx_trans tx_mono txD tx_room tx_bread tx_log_write tx_brelse)+

end
