(* ===== verification/BlockAlloc.thy ===== *)
theory BlockAlloc
  imports BlockTx
begin

text \<open>
  The block allocator of \<open>kernel/fs.c\<close>: \<open>balloc\<close> returns a block that was free, marks it
  used and zeroes it; \<open>bfree\<close> marks it free.
\<close>

section \<open>Bits of a bitmap block\<close>

lemma bit_mask_exp: "bit_mask bi = 2 ^ (bi mod 8)"
  by (simp add: bit_mask_def push_bit_eq_mult)

lemma bit_set_bit: "bit_set bi bs \<longleftrightarrow> bit (bs ! (bi div 8)) (bi mod 8)"
  by (simp add: bit_set_def bit_mask_exp and_exp_eq_0_iff_not_bit)

lemma length_mark [simp]: "length (mark_used bi bs) = length bs" "length (mark_free bi bs) = length bs"
  by (simp_all add: mark_used_def mark_free_def)

lemma same_bit: "i div 8 = j div 8 \<Longrightarrow> i mod 8 = j mod 8 \<longleftrightarrow> i = (j :: nat)"
  by (metis div_mult_mod_eq)

lemma bit_set_mark_used:
  assumes "i < 8 * length bs" and "j < 8 * length bs"
  shows "bit_set i (mark_used j bs) \<longleftrightarrow> i = j \<or> bit_set i bs"
  using assms same_bit [of i j]
  by (auto simp: bit_set_bit mark_used_def bit_mask_exp nth_list_update bit_or_iff bit_exp_iff)

lemma bit_set_mark_free:
  assumes "i < 8 * length bs" and "j < 8 * length bs"
  shows "bit_set i (mark_free j bs) \<longleftrightarrow> i \<noteq> j \<and> bit_set i bs"
  using assms same_bit [of i j]
  by (auto simp: bit_set_bit mark_free_def bit_mask_exp nth_list_update bit_and_iff bit_not_iff bit_exp_iff)

lemma find_free_bit_None: "find_free_bit bi k bs = None \<longleftrightarrow> (\<forall>j. bi \<le> j \<and> j < bi + k \<longrightarrow> bit_set j bs)"
proof (induction k arbitrary: bi)
  case (Suc k)
  have "(\<forall>j. bi \<le> j \<and> j < bi + Suc k \<longrightarrow> bit_set j bs) \<longleftrightarrow>
      bit_set bi bs \<and> (\<forall>j. Suc bi \<le> j \<and> j < Suc bi + k \<longrightarrow> bit_set j bs)"
    by auto (metis Suc_leI le_neq_implies_less)
  then show ?case using Suc by simp
qed auto

lemma find_free_bit_SomeD:
  "find_free_bit bi k bs = Some r \<Longrightarrow>
   bi \<le> r \<and> r < bi + k \<and> \<not> bit_set r bs \<and> (\<forall>j. bi \<le> j \<and> j < r \<longrightarrow> bit_set j bs)"
proof (induction k arbitrary: bi)
  case (Suc k)
  show ?case
  proof (cases "bit_set bi bs")
    case True
    then have r: "Suc bi \<le> r" "r < Suc bi + k" "\<not> bit_set r bs" "\<forall>j. Suc bi \<le> j \<and> j < r \<longrightarrow> bit_set j bs"
      using Suc.IH [of "Suc bi"] Suc.prems by auto
    have "bit_set j bs" if "bi \<le> j" "j < r" for j
      using that True r(4) by (cases "j = bi") auto
    with r show ?thesis by simp
  qed (use Suc.prems in auto)
qed simp

section \<open>The bitmap\<close>

definition bused :: "u32 \<Rightarrow> 'z fs_scheme \<Rightarrow> u32 \<Rightarrow> bool" where
  "bused d s a \<longleftrightarrow> bit_set (unat a mod 8192) (view d s (BBLOCK a (sb s)))"

text \<open>What the allocator relies on: the log and the bitmap itself are marked used, and the bitmap
  is not in the log.\<close>

definition bitmap_ok :: "u32 \<Rightarrow> 'z fs_scheme \<Rightarrow> bool" where
  "bitmap_ok d s \<longleftrightarrow> (\<forall>b < sb_size (sb s). BBLOCK b (sb s) \<notin> log_area (lstart s) \<and> (b \<in> log_area (lstart s) \<longrightarrow> bused d s b) \<and>
     (BBLOCK b (sb s) < sb_size (sb s) \<longrightarrow> bused d s (BBLOCK b (sb s))))"

lemma BBLOCK_of_nat:
  assumes "n < 2 ^ 32"
  shows "BBLOCK (of_nat n) x = of_nat (n div 8192) + sb_bmapstart x"
proof -
  have "unat (of_nat n div 8192 :: u32) = n div 8192"
    using assms by (simp add: unat_div_distrib unat_of_nat_le)
  then have "(of_nat n div 8192 :: u32) = of_nat (n div 8192)" by (metis of_nat_unat ucast_id)
  then show ?thesis by (simp add: BBLOCK_def)
qed

lemma BBLOCK_unat: "BBLOCK a x = of_nat (unat a div 8192) + sb_bmapstart x"
  using BBLOCK_of_nat [of "unat a"] unat_u32_lt [of a] by simp

lemma BBLOCK_eq: "BBLOCK a x = BBLOCK b x \<longleftrightarrow> unat a div 8192 = unat b div 8192"
proof -
  have "unat a div 8192 < 2 ^ 32" "unat b div 8192 < 2 ^ 32" using unat_u32_lt [of a] unat_u32_lt [of b] by auto
  then show ?thesis using of_nat_u32_inj [of "unat a div 8192" "unat b div 8192"] by (auto simp: BBLOCK_unat)
qed

lemma balloc_loop_scan:
  "balloc_loop (8192 * i) k d s =
     fslog.scan d (\<lambda>s i. BBLOCK (of_nat (8192 * i)) (sb s))
       (\<lambda>s i bs. map_option (Pair (8192 * i)) (find_free_bit 0 (min 8192 (unat (sb_size (sb s)) - 8192 * i)) bs))
       (\<lambda>(b, bi). mark_used bi)
       (\<lambda>(b, bi) s. bindR (bzero d (of_nat (b + bi)) s) (\<lambda>s'. Inr (of_nat (b + bi), s')))
       (Panic ''balloc: out of blocks'') k i s"
proof (induction k arbitrary: i s)
  case (Suc k)
  have "8192 * i + 8192 = 8192 * Suc i" by simp
  note IH = Suc.IH [of "Suc i", folded this]
  show ?case
    by (auto simp: IH intro!: bindR_cong split: option.splits simp del: of_nat_add of_nat_mult of_nat_Suc mult_Suc_right)
qed simp

section \<open>Allocation\<close>

lemma bzero_spec:
  assumes "log_inv d s H" and "n \<notin> H" "n \<notin> log_area (lstart s)" and "H = {} \<or> card H = 1" and "room 1 s"
  obtains s' where "bzero d n s = Inr s'" "log_inv d s' H" "tx d H {n} s s'"
    "view d s' = (view d s)(n := replicate 1024 0)"
  by (rule fslog.update_blk [OF assms, of "replicate 1024 0"]) (auto simp: bzero_def)

lemma bused_of_nat:
  assumes "bi < 8192" and "8192 * j + bi < 2 ^ 32"
  shows "bused d s (of_nat (8192 * j + bi)) \<longleftrightarrow> bit_set bi (view d s (BBLOCK (of_nat (8192 * j)) (sb s)))"
proof -
  have "unat (of_nat (8192 * j + bi) :: u32) = 8192 * j + bi" using assms(2) by (intro unat_of_nat_le) simp
  moreover have "BBLOCK (of_nat (8192 * j + bi)) (sb s) = BBLOCK (of_nat (8192 * j)) (sb s)"
    using assms by (subst (1 2) BBLOCK_of_nat) simp_all
  ultimately show ?thesis using assms(1) by (simp add: bused_def)
qed

text \<open>The block the search finds: the first one in the order of block numbers.\<close>

lemma first_free:
  assumes "f < sb_size (sb s)" and "\<not> bused d s f"
  obtains a where "a < sb_size (sb s)" "\<not> bused d s a" "\<And>b. b < a \<Longrightarrow> bused d s b"
proof -
  define P where "P n \<longleftrightarrow> \<not> bused d s (of_nat n)" for n
  define m where "m = (LEAST n. P n)"
  have "P (unat f)" using assms(2) by (simp add: P_def)
  then have m: "P m" "m \<le> unat f" "\<And>n. n < m \<Longrightarrow> \<not> P n"
    unfolding m_def by (auto intro: LeastI Least_le dest: not_less_Least)
  have u: "unat (of_nat m :: u32) = m" using m(2) unat_u32_lt [of f] by (intro unat_of_nat_le) simp
  show thesis
  proof (rule that [of "of_nat m"])
    show "of_nat m < sb_size (sb s)" using m(2) assms(1) u by (simp add: word_less_nat_alt)
    show "\<not> bused d s (of_nat m)" using m(1) by (simp add: P_def)
    show "bused d s b" if "b < of_nat m" for b
      using m(3) [of "unat b"] that u by (simp add: P_def word_less_nat_alt)
  qed
qed

lemma find_free_first:
  assumes a: "a < sb_size (sb s)" "\<not> bused d s a" "\<And>b. b < a \<Longrightarrow> bused d s b"
  defines "lim \<equiv> \<lambda>j. min 8192 (unat (sb_size (sb s)) - 8192 * j)"
    and "blkj \<equiv> \<lambda>j. view d s (BBLOCK (of_nat (8192 * j)) (sb s))"
  shows "j < unat a div 8192 \<Longrightarrow> find_free_bit 0 (lim j) (blkj j) = None"
    and "find_free_bit 0 (lim (unat a div 8192)) (blkj (unat a div 8192)) = Some (unat a mod 8192)"
proof -
  have used: "bit_set bi (blkj j)" if "bi < 8192" "8192 * j + bi < unat a" for j bi
  proof -
    have "of_nat (8192 * j + bi) < a"
      using that(2) unat_u32_lt [of a] unat_of_nat_le [of "8192 * j + bi", where 'a = 32] by (simp add: word_less_nat_alt)
    from a(3) [OF this] show ?thesis
      using that unat_u32_lt [of a] bused_of_nat [of bi j d s] unfolding blkj_def by simp
  qed
  show "find_free_bit 0 (lim j) (blkj j) = None" if "j < unat a div 8192"
    unfolding find_free_bit_None
  proof (intro allI impI)
    fix bi assume bi: "0 \<le> bi \<and> bi < 0 + lim j"
    have "8192 * j + 8192 \<le> unat a" using that by linarith
    with bi show "bit_set bi (blkj j)" by (intro used) (simp_all add: lim_def)
  qed
  let ?m = "unat a div 8192" and ?r = "unat a mod 8192"
  have am: "8192 * ?m + ?r = unat a" by simp
  have r: "\<not> bit_set ?r (blkj ?m)"
    using a(2) bused_of_nat [of ?r ?m d s] unat_u32_lt [of a] unfolding am blkj_def by simp
  have lim: "?r < lim ?m" using a(1) unfolding lim_def word_less_nat_alt min_less_iff_conj using am by (metis less_diff_conv add.commute mod_less_divisor zero_less_numeral)
  show "find_free_bit 0 (lim ?m) (blkj ?m) = Some ?r"
  proof (cases "find_free_bit 0 (lim ?m) (blkj ?m)")
    case None
    then show ?thesis using r lim by (simp add: find_free_bit_None)
  next
    case (Some q)
    note q = find_free_bit_SomeD [OF Some]
    have "\<not> q < ?r"
    proof
      assume "q < ?r"
      then have "8192 * ?m + q < unat a" "q < 8192" using am by linarith+
      with used q show False by blast
    qed
    moreover have "\<not> ?r < q" using q r by auto
    ultimately show ?thesis using Some by simp
  qed
qed

lemma balloc_spec:
  assumes inv: "log_inv d s H" and H: "H = {} \<or> card H = 1" "\<And>h b. h \<in> H \<Longrightarrow> b < sb_size (sb s) \<Longrightarrow> h \<noteq> BBLOCK b (sb s)"
      "\<And>h. h \<in> H \<Longrightarrow> bused d s h"
    and bm: "bitmap_ok d s" and rm: "room 2 s" and f: "f < sb_size (sb s)" "\<not> bused d s f"
  obtains a s' where "balloc d s = Inr (a, s')" "log_inv d s' H" "tx d H {BBLOCK a (sb s), a} s s'"
    "a < sb_size (sb s)" "\<not> bused d s a"
    "view d s' = (view d s)(BBLOCK a (sb s) := mark_used (unat a mod 8192) (view d s (BBLOCK a (sb s))),
      a := replicate 1024 0)"
proof -
  obtain a where a: "a < sb_size (sb s)" "\<not> bused d s a" "\<And>b. b < a \<Longrightarrow> bused d s b"
    using first_free [OF f] by blast
  let ?bno = "\<lambda>s i. BBLOCK (of_nat (8192 * i)) (sb s)" and ?e = "Panic ''balloc: out of blocks''"
  let ?test = "\<lambda>s i bs. map_option (Pair (8192 * i)) (find_free_bit 0 (min 8192 (unat (sb_size (sb s)) - 8192 * i)) bs)"
  let ?upd = "\<lambda>(b, bi). mark_used bi" and ?k = "(unat (sb_size (sb s)) + 8191) div 8192"
  let ?fin = "\<lambda>(b, bi) s. bindR (bzero d (of_nat (b + bi)) s) (\<lambda>s'. Inr (of_nat (b + bi), s'))"
  let ?m = "unat a div 8192"
  have am: "8192 * ?m + unat a mod 8192 = unat a" by simp
  have lt: "8192 * j < 2 ^ 32" "of_nat (8192 * j) < sb_size (sb s)" if "j \<le> ?m" for j
  proof -
    have "8192 * j \<le> unat a" using that by linarith
    then show "8192 * j < 2 ^ 32" using unat_u32_lt [of a] by simp
    with \<open>8192 * j \<le> unat a\<close> a(1) show "of_nat (8192 * j) < sb_size (sb s)"
      using unat_of_nat_le [of "8192 * j", where 'a = 32] by (simp add: word_less_nat_alt)
  qed
  have bb: "?bno s ?m = BBLOCK a (sb s)"
    unfolding BBLOCK_of_nat [OF lt(1) [OF order_refl]] BBLOCK_unat [of a] by simp
  have "\<exists>s1. fslog.scan d ?bno ?test ?upd ?fin ?e ?k 0 s = ?fin (8192 * ?m, unat a mod 8192) s1 \<and> log_inv d s1 H \<and>
      tx d H {?bno s (0 + ?m)} s s1 \<and>
      view d s1 = (view d s)(?bno s (0 + ?m) := ?upd (8192 * ?m, unat a mod 8192) (view d s (?bno s (0 + ?m))))"
  proof (rule fslog.scan_some [OF inv H(1)])
    show "room 1 s" using room_mono [OF rm] by simp
    show "?bno s' = ?bno s \<and> ?test s' = ?test s" if "tx d H {} s s'" for s'
      using blk_frameD(4) [OF txD(1) [OF that]] by simp
    show "?bno s j \<notin> H \<and> ?bno s j \<notin> log_area (lstart s)" if "0 \<le> j" "j \<le> 0 + ?m" for j
      using lt(2) [of j] that H(2) bm unfolding bitmap_ok_def by auto
    show "?test s j (view d s (?bno s j)) = None" if "0 \<le> j" "j < 0 + ?m" for j
      using find_free_first(1) [OF a, of j] that by simp
    show "?m < ?k" using a(1) unfolding word_less_nat_alt by linarith
    show "?test s (0 + ?m) (view d s (?bno s (0 + ?m))) = Some (8192 * ?m, unat a mod 8192)"
      using find_free_first(2) [OF a] by simp
    show "length (?upd (8192 * ?m, unat a mod 8192) (view d s (?bno s (0 + ?m)))) = 1024"
      using log_invD(14) [OF inv] by simp
  qed
  then obtain s1 where s1: "balloc d s = ?fin (8192 * ?m, unat a mod 8192) s1" "log_inv d s1 H" "tx d H {BBLOCK a (sb s)} s s1"
      "view d s1 = (view d s)(BBLOCK a (sb s) := mark_used (unat a mod 8192) (view d s (BBLOCK a (sb s))))"
    unfolding add_0 bb balloc_def using balloc_loop_scan [of 0 ?k d s] by auto
  have "a \<notin> H" using H(3) a(2) by blast
  moreover have "a \<notin> log_area (lstart s1)"
    using a(1,2) bm blk_frameD(1) [OF txD(1) [OF s1(3)]] unfolding bitmap_ok_def by auto
  moreover have "room 1 s1" using tx_room [OF s1(3) inv s1(2), of 1 1] rm by (simp add: numeral_2_eq_2)
  ultimately obtain s' where s': "bzero d a s1 = Inr s'" "log_inv d s' H" "tx d H {a} s1 s'"
      "view d s' = (view d s1)(a := replicate 1024 0)"
    using bzero_spec [OF s1(2) _ _ H(1)] by blast
  have "balloc d s = Inr (a, s')" using s1(1) s'(1) unfolding prod.case am by simp
  moreover have "tx d H {BBLOCK a (sb s), a} s s'" using tx_trans [OF s1(3) s'(3)] by (simp add: insert_commute)
  ultimately show thesis using that [OF _ s'(2) _ a(1,2)] s'(4) s1(4) by simp
qed

lemma balloc_full:
  assumes inv: "log_inv d s {}" and bm: "bitmap_ok d s" and full: "\<And>b. b < sb_size (sb s) \<Longrightarrow> bused d s b"
  shows "balloc d s = Inl (Panic ''balloc: out of blocks'')"
proof -
  let ?k = "(unat (sb_size (sb s)) + 8191) div 8192"
  have "fslog.scan d (\<lambda>s i. BBLOCK (of_nat (8192 * i)) (sb s))
       (\<lambda>s i bs. map_option (Pair (8192 * i)) (find_free_bit 0 (min 8192 (unat (sb_size (sb s)) - 8192 * i)) bs))
       (\<lambda>(b, bi). mark_used bi)
       (\<lambda>(b, bi) s. bindR (bzero d (of_nat (b + bi)) s) (\<lambda>s'. Inr (of_nat (b + bi), s')))
       (Panic ''balloc: out of blocks'') ?k 0 s = Inl (Panic ''balloc: out of blocks'')" (is "fslog.scan d ?bno ?test ?upd ?fin ?e ?k 0 s = _")
  proof (rule fslog.scan_none [OF inv])
    show "?bno s' = ?bno s \<and> ?test s' = ?test s" if "tx d {} {} s s'" for s'
      using blk_frameD(4) [OF txD(1) [OF that]] by simp
    fix j assume j: "0 \<le> j" "j < 0 + ?k"
    have l: "unat (of_nat (8192 * j + i) :: u32) = 8192 * j + i" "of_nat (8192 * j + i) < sb_size (sb s)"
      if "8192 * j + i < unat (sb_size (sb s))" for i
    proof -
      show u: "unat (of_nat (8192 * j + i) :: u32) = 8192 * j + i"
        using that unat_u32_lt [of "sb_size (sb s)"] by (intro unat_of_nat_le) simp
      show "of_nat (8192 * j + i) < sb_size (sb s)" unfolding word_less_nat_alt u by (rule that)
    qed
    have j0: "8192 * j + 0 < unat (sb_size (sb s))" using j(2) by linarith
    have "bit_set bi (view d s (?bno s j))" if "bi < min 8192 (unat (sb_size (sb s)) - 8192 * j)" for bi
    proof -
      have bi: "bi < 8192" "8192 * j + bi < unat (sb_size (sb s))" using that by auto
      then have "8192 * j + bi < 2 ^ 32" using unat_u32_lt [of "sb_size (sb s)"] by simp
      with full [OF l(2) [OF bi(2)]] bused_of_nat [OF bi(1)] show ?thesis by blast
    qed
    then have "?test s j (view d s (?bno s j)) = None" by (simp add: find_free_bit_None)
    with l(2) [OF j0] bm show "?bno s j \<notin> {} \<and> ?bno s j \<notin> log_area (lstart s) \<and> ?test s j (view d s (?bno s j)) = None"
      unfolding bitmap_ok_def by simp
  qed simp
  then show ?thesis unfolding balloc_def using balloc_loop_scan [of 0 ?k d s] by simp
qed

lemma bused_update:
  assumes len: "\<And>n. length (view d s n) = 1024" and sb: "sb s' = sb s"
    and v: "view d s' (BBLOCK b (sb s)) = (if BBLOCK b (sb s) = BBLOCK a (sb s) then g (view d s (BBLOCK a (sb s)))
        else view d s (BBLOCK b (sb s)))"
  shows "g = mark_used (unat a mod 8192) \<Longrightarrow> bused d s' b \<longleftrightarrow> b = a \<or> bused d s b"
    and "g = mark_free (unat a mod 8192) \<Longrightarrow> bused d s' b \<longleftrightarrow> b \<noteq> a \<and> bused d s b"
proof -
  have same: "b = a \<longleftrightarrow> BBLOCK b (sb s) = BBLOCK a (sb s) \<and> unat b mod 8192 = unat a mod 8192"
    unfolding BBLOCK_eq by (metis div_mult_mod_eq unsigned_word_eqI)
  show "bused d s' b \<longleftrightarrow> b = a \<or> bused d s b" if "g = mark_used (unat a mod 8192)"
    using v that same by (auto simp: bused_def sb len bit_set_mark_used)
  show "bused d s' b \<longleftrightarrow> b \<noteq> a \<and> bused d s b" if "g = mark_free (unat a mod 8192)"
    using v that same by (auto simp: bused_def sb len bit_set_mark_free)
qed

lemma balloc_bitmap:
  assumes len: "\<And>n. length (view d s n) = 1024" and bm: "bitmap_ok d s" and a: "a < sb_size (sb s)" "\<not> bused d s a"
    and sb: "sb s' = sb s" "lstart s' = lstart s"
    and v: "view d s' = (view d s)(BBLOCK a (sb s) := mark_used (unat a mod 8192) (view d s (BBLOCK a (sb s))),
      a := replicate 1024 0)"
  shows "\<And>b. b < sb_size (sb s) \<Longrightarrow> bused d s' b \<longleftrightarrow> b = a \<or> bused d s b" and "bitmap_ok d s'"
    and "\<And>b. b < sb_size (sb s) \<Longrightarrow> a \<noteq> BBLOCK b (sb s)"
proof -
  show na: "a \<noteq> BBLOCK b (sb s)" if "b < sb_size (sb s)" for b
    using that a bm unfolding bitmap_ok_def by blast
  show u: "bused d s' b \<longleftrightarrow> b = a \<or> bused d s b" if "b < sb_size (sb s)" for b
    using bused_update(1) [OF len sb(1) _ refl, of b a] na [OF that] unfolding v by simp
  show "bitmap_ok d s'" unfolding bitmap_ok_def sb
  proof (intro allI impI)
    fix b assume b: "b < sb_size (sb s)"
    have "BBLOCK b (sb s) \<notin> log_area (lstart s)" "b \<in> log_area (lstart s) \<Longrightarrow> bused d s b"
      "BBLOCK b (sb s) < sb_size (sb s) \<Longrightarrow> bused d s (BBLOCK b (sb s))"
      using bm b unfolding bitmap_ok_def by blast+
    with u [OF b] u [of "BBLOCK b (sb s)"]
    show "BBLOCK b (sb s) \<notin> log_area (lstart s) \<and> (b \<in> log_area (lstart s) \<longrightarrow> bused d s' b) \<and>
        (BBLOCK b (sb s) < sb_size (sb s) \<longrightarrow> bused d s' (BBLOCK b (sb s)))"
      by blast
  qed
qed

lemma bfree_spec:
  assumes inv: "log_inv d s H" and H: "H = {} \<or> card H = 1" "BBLOCK b (sb s) \<notin> H" and bm: "bitmap_ok d s"
    and rm: "room 1 s" and b: "b < sb_size (sb s)" "bused d s b"
  obtains s' where "bfree d b s = Inr s'" "log_inv d s' H" "tx d H {BBLOCK b (sb s)} s s'"
    "view d s' = (view d s)(BBLOCK b (sb s) := mark_free (unat b mod 8192) (view d s (BBLOCK b (sb s))))"
proof (rule fslog.update_blk [OF inv H(2) _ H(1) rm, of "mark_free (unat b mod 8192) (view d s (BBLOCK b (sb s)))"])
  show "BBLOCK b (sb s) \<notin> log_area (lstart s)" using bm b unfolding bitmap_ok_def by blast
  show "length (mark_free (unat b mod 8192) (view d s (BBLOCK b (sb s)))) = 1024" using log_invD(14) [OF inv] by simp
qed (use b(2) in \<open>auto simp: bfree_def bused_def Let_def intro: that\<close>)

section \<open>A small file system\<close>

text \<open>The layout \<open>mkfs\<close> makes for 1000 blocks, with the blocks up to 71 in use: a directory with
  three entries in block 48 and a file of 1500 bytes in blocks 46 and 47. Both inodes are cached.\<close>

definition ex_entry :: "u16 \<Rightarrow> byte list \<Rightarrow> byte list" where
  "ex_entry n name = dirent_bytes \<lparr>de_inum = n, de_name = name @ replicate (14 - length name) 0\<rparr>"

definition ex_dir :: "byte list" where
  "ex_dir = ex_entry 1 [46] @ ex_entry 1 [46, 46] @ ex_entry 5 [102]"

definition ex_disk :: "u32 \<Rightarrow> block" where
  "ex_disk n = (if n = 45 then replicate 9 255 @ replicate 1015 0
     else if n = 48 then ex_dir @ replicate 976 0
     else if n = 46 then replicate 1024 7 else replicate 1024 0)"

definition ex_inode :: "u32 \<Rightarrow> int \<Rightarrow> u16 \<Rightarrow> u32 \<Rightarrow> u32 list \<Rightarrow> inode" where
  "ex_inode n r t z as = \<lparr>i_dev = 1, i_inum = n, i_ref = r, i_lock = initsleeplock, i_valid = r > 0, i_type = t, i_major = 0,
     i_minor = 0, i_nlink = 1, i_size = z, i_addrs = as @ replicate (13 - length as) 0\<rparr>"

definition ex_fs0 :: fs where
  "ex_fs0 = \<lparr>pmem = (\<lambda>_. 0), freelist = 0, kend = 0, kernel_pagetable = 0, etext = 0, trampoline = 0, satp = 0,
     mypid = 1, mypagetable = 0, bufs = (\<lambda>_. zero_buf), disk = ex_disk, dwrites = [],
     lstart = 2, lsize = 30, outstanding = 1, committing = False, ldev = 1, lh_n = 0, lh_block = replicate 30 0,
     sb = \<lparr>sb_magic = FSMAGIC, sb_size = 1000, sb_nblocks = 954, sb_ninodes = 200, sb_nlog = 30, sb_logstart = 2,
       sb_inodestart = 32, sb_bmapstart = 45\<rparr>,
     icache = [ex_inode 1 1 T_DIR 48 [48], ex_inode 5 1 T_FILE 1500 [46, 47]] @ replicate 48 (ex_inode 0 0 0 0 []),
     cwd = 0, de_addr = 4096\<rparr>"

definition ex_fs :: fs where
  "ex_fs = binit ex_fs0"

lemma binit_fs_fields:
  "sb (binit s) = sb s" "icache (binit s) = icache s" "de_addr (binit s) = de_addr s" "pmem (binit s) = pmem s"
  "cwd (binit s) = cwd s"
  by (simp_all add: binit_def)

lemma ex_fs_fields [simp]:
  "lstart ex_fs = 2" "lsize ex_fs = 30" "outstanding ex_fs = 1" "lh_n ex_fs = 0" "sb ex_fs = sb ex_fs0" "mypid ex_fs = 1"
  "icache ex_fs = icache ex_fs0" "de_addr ex_fs = 4096" "pmem ex_fs = (\<lambda>_. 0)" "log_home ex_fs = []" "committing ex_fs = False"
  by (simp_all add: ex_fs_def ex_fs0_def binit_log_fields binit_fs_fields binit_fields log_home_def)

lemma length_ex_disk [simp]: "length (ex_disk n) = 1024"
  by (simp add: ex_disk_def ex_dir_def ex_entry_def)

lemma ex_fs_view [simp]: "view 1 ex_fs = ex_disk"
  using binit_bc(2) [of ex_fs0 1] by (simp add: ex_fs_def ex_fs0_def zero_buf_def)

lemma ex_fs_inv: "log_inv 1 ex_fs {}"
proof -
  have z: "\<And>b. b < 30 \<Longrightarrow> refcnt (bufs ex_fs0 b) = 0 \<and> dev (bufs ex_fs0 b) \<noteq> 1" by (simp add: ex_fs0_def zero_buf_def)
  note b = binit_bc [OF z]
  have "get32 0 (ex_disk 2) = 0" by (simp add: ex_disk_def get32_zeros)
  then show ?thesis
    using b by (simp add: log_inv_def ex_fs_def ex_fs0_def binit_log_fields binit_fields log_home_def)
qed

lemma ex_fs_room: "k \<le> 29 \<Longrightarrow> room k ex_fs"
  by (simp add: room_def)

lemma log_area_2: "a \<in> log_area 2 \<Longrightarrow> unat a < 32"
proof -
  assume "a \<in> log_area 2"
  then consider "a = 2" | j where "a = 2 + of_nat j + 1" "j < 29" by (auto simp: log_area_def set_log_slots)
  then show ?thesis
  proof cases
    case 2
    then have "a = of_nat (j + 3)" by simp
    then have "unat a = j + 3" using 2(2) unat_of_nat_le [of "j + 3", where 'a = 32] by (simp only:) simp
    with 2 show ?thesis by simp
  qed simp
qed

lemma ex_fs_BBLOCK: "unat b < 8192 \<Longrightarrow> BBLOCK b (sb ex_fs) = 45"
  unfolding BBLOCK_unat by (simp add: ex_fs0_def)

lemma ex_fs_bused: "unat b < 8192 \<Longrightarrow> bused 1 ex_fs b \<longleftrightarrow> unat b < 72"
proof -
  assume b: "unat b < 8192"
  have "bit (255 :: byte) (unat b mod 8)"
    using bit_mask_iff [where 'a = byte, of 8 "unat b mod 8"] by (simp add: mask_eq_exp_minus_1 bit_iff_odd)
  then show ?thesis
    using b ex_fs_BBLOCK [OF b] by (auto simp: bused_def bit_set_bit ex_disk_def nth_append)
qed

lemma ex_fs_bitmap: "bitmap_ok 1 ex_fs"
  unfolding bitmap_ok_def
proof (intro allI impI)
  fix b assume "b < sb_size (sb ex_fs)"
  then have b: "unat b < 8192" by (simp add: ex_fs0_def word_less_nat_alt)
  show "BBLOCK b (sb ex_fs) \<notin> log_area (lstart ex_fs) \<and> (b \<in> log_area (lstart ex_fs) \<longrightarrow> bused 1 ex_fs b) \<and>
      (BBLOCK b (sb ex_fs) < sb_size (sb ex_fs) \<longrightarrow> bused 1 ex_fs (BBLOCK b (sb ex_fs)))"
    using log_area_2 [of 45] log_area_2 [of b] ex_fs_bused [OF b] ex_fs_bused [of 45] ex_fs_BBLOCK [OF b] by auto
qed

section \<open>Properties\<close>

text \<open>Property C12. \<open>balloc\<close> inside a transaction with room for two blocks. While the bitmap
  has a free block, it returns one that was free, marks exactly this block used, leaves it zeroed and
  changes no other block outside the bitmap; when every block is in use it panics.\<close>

theorem balloc_correct:
  assumes "log_inv d s {}" and "bitmap_ok d s" and "room 2 s"
  shows "if \<exists>b < sb_size (sb s). \<not> bused d s b
    then \<exists>a s'. balloc d s = Inr (a, s') \<and> a < sb_size (sb s) \<and> \<not> bused d s a \<and>
      (\<forall>b < sb_size (sb s). bused d s' b \<longleftrightarrow> b = a \<or> bused d s b) \<and> view d s' a = replicate 1024 0 \<and>
      (\<forall>n. n \<noteq> a \<and> n \<noteq> BBLOCK a (sb s) \<longrightarrow> view d s' n = view d s n) \<and> log_inv d s' {} \<and> bitmap_ok d s' \<and>
      icache s' = icache s
    else balloc d s = Inl (Panic ''balloc: out of blocks'')"
proof (cases "\<exists>b < sb_size (sb s). \<not> bused d s b")
  case True
  then obtain f where f: "f < sb_size (sb s)" "\<not> bused d s f" by blast
  obtain a s' where r: "balloc d s = Inr (a, s')" "log_inv d s' {}" "tx d {} {BBLOCK a (sb s), a} s s'"
      "a < sb_size (sb s)" "\<not> bused d s a"
      "view d s' = (view d s)(BBLOCK a (sb s) := mark_used (unat a mod 8192) (view d s (BBLOCK a (sb s))),
        a := replicate 1024 0)"
    using balloc_spec [OF assms(1) _ _ _ assms(2,3) f] by blast
  note fr = blk_frameD [OF txD(1) [OF r(3)]]
  note bm = balloc_bitmap [OF log_invD(14) [OF assms(1)] assms(2) r(4,5) fr(4,1) r(6)]
  show ?thesis using True r bm fr(5) by auto
next
  case False
  then show ?thesis using balloc_full [OF assms(1,2)] by auto
qed

theorem balloc_correct_witness:
  "\<exists>a s'. balloc 1 ex_fs = Inr (a, s') \<and> \<not> bused 1 ex_fs a \<and> bused 1 s' a \<and> view 1 s' a = replicate 1024 0"
proof -
  have "\<exists>b < sb_size (sb ex_fs). \<not> bused 1 ex_fs b"
    using ex_fs_bused [of 500] by (intro exI [of _ 500]) (simp add: ex_fs0_def)
  then show ?thesis
    using balloc_correct [OF ex_fs_inv ex_fs_bitmap ex_fs_room] by auto
qed

end
