(* ===== verification/BlockMap.thy ===== *)
theory BlockMap
  imports BlockAlloc
begin

text \<open>
  The blocks of a file: \<open>bmap\<close> of \<open>kernel/fs.c\<close>, which allocates blocks and enters them in
  the inode or in its indirect block.

  \<open>imap x V bn\<close> is the block that holds block \<open>bn\<close> of the file with inode \<open>x\<close> when the
  blocks of the disk are \<open>V\<close>, or 0, and \<open>fbyte\<close> the byte at an offset. \<open>iwf\<close> is the
  invariant of an inode: its blocks are allocated, are no metadata, and no block is used twice.
\<close>

section \<open>The block map of an inode\<close>

definition imap :: "inode \<Rightarrow> (u32 \<Rightarrow> block) \<Rightarrow> nat \<Rightarrow> u32" where
  "imap x V bn =
     (if bn < NDIRECT then i_addrs x ! bn
      else if i_addrs x ! NDIRECT = 0 then 0 else get32 (4 * (bn - NDIRECT)) (V (i_addrs x ! NDIRECT)))"

definition fbyte :: "inode \<Rightarrow> (u32 \<Rightarrow> block) \<Rightarrow> nat \<Rightarrow> byte" where
  "fbyte x V i = V (imap x V (i div BSIZE)) ! (i mod BSIZE)"

definition iwf :: "(u32 \<Rightarrow> bool) \<Rightarrow> (u32 \<Rightarrow> block) \<Rightarrow> inode \<Rightarrow> bool" where
  "iwf G V x \<longleftrightarrow> length (i_addrs x) = 13 \<and> unat (i_size x) \<le> MAXFILE * BSIZE \<and> \<not> G 0 \<and>
     (\<forall>bn. bn * BSIZE < unat (i_size x) \<longrightarrow> imap x V bn \<noteq> 0) \<and>
     (\<forall>bn<MAXFILE. imap x V bn \<noteq> 0 \<longrightarrow> G (imap x V bn) \<and> imap x V bn \<noteq> i_addrs x ! NDIRECT) \<and>
     (i_addrs x ! NDIRECT \<noteq> 0 \<longrightarrow> G (i_addrs x ! NDIRECT)) \<and>
     (\<forall>bn<MAXFILE. \<forall>bn'<MAXFILE. imap x V bn = imap x V bn' \<and> imap x V bn \<noteq> 0 \<longrightarrow> bn = bn')"

lemma iwfD:
  assumes "iwf G V x"
  shows "length (i_addrs x) = 13" "unat (i_size x) \<le> 274432" "\<not> G 0"
    "\<And>bn. bn * 1024 < unat (i_size x) \<Longrightarrow> imap x V bn \<noteq> 0"
    "\<And>bn. bn < 268 \<Longrightarrow> imap x V bn \<noteq> 0 \<Longrightarrow> G (imap x V bn)"
    "\<And>bn. bn < 268 \<Longrightarrow> imap x V bn \<noteq> 0 \<Longrightarrow> imap x V bn \<noteq> i_addrs x ! 12"
    "i_addrs x ! 12 \<noteq> 0 \<Longrightarrow> G (i_addrs x ! 12)"
    "\<And>bn bn'. bn < 268 \<Longrightarrow> bn' < 268 \<Longrightarrow> imap x V bn \<noteq> 0 \<Longrightarrow> imap x V bn = imap x V bn' \<Longrightarrow> bn = bn'"
  using assms unfolding iwf_def by auto

lemma iwfI:
  assumes "length (i_addrs x) = 13" "unat (i_size x) \<le> 274432" "\<not> G 0"
    "\<And>bn. bn * 1024 < unat (i_size x) \<Longrightarrow> imap x V bn \<noteq> 0"
    "\<And>bn. bn < 268 \<Longrightarrow> imap x V bn \<noteq> 0 \<Longrightarrow> G (imap x V bn)"
    "\<And>bn. bn < 268 \<Longrightarrow> imap x V bn \<noteq> 0 \<Longrightarrow> imap x V bn \<noteq> i_addrs x ! 12"
    "i_addrs x ! 12 \<noteq> 0 \<Longrightarrow> G (i_addrs x ! 12)"
    "\<And>bn bn'. bn < 268 \<Longrightarrow> bn' < 268 \<Longrightarrow> imap x V bn \<noteq> 0 \<Longrightarrow> imap x V bn = imap x V bn' \<Longrightarrow> bn = bn'"
  shows "iwf G V x"
  using assms unfolding iwf_def by auto

text \<open>Writes outside the indirect block do not change the map.\<close>

lemma imap_cong: "i_addrs x' = i_addrs x \<Longrightarrow> V' (i_addrs x ! 12) = V (i_addrs x ! 12) \<Longrightarrow> imap x' V' = imap x V"
  by (simp add: imap_def fun_eq_iff)

lemma iwf_cong:
  assumes wf: "iwf G V x" and a: "i_addrs x' = i_addrs x" and z: "unat (i_size x') \<le> 274432"
    "\<And>bn. bn * 1024 < unat (i_size x') \<Longrightarrow> imap x V bn \<noteq> 0"
    and V: "V' (i_addrs x ! 12) = V (i_addrs x ! 12)" and G: "\<And>a. G a \<Longrightarrow> G' a" "\<not> G' 0"
  shows "iwf G' V' x'"
  using iwfD [OF wf] z G unfolding iwf_def imap_cong [where x = x and x' = x' and V = V and V' = V', OF a V] a
  by (auto simp del: One_nat_def)

text \<open>A new block is entered in the map.\<close>

lemma iwf_extend:
  assumes wf: "iwf G V x" and bn: "bn < 268" "imap x V bn = 0" and a: "\<not> G a" "G' a" and G: "\<And>a. G a \<Longrightarrow> G' a" "\<not> G' 0"
    and x': "length (i_addrs x') = 13" "i_size x' = i_size x" "i_addrs x' ! 12 = i_addrs x ! 12"
    and m: "\<And>i. i < 268 \<Longrightarrow> imap x' V' i = (if i = bn then a else imap x V i)"
  shows "iwf G' V' x'"
proof -
  note D = iwfD [OF wf]
  have a0: "a \<noteq> 0" using a(2) G(2) by auto
  show ?thesis
  proof (rule iwfI)
    show "imap x' V' i \<noteq> 0" if "i * 1024 < unat (i_size x')" for i
    proof -
      have "i < 268" using that D(2) x'(2) by simp
      then show ?thesis using m [of i] D(4) [of i] that x'(2) a0 by simp
    qed
    show "G' (imap x' V' i)" if "i < 268" "imap x' V' i \<noteq> 0" for i
      using m [OF that(1)] that D(5) [of i] G(1) a(2) by (auto split: if_splits)
    show "imap x' V' i \<noteq> i_addrs x' ! 12" if "i < 268" "imap x' V' i \<noteq> 0" for i
      using m [OF that(1)] that D(6) [of i] D(7) a0 a(1) x'(3) by metis
    show "i = j" if "i < 268" "j < 268" "imap x' V' i \<noteq> 0" "imap x' V' i = imap x' V' j" for i j
      using m [OF that(1)] m [OF that(2)] that D(8) [of i j] D(5) [of i] D(5) [of j] a(1) a0 by metis
  qed (use D x' G in auto)
qed

section \<open>Data blocks\<close>

text \<open>The inode blocks and block 0 are marked used; the inode blocks are neither in the log nor in the
  bitmap.\<close>

definition layout_ok :: "u32 \<Rightarrow> 'z fs_scheme \<Rightarrow> bool" where
  "layout_ok d s \<longleftrightarrow> bitmap_ok d s \<and> bused d s 0 \<and> 0 < sb_size (sb s) \<and>
     (\<forall>i < sb_ninodes (sb s). IBLOCK i (sb s) \<notin> log_area (lstart s) \<and> (\<forall>b < sb_size (sb s). IBLOCK i (sb s) \<noteq> BBLOCK b (sb s)) \<and>
        (IBLOCK i (sb s) < sb_size (sb s) \<longrightarrow> bused d s (IBLOCK i (sb s))))"

definition dblk :: "u32 \<Rightarrow> 'z fs_scheme \<Rightarrow> u32 \<Rightarrow> bool" where
  "dblk d s a \<longleftrightarrow> a \<noteq> 0 \<and> a < sb_size (sb s) \<and> bused d s a \<and> a \<notin> log_area (lstart s) \<and>
     (\<forall>b < sb_size (sb s). a \<noteq> BBLOCK b (sb s)) \<and> (\<forall>i < sb_ninodes (sb s). a \<noteq> IBLOCK i (sb s))"

definition nfree :: "u32 \<Rightarrow> 'z fs_scheme \<Rightarrow> nat" where
  "nfree d s = card {b. b < sb_size (sb s) \<and> \<not> bused d s b}"

lemma dblkD:
  assumes "dblk d s a"
  shows "a \<noteq> 0" "a < sb_size (sb s)" "bused d s a" "a \<notin> log_area (lstart s)" "b < sb_size (sb s) \<Longrightarrow> a \<noteq> BBLOCK b (sb s)"
    "i < sb_ninodes (sb s) \<Longrightarrow> a \<noteq> IBLOCK i (sb s)"
  using assms unfolding dblk_def by auto

lemma bused_cong:
  assumes "sb s' = sb s" and "\<And>b. b < sb_size (sb s) \<Longrightarrow> view d s' (BBLOCK b (sb s)) = view d s (BBLOCK b (sb s))"
  shows "b < sb_size (sb s) \<Longrightarrow> bused d s' b = bused d s b"
  using assms by (simp add: bused_def)

lemma bitmap_cong:
  assumes sb: "sb s' = sb s" "lstart s' = lstart s" and u: "\<And>b. b < sb_size (sb s) \<Longrightarrow> bused d s' b = bused d s b"
  shows "bitmap_ok d s' = bitmap_ok d s" and "layout_ok d s' = layout_ok d s" and "dblk d s' = dblk d s"
    and "nfree d s' = nfree d s"
proof -
  show b: "bitmap_ok d s' = bitmap_ok d s" unfolding bitmap_ok_def sb using u by (meson)
  show "layout_ok d s' = layout_ok d s" unfolding layout_ok_def sb b using u by meson
  show "dblk d s' = dblk d s" unfolding dblk_def sb fun_eq_iff using u by meson
  have "{b. b < sb_size (sb s) \<and> \<not> bused d s' b} = {b. b < sb_size (sb s) \<and> \<not> bused d s b}" using u by blast
  then show "nfree d s' = nfree d s" by (simp add: nfree_def sb)
qed

text \<open>What \<open>balloc\<close> returns is a new data block.\<close>

lemma balloc_dblk:
  assumes len: "\<And>n. length (view d s n) = 1024" and lo: "layout_ok d s" and a: "a < sb_size (sb s)" "\<not> bused d s a"
    and sb: "sb s' = sb s" "lstart s' = lstart s"
    and v: "view d s' = (view d s)(BBLOCK a (sb s) := mark_used (unat a mod 8192) (view d s (BBLOCK a (sb s))),
      a := replicate 1024 0)"
  shows "dblk d s' a" "\<not> dblk d s a" "\<And>b. dblk d s b \<Longrightarrow> dblk d s' b" "layout_ok d s'" "nfree d s = Suc (nfree d s')"
    "\<And>b. dblk d s b \<Longrightarrow> view d s' b = view d s b"
proof -
  have bm: "bitmap_ok d s" using lo by (simp add: layout_ok_def)
  note B = balloc_bitmap [OF len bm a sb v]
  show nd: "\<not> dblk d s a" using a(2) dblkD(3) by blast
  have "a \<noteq> 0" using lo a(2) by (auto simp: layout_ok_def)
  moreover have "a \<notin> log_area (lstart s)" using bm a unfolding bitmap_ok_def by blast
  moreover have "a \<noteq> IBLOCK i (sb s)" if "i < sb_ninodes (sb s)" for i using lo a that unfolding layout_ok_def by blast
  ultimately show "dblk d s' a" unfolding dblk_def sb using a(1) B(1) [OF a(1)] B(3) by blast
  show "dblk d s' b" if "dblk d s b" for b using that B(1) [of b] unfolding dblk_def sb by blast
  show "layout_ok d s'" unfolding layout_ok_def sb
  proof (intro conjI allI impI)
    show "0 < sb_size (sb s)" "bused d s' 0" using lo B(1) [of 0] unfolding layout_ok_def by blast+
  qed (use lo B(1,2) in \<open>unfold layout_ok_def, blast+\<close>)
  have "{b. b < sb_size (sb s) \<and> \<not> bused d s b} = insert a {b. b < sb_size (sb s) \<and> \<not> bused d s' b}"
    using a B(1) by blast
  then show "nfree d s = Suc (nfree d s')" using B(1) [OF a(1)] by (simp add: nfree_def sb)
  show "view d s' b = view d s b" if "dblk d s b" for b
    using that nd dblkD(5) [OF that a(1)] by (auto simp: v)
qed

section \<open>Updates of inodes and of memory\<close>

lemma log_inv_cong:
  assumes "bufs s' = bufs s" "disk s' = disk s" "mypid s' = mypid s" "ldev s' = ldev s" "lh_block s' = lh_block s"
    "lh_n s' = lh_n s" "lstart s' = lstart s"
  shows "log_inv d s' H = log_inv d s H"
  using bio_cong [OF assms(1-3)] assms by (simp add: log_inv_def log_home_def)

lemma fs_update_blocks [simp]:
  "log_inv d (s\<lparr>icache := ic\<rparr>) H = log_inv d s H" "view d (s\<lparr>icache := ic\<rparr>) = view d s"
  "log_home (s\<lparr>icache := ic\<rparr>) = log_home s" "bused d (s\<lparr>icache := ic\<rparr>) = bused d s"
  "log_inv d (s\<lparr>pmem := pm\<rparr>) H = log_inv d s H" "view d (s\<lparr>pmem := pm\<rparr>) = view d s"
  "log_home (s\<lparr>pmem := pm\<rparr>) = log_home s" "bused d (s\<lparr>pmem := pm\<rparr>) = bused d s"
proof -
  show v: "view d (s\<lparr>icache := ic\<rparr>) = view d s" "view d (s\<lparr>pmem := pm\<rparr>) = view d s" by (rule bio_cong; simp)+
  show "bused d (s\<lparr>icache := ic\<rparr>) = bused d s" "bused d (s\<lparr>pmem := pm\<rparr>) = bused d s"
    by (simp_all add: bused_def fun_eq_iff v)
  show "log_inv d (s\<lparr>icache := ic\<rparr>) H = log_inv d s H" "log_inv d (s\<lparr>pmem := pm\<rparr>) H = log_inv d s H"
    by (rule log_inv_cong; simp)+
qed (simp_all add: log_home_def)

lemma fs_update_layout [simp]:
  "layout_ok d (s\<lparr>icache := ic\<rparr>) = layout_ok d s" "dblk d (s\<lparr>icache := ic\<rparr>) = dblk d s" "nfree d (s\<lparr>icache := ic\<rparr>) = nfree d s"
  "layout_ok d (s\<lparr>pmem := pm\<rparr>) = layout_ok d s" "dblk d (s\<lparr>pmem := pm\<rparr>) = dblk d s" "nfree d (s\<lparr>pmem := pm\<rparr>) = nfree d s"
  by (rule bitmap_cong; simp)+

lemma fs_frame_updates [simp]: "fs_frame s (s\<lparr>icache := ic\<rparr>)" "fs_frame s (s\<lparr>pmem := pm\<rparr>)"
  by (simp_all add: fs_frame_def)

section \<open>Room in the transaction\<close>

text \<open>Room for the blocks of \<open>X\<close> and \<open>k\<close> more: a block that is logged again takes no more
  room.\<close>

definition fits :: "nat \<Rightarrow> u32 set \<Rightarrow> 'z fs_scheme \<Rightarrow> bool" where
  "fits k X s \<longleftrightarrow> 1 \<le> outstanding s \<and> card (set (log_home s) \<union> X) + k \<le> 29 \<and>
     int (card (set (log_home s) \<union> X) + k) < lsize s"

lemma fits_room: "fits k X s \<Longrightarrow> log_inv d s H \<Longrightarrow> finite X \<Longrightarrow> room k s"
  using card_mono [of "set (log_home s) \<union> X" "set (log_home s)"] distinct_card [OF log_invD(6) [of d s H]]
    log_invD(4,12) [of d s H] by (auto simp: fits_def room_def)

lemma room_fits: "room (Suc k) s \<Longrightarrow> log_inv d s H \<Longrightarrow> fits (Suc k) {} s"
  using distinct_card [OF log_invD(6) [of d s H]] log_invD(4,12) [of d s H] by (auto simp: fits_def room_def)

lemma fits_step:
  assumes f: "fits (j + k) X s" and t: "set (log_home s') \<subseteq> set (log_home s) \<union> W" "fs_frame s s'"
    and c: "card ((W \<union> X') - X) \<le> j" "finite X" "finite X'" "finite W"
  shows "fits k X' s'"
proof -
  have "card (set (log_home s') \<union> X') \<le> card ((set (log_home s) \<union> X) \<union> ((W \<union> X') - X))"
    using t(1) c by (intro card_mono) auto
  also have "\<dots> \<le> card (set (log_home s) \<union> X) + j"
    using card_Un_le [of "set (log_home s) \<union> X" "(W \<union> X') - X"] c(1) by simp
  finally show ?thesis using f t(2) by (auto simp: fits_def fs_frame_def)
qed

lemma fits_mono: "fits k X s \<Longrightarrow> j \<le> k \<Longrightarrow> fits j X s"
  by (auto simp: fits_def)

lemma fits_update [simp]: "fits k X (s\<lparr>icache := ic\<rparr>) = fits k X s" "fits k X (s\<lparr>pmem := pm\<rparr>) = fits k X s"
  by (simp_all add: fits_def)

section \<open>bmap\<close>

lemma bmap_mapped:
  assumes inv: "log_inv d s {}" and wf: "iwf (dblk d s) (view d s) (icache s ! ip)" and dv: "i_dev (icache s ! ip) = d"
    and bn: "bn < 268" "imap (icache s ! ip) (view d s) bn \<noteq> 0"
  obtains s' where "bmap ip bn s = Inr (imap (icache s ! ip) (view d s) bn, s')" "log_inv d s' {}" "tx d {} {} s s'"
proof (cases "bn < 12")
  case True
  then show thesis using bn that [OF _ inv] by (auto simp: bmap_def imap_def)
next
  case False
  let ?x = "icache s ! ip"
  have i: "i_addrs ?x ! 12 \<noteq> 0" using bn(2) False by (auto simp: imap_def)
  have u: "i_addrs ?x ! 12 \<notin> log_area (lstart s)" using dblkD(4) [OF iwfD(7) [OF wf i]] .
  obtain b s1 s2 where r: "bread d (i_addrs ?x ! 12) s = Inr (b, s1)" "data (bufs s1 b) = view d s (i_addrs ?x ! 12)"
      "brelse b s1 = Inr s2" "log_inv d s2 {}" "tx d {} {} s s2"
    using fslog.read_blk [OF inv _ u] by blast
  have "bmap ip bn s = Inr (imap ?x (view d s) bn, s2)"
    using False i bn dv r(1-3) by (simp add: bmap_def imap_def Let_def)
  from that [OF this r(4,5)] show thesis .
qed

definition own :: "inode \<Rightarrow> (u32 \<Rightarrow> block) \<Rightarrow> u32 set" where
  "own x V = insert (i_addrs x ! NDIRECT) (imap x V ` {..<MAXFILE})"

text \<open>A section of an operation on the inode \<open>ip\<close>: the file may get new blocks and its blocks may
  be written; no other data block and no inode block is.\<close>

definition fgrow :: "u32 \<Rightarrow> nat \<Rightarrow> 'z fs_scheme \<Rightarrow> 'z fs_scheme \<Rightarrow> bool" where
  "fgrow d ip s s' \<longleftrightarrow> log_inv d s' {} \<and> layout_ok d s' \<and> iwf (dblk d s') (view d s') (icache s' ! ip) \<and> fs_frame s s' \<and>
     pmem s' = pmem s \<and> disk s' = disk s \<and> (\<exists>as. icache s' = (icache s)[ip := (icache s ! ip)\<lparr>i_addrs := as\<rparr>]) \<and>
     (\<forall>b. dblk d s b \<longrightarrow> dblk d s' b) \<and>
     (\<forall>n. dblk d s n \<and> n \<notin> own (icache s ! ip) (view d s) \<longrightarrow>
        view d s' n = view d s n \<and> n \<notin> own (icache s' ! ip) (view d s')) \<and>
     (\<forall>i < sb_ninodes (sb s). view d s' (IBLOCK i (sb s)) = view d s (IBLOCK i (sb s))) \<and>
     (\<forall>bn<MAXFILE. imap (icache s ! ip) (view d s) bn \<noteq> 0 \<longrightarrow>
        imap (icache s' ! ip) (view d s') bn = imap (icache s ! ip) (view d s) bn)"

lemma fgrowD:
  assumes "fgrow d ip s s'"
  shows "log_inv d s' {}" "layout_ok d s'" "iwf (dblk d s') (view d s') (icache s' ! ip)" "fs_frame s s'" "pmem s' = pmem s"
    "disk s' = disk s" "\<exists>as. icache s' = (icache s)[ip := (icache s ! ip)\<lparr>i_addrs := as\<rparr>]" "dblk d s b \<Longrightarrow> dblk d s' b"
    "dblk d s n \<Longrightarrow> n \<notin> own (icache s ! ip) (view d s) \<Longrightarrow> view d s' n = view d s n"
    "dblk d s n \<Longrightarrow> n \<notin> own (icache s ! ip) (view d s) \<Longrightarrow> n \<notin> own (icache s' ! ip) (view d s')"
    "i < sb_ninodes (sb s) \<Longrightarrow> view d s' (IBLOCK i (sb s)) = view d s (IBLOCK i (sb s))"
    "bn < 268 \<Longrightarrow> imap (icache s ! ip) (view d s) bn \<noteq> 0 \<Longrightarrow>
       imap (icache s' ! ip) (view d s') bn = imap (icache s ! ip) (view d s) bn"
  using assms unfolding fgrow_def by blast+

lemma fs_frame_sb: "fs_frame s s' \<Longrightarrow> sb s' = sb s" "fs_frame s s' \<Longrightarrow> lstart s' = lstart s"
  "fs_frame s s' \<Longrightarrow> de_addr s' = de_addr s" "fs_frame s s' \<Longrightarrow> mypagetable s' = mypagetable s"
  by (simp_all add: fs_frame_def)

lemma list_update_fields:
  "\<exists>as. ys = xs[i := (xs ! i)\<lparr>i_addrs := as\<rparr>] \<Longrightarrow> \<exists>bs. zs = ys[i := (ys ! i)\<lparr>i_addrs := bs\<rparr>] \<Longrightarrow>
   \<exists>as. zs = xs[i := (xs ! i)\<lparr>i_addrs := as\<rparr>]"
proof (elim exE)
  fix as bs
  assume "ys = xs[i := (xs ! i)\<lparr>i_addrs := as\<rparr>]" "zs = ys[i := (ys ! i)\<lparr>i_addrs := bs\<rparr>]"
  then have "zs = xs[i := (xs ! i)\<lparr>i_addrs := bs\<rparr>]" by (cases "i < length xs") (simp_all add: list_update_beyond)
  then show ?thesis by blast
qed

lemma fgrow_trans:
  assumes a: "fgrow d ip s s'" and b: "fgrow d ip s' s''"
  shows "fgrow d ip s s''"
proof -
  note A = fgrowD [OF a] and B = fgrowD [OF b]
  note sb = fs_frame_sb(1) [OF A(4)]
  show ?thesis unfolding fgrow_def
  proof (intro conjI allI impI)
    show "\<exists>as. icache s'' = (icache s)[ip := (icache s ! ip)\<lparr>i_addrs := as\<rparr>]"
      using list_update_fields [OF A(7) B(7)] .
    show "fs_frame s s''" using A(4) B(4) by (rule fs_frame_trans)
    show "log_inv d s'' {}" "layout_ok d s''" "iwf (dblk d s'') (view d s'') (icache s'' ! ip)" by (fact B)+
    show "pmem s'' = pmem s" "disk s'' = disk s" using A(5,6) B(5,6) by simp_all
    show "dblk d s'' b" if "dblk d s b" for b using A(8) B(8) that by blast
    show "view d s'' n = view d s n" "n \<notin> own (icache s'' ! ip) (view d s'')"
      if "dblk d s n \<and> n \<notin> own (icache s ! ip) (view d s)" for n
      using that A(8-10) [of n] B(9,10) [of n] by auto
    show "view d s'' (IBLOCK i (sb s)) = view d s (IBLOCK i (sb s))" if "i < sb_ninodes (sb s)" for i
      using A(11) [OF that] B(11) [of i] that unfolding sb by simp
    show "imap (icache s'' ! ip) (view d s'') bn = imap (icache s ! ip) (view d s) bn"
      if "bn < 268" "imap (icache s ! ip) (view d s) bn \<noteq> 0" for bn
      using A(12) [OF that] B(12) [of bn] that by simp
  qed
qed

text \<open>What an operation on the contents of a cached inode relies on.\<close>

definition iready :: "u32 \<Rightarrow> nat \<Rightarrow> 'z fs_scheme \<Rightarrow> bool" where
  "iready d ip s \<longleftrightarrow> log_inv d s {} \<and> layout_ok d s \<and> iwf (dblk d s) (view d s) (icache s ! ip) \<and> ip < length (icache s) \<and>
     i_dev (icache s ! ip) = d"

lemma ireadyD:
  assumes "iready d ip s"
  shows "log_inv d s {}" "layout_ok d s" "iwf (dblk d s) (view d s) (icache s ! ip)" "ip < length (icache s)"
    "i_dev (icache s ! ip) = d"
  using assms by (simp_all add: iready_def)

lemma fgrow_ready:
  assumes "iready d ip s" and "fgrow d ip s s'"
  shows "iready d ip s'" and "\<exists>as. icache s' ! ip = (icache s ! ip)\<lparr>i_addrs := as\<rparr>"
proof -
  obtain as where as: "icache s' = (icache s)[ip := (icache s ! ip)\<lparr>i_addrs := as\<rparr>]" using fgrowD(7) [OF assms(2)] by blast
  then show "\<exists>as. icache s' ! ip = (icache s ! ip)\<lparr>i_addrs := as\<rparr>" using ireadyD(4) [OF assms(1)] by auto
  show "iready d ip s'"
    using fgrowD(1-3) [OF assms(2)] ireadyD(4,5) [OF assms(1)] as by (simp add: iready_def)
qed

lemma fgrow_refl: "iready d ip s \<Longrightarrow> fgrow d ip s s"
  unfolding fgrow_def iready_def by (auto intro!: exI [of _ "i_addrs (icache s ! ip)"])

lemma tx_bitmap:
  assumes "tx d H W s s'" and "\<And>n b. n \<in> W \<Longrightarrow> b < sb_size (sb s) \<Longrightarrow> n \<noteq> BBLOCK b (sb s)"
  shows "dblk d s' = dblk d s" "layout_ok d s' = layout_ok d s" "nfree d s' = nfree d s" "bitmap_ok d s' = bitmap_ok d s"
proof -
  note fr = blk_frameD [OF txD(1) [OF assms(1)]]
  have "view d s' (BBLOCK b (sb s)) = view d s (BBLOCK b (sb s))" if "b < sb_size (sb s)" for b
    using txD(4) [OF assms(1)] assms(2) [OF _ that] by blast
  note u = bused_cong [OF fr(4) this]
  show "dblk d s' = dblk d s" "layout_ok d s' = layout_ok d s" "nfree d s' = nfree d s" "bitmap_ok d s' = bitmap_ok d s"
    using bitmap_cong [OF fr(4,1) u] by auto
qed

lemma tx_fgrow:
  assumes rd: "iready d ip s" and t: "tx d {} W s s'" and inv: "log_inv d s' {}"
    and W: "\<And>n. n \<in> W \<Longrightarrow> \<exists>bn<268. n = imap (icache s ! ip) (view d s) bn \<and> n \<noteq> 0"
  shows "fgrow d ip s s'" and "imap (icache s' ! ip) (view d s') = imap (icache s ! ip) (view d s)"
proof -
  let ?x = "icache s ! ip"
  note D = ireadyD [OF rd] and fr = blk_frameD [OF txD(1) [OF t]]
  have Wd: "dblk d s n" "n \<noteq> i_addrs ?x ! 12" "n \<in> own ?x (view d s)" if n: "n \<in> W" for n
  proof -
    obtain bn where bn: "bn < 268" "n = imap ?x (view d s) bn" "n \<noteq> 0" using W [OF n] by blast
    then show "dblk d s n" "n \<noteq> i_addrs ?x ! 12" using iwfD(5,6) [OF D(3) bn(1)] by simp_all
    show "n \<in> own ?x (view d s)" using bn by (auto simp: own_def)
  qed
  have b: "dblk d s' = dblk d s" "layout_ok d s' = layout_ok d s"
    by (rule tx_bitmap [OF t], use dblkD(5) [OF Wd(1)] in blast)+
  have ind: "view d s' (i_addrs ?x ! 12) = view d s (i_addrs ?x ! 12)" using txD(4) [OF t] Wd(2) by blast
  show m: "imap (icache s' ! ip) (view d s') = imap ?x (view d s)" unfolding fr(5) by (rule imap_cong) (simp_all add: ind)
  have wf: "iwf (dblk d s') (view d s') (icache s' ! ip)"
    unfolding fr(5) by (rule iwf_cong [OF D(3)]) (use ind iwfD(2,3,4) [OF D(3)] in \<open>auto simp: b(1)\<close>)
  show "fgrow d ip s s'" unfolding fgrow_def b
  proof (intro conjI allI impI)
    show "layout_ok d s" "log_inv d s' {}" "disk s' = disk s" "fs_frame s s'" "pmem s' = pmem s"
      using D(2) inv txD(1,2) [OF t] fr by (auto simp: blk_frame_def)
    show "iwf (dblk d s) (view d s') (icache s' ! ip)" using wf b(1) by simp
    show "\<exists>as. icache s' = (icache s)[ip := ?x\<lparr>i_addrs := as\<rparr>]"
      using fr(5) by (intro exI [of _ "i_addrs ?x"]) simp
    show "view d s' n = view d s n" if "dblk d s n \<and> n \<notin> own ?x (view d s)" for n
      using txD(4) [OF t] Wd(3) that by blast
    show "n \<notin> own (icache s' ! ip) (view d s')" if "dblk d s n \<and> n \<notin> own ?x (view d s)" for n
      using that m by (simp add: own_def fr(5))
    show "view d s' (IBLOCK i (sb s)) = view d s (IBLOCK i (sb s))" if "i < sb_ninodes (sb s)" for i
      using txD(4) [OF t] dblkD(6) [OF Wd(1) that] by blast
  qed (simp_all add: m)
qed

lemma data_balloc:
  assumes inv: "log_inv d s H" and lo: "layout_ok d s" and H: "H = {} \<or> card H = 1" "\<And>h. h \<in> H \<Longrightarrow> dblk d s h"
    and rm: "room 2 s" and f: "0 < nfree d s"
  obtains a s' where "balloc d s = Inr (a, s')" "log_inv d s' H" "tx d H {BBLOCK a (sb s), a} s s'"
    "dblk d s' a" "\<not> dblk d s a" "\<And>b. dblk d s b \<Longrightarrow> dblk d s' b" "layout_ok d s'" "nfree d s = Suc (nfree d s')"
    "\<And>b. dblk d s b \<Longrightarrow> view d s' b = view d s b" "view d s' a = replicate 1024 0"
    "\<And>i. i < sb_ninodes (sb s) \<Longrightarrow> view d s' (IBLOCK i (sb s)) = view d s (IBLOCK i (sb s))"
proof -
  have bm: "bitmap_ok d s" using lo by (simp add: layout_ok_def)
  have "{b. b < sb_size (sb s) \<and> \<not> bused d s b} \<noteq> {}"
    using f unfolding nfree_def card_gt_0_iff by blast
  then obtain g where g: "g < sb_size (sb s)" "\<not> bused d s g" by blast
  obtain a s' where r: "balloc d s = Inr (a, s')" "log_inv d s' H" "tx d H {BBLOCK a (sb s), a} s s'"
      "a < sb_size (sb s)" "\<not> bused d s a"
      "view d s' = (view d s)(BBLOCK a (sb s) := mark_used (unat a mod 8192) (view d s (BBLOCK a (sb s))),
        a := replicate 1024 0)"
    using balloc_spec [OF inv H(1) dblkD(5) [OF H(2)] dblkD(3) [OF H(2)] bm rm g] by blast
  note fr = blk_frameD [OF txD(1) [OF r(3)]]
  note B = balloc_dblk [OF log_invD(14) [OF inv] lo r(4,5) fr(4,1) r(6)]
  have "view d s' (IBLOCK i (sb s)) = view d s (IBLOCK i (sb s))" if "i < sb_ninodes (sb s)" for i
    using lo that r(4) dblkD(6) [OF B(1), of i] unfolding layout_ok_def fr(4) r(6) by auto
  moreover have "view d s' a = replicate 1024 0" by (simp add: r(6))
  ultimately show thesis using that [OF r(1-3) B(1,2)] B(3-6) by blast
qed

text \<open>A new block is entered in the inode or in its indirect block.\<close>

lemma fgrow_alloc:
  assumes rd: "iready d ip s" and a: "dblk d s' a" "\<not> dblk d s a" and G: "\<And>b. dblk d s b \<Longrightarrow> dblk d s' b"
    and st: "layout_ok d s'" "log_inv d s' {}" "fs_frame s s'" "pmem s' = pmem s" "disk s' = disk s"
    and ic: "icache s' = (icache s)[ip := (icache s ! ip)\<lparr>i_addrs := as\<rparr>]"
    and wf: "iwf (dblk d s') (view d s') (icache s' ! ip)"
    and v: "\<And>n. dblk d s n \<Longrightarrow> n \<noteq> i_addrs (icache s ! ip) ! 12 \<Longrightarrow> view d s' n = view d s n"
    and ib: "\<And>i. i < sb_ninodes (sb s) \<Longrightarrow> view d s' (IBLOCK i (sb s)) = view d s (IBLOCK i (sb s))"
    and ind: "i_addrs (icache s' ! ip) ! 12 \<in> {a, i_addrs (icache s ! ip) ! 12}"
    and m: "\<And>i. i < 268 \<Longrightarrow> imap (icache s' ! ip) (view d s') i \<in> {a, imap (icache s ! ip) (view d s) i}"
      "\<And>i. i < 268 \<Longrightarrow> imap (icache s ! ip) (view d s) i \<noteq> 0 \<Longrightarrow>
        imap (icache s' ! ip) (view d s') i = imap (icache s ! ip) (view d s) i"
  shows "fgrow d ip s s'"
  unfolding fgrow_def
proof (intro conjI allI impI)
  fix n assume n: "dblk d s n \<and> n \<notin> own (icache s ! ip) (view d s)"
  then show "view d s' n = view d s n" using v by (auto simp: own_def)
  have "n \<noteq> a" using n a(2) by blast
  moreover have "own (icache s' ! ip) (view d s') \<subseteq> insert a (own (icache s ! ip) (view d s))"
    using ind m(1) by (force simp: own_def)
  ultimately show "n \<notin> own (icache s' ! ip) (view d s')" using n by blast
qed (use assms in auto)

lemma upd_inode_eq: "upd_inode ip f s = s\<lparr>icache := (icache s)[ip := f (icache s ! ip)]\<rparr>"
  by (simp add: upd_inode_def)

text \<open>\<open>balloc\<close>, and the address stored at index \<open>j\<close> of the inode: a direct block, or the indirect
  block, which is empty.\<close>

lemma alloc_addr:
  assumes rd: "iready d ip s" and j: "j < 13" "i_addrs (icache s ! ip) ! j = 0" and rm: "room 2 s" and f: "0 < nfree d s"
  obtains a s1 s' where "balloc d s = Inr (a, s1)" "s' = upd_inode ip (\<lambda>x. x\<lparr>i_addrs := (i_addrs x)[j := a]\<rparr>) s1"
    "icache s1 = icache s" "fgrow d ip s s'" "set (log_home s') \<subseteq> set (log_home s) \<union> {BBLOCK a (sb s), a}"
    "a \<noteq> 0" "\<not> dblk d s a" "nfree d s = Suc (nfree d s')" "view d s' a = replicate 1024 0"
    "\<And>b. dblk d s b \<Longrightarrow> view d s' b = view d s b"
    "i_addrs (icache s' ! ip) = (i_addrs (icache s ! ip))[j := a]"
    "\<And>i. i < 268 \<Longrightarrow> imap (icache s' ! ip) (view d s') i = (if i = j \<and> j < 12 then a else imap (icache s ! ip) (view d s) i)"
proof -
  let ?x = "icache s ! ip" and ?V = "view d s"
  note D = ireadyD [OF rd] and W = iwfD [OF ireadyD(3) [OF rd]]
  obtain a s1 where r: "balloc d s = Inr (a, s1)" "log_inv d s1 {}" "tx d {} {BBLOCK a (sb s), a} s s1"
    "dblk d s1 a" "\<not> dblk d s a" "\<And>b. dblk d s b \<Longrightarrow> dblk d s1 b" "layout_ok d s1" "nfree d s = Suc (nfree d s1)"
    "\<And>b. dblk d s b \<Longrightarrow> view d s1 b = view d s b" "view d s1 a = replicate 1024 0"
    "\<And>i. i < sb_ninodes (sb s) \<Longrightarrow> view d s1 (IBLOCK i (sb s)) = view d s (IBLOCK i (sb s))"
    using data_balloc [OF D(1,2) _ _ rm f] by blast
  note fr = blk_frameD [OF txD(1) [OF r(3)]]
  define s' where "s' = upd_inode ip (\<lambda>x. x\<lparr>i_addrs := (i_addrs x)[j := a]\<rparr>) s1"
  have ic: "icache s' = (icache s)[ip := ?x\<lparr>i_addrs := (i_addrs ?x)[j := a]\<rparr>]"
    and s': "view d s' = view d s1" "dblk d s' = dblk d s1" "layout_ok d s' = layout_ok d s1" "log_inv d s' {} = log_inv d s1 {}"
      "nfree d s' = nfree d s1" "log_home s' = log_home s1" "pmem s' = pmem s1" "disk s' = disk s1"
    by (simp_all add: s'_def upd_inode_eq fr(5))
  have frame: "fs_frame s s'"
    using txD(1) [OF r(3)] by (auto simp: s'_def upd_inode_eq blk_frame_def intro: fs_frame_trans)
  have x': "icache s' ! ip = ?x\<lparr>i_addrs := (i_addrs ?x)[j := a]\<rparr>" using ic D(4) by simp
  have ind: "view d s1 (i_addrs ?x ! 12) = ?V (i_addrs ?x ! 12)" if "i_addrs ?x ! 12 \<noteq> 0"
    using r(9) [OF W(7) [OF that]] .
  have m: "imap (icache s' ! ip) (view d s') i = (if i = j \<and> j < 12 then a else imap ?x ?V i)" if "i < 268" for i
    unfolding x' s' imap_def using j W(1) r(10) ind
    by (cases "j = 12") (auto simp: nth_list_update get32_zeros)
  have a0: "a \<noteq> 0" using r(4) dblkD(1) by blast
  have wf: "iwf (dblk d s') (view d s') (icache s' ! ip)"
  proof (cases "j < 12")
    case True
    show ?thesis
    proof (rule iwf_extend [OF D(3) _ _ r(5)])
      show "j < 268" "imap ?x ?V j = 0" using True j by (simp_all add: imap_def)
      show "dblk d s' a" "\<not> dblk d s' 0" using r(4) dblkD(1) [of d s1 0] by (auto simp: s')
      show "dblk d s' b" if "dblk d s b" for b using r(6) that by (simp add: s')
      show "length (i_addrs (icache s' ! ip)) = 13" "i_size (icache s' ! ip) = i_size ?x"
        "i_addrs (icache s' ! ip) ! 12 = i_addrs ?x ! 12" using W(1) True by (simp_all add: x')
      show "imap (icache s' ! ip) (view d s') i = (if i = j then a else imap ?x ?V i)" if "i < 268" for i
        using m [OF that] True by simp
    qed
  next
    case False
    then have j12: "j = 12" using j by simp
    have m': "imap (icache s' ! ip) (view d s') i = imap ?x ?V i" if "i < 268" for i using m [OF that] j12 by simp
    have "i_addrs (icache s' ! ip) ! 12 = a" "i_size (icache s' ! ip) = i_size ?x" "length (i_addrs (icache s' ! ip)) = 13"
      using W(1) by (simp_all add: x' j12)
    moreover have "imap ?x ?V i \<noteq> a" if "i < 268" for i using W(5) [OF that] r(5) a0 by metis
    moreover have "bn < 268" if "bn * 1024 < unat (i_size ?x)" for bn using that W(2) by simp
    ultimately show ?thesis
      using W(2,4,5,8) r(4,6) dblkD(1) [of d s1 0] m' by (intro iwfI) (simp_all add: s', metis+)
  qed
  have "fgrow d ip s s'"
  proof (rule fgrow_alloc [OF rd _ r(5) _ _ _ frame _ _ ic wf])
    show "dblk d s' a" "layout_ok d s'" "log_inv d s' {}" "pmem s' = pmem s" "disk s' = disk s"
      using r(2,4,7) fr(6) txD(2) [OF r(3)] by (simp_all add: s')
    show "dblk d s' b" if "dblk d s b" for b using r(6) that by (simp add: s')
    show "view d s' n = ?V n" if "dblk d s n" "n \<noteq> i_addrs ?x ! 12" for n using r(9) that by (simp add: s')
    show "view d s' (IBLOCK i (sb s)) = ?V (IBLOCK i (sb s))" if "i < sb_ninodes (sb s)" for i
      using r(11) that by (simp add: s')
    show "i_addrs (icache s' ! ip) ! 12 \<in> {a, i_addrs ?x ! 12}" using j(1) W(1) by (simp add: x' nth_list_update)
    show "imap (icache s' ! ip) (view d s') i \<in> {a, imap ?x ?V i}" if "i < 268" for i using m [OF that] by simp
    show "imap (icache s' ! ip) (view d s') i = imap ?x ?V i" if "i < 268" "imap ?x ?V i \<noteq> 0" for i
      using m [OF that(1)] that(2) j(2) by (auto simp: imap_def)
  qed
  moreover have "set (log_home s') \<subseteq> set (log_home s) \<union> {BBLOCK a (sb s), a}"
    using r(3) s'(6) by (auto simp: tx_def)
  ultimately show thesis
    using that [OF r(1) s'_def fr(5)] r(5,8-10) s' m x' a0 by simp
qed

lemma held_data: "log_inv d s H \<Longrightarrow> n \<in> H \<Longrightarrow> cached s d n b \<Longrightarrow> data (bufs s b) = view d s n"
  using bc_data(1) [OF log_invD(1)] by blast

lemma empty_not_in: "n \<notin> {}"
  by simp

lemma get32_entry:
  assumes "length bs = 1024" and "i < 256" and "j < 256"
  shows "get32 (4 * i) (put32 (4 * j) a bs) = (if i = j then a else get32 (4 * i) bs)"
proof (cases "i = j")
  case False
  then have "4 * i + 4 \<le> 4 * j \<or> 4 * j + 4 \<le> 4 * i" by arith
  then show ?thesis using assms False by simp
qed (use assms in simp)

text \<open>A block whose entry in the indirect block is empty.\<close>

lemma bmap_entry:
  assumes rd: "iready d ip s" and bn: "12 \<le> bn" "bn < 268" and i0: "i_addrs (icache s ! ip) ! 12 \<noteq> 0"
    and e: "imap (icache s ! ip) (view d s) bn = 0" and rm: "room 3 s" and f: "0 < nfree d s"
  obtains a s' where "bmap ip bn s = Inr (a, s')" "fgrow d ip s s'" "icache s' = icache s"
    "set (log_home s') \<subseteq> set (log_home s) \<union> {BBLOCK a (sb s), a, i_addrs (icache s ! ip) ! 12}"
    "a \<noteq> 0" "\<not> dblk d s a" "nfree d s = Suc (nfree d s')" "view d s' a = replicate 1024 0"
    "\<And>b. dblk d s b \<Longrightarrow> b \<noteq> i_addrs (icache s ! ip) ! 12 \<Longrightarrow> view d s' b = view d s b"
    "\<And>i. i < 268 \<Longrightarrow> imap (icache s' ! ip) (view d s') i = (if i = bn then a else imap (icache s ! ip) (view d s) i)"
proof -
  let ?x = "icache s ! ip" and ?V = "view d s"
  let ?n = "i_addrs ?x ! 12" and ?k = "4 * (bn - 12)"
  note D = ireadyD [OF rd] and W = iwfD [OF ireadyD(3) [OF rd]]
  have nd: "dblk d s ?n" using W(7) [OF i0] .
  obtain bp s3 where g: "bread d ?n s = Inr (bp, s3)" "log_inv d s3 {?n}" "cached s3 d ?n bp" "data (bufs s3 bp) = ?V ?n"
      "tx d {} {} s s3"
    using fslog.get_blk [OF D(1) _ dblkD(4) [OF nd]] by auto
  note f3 = blk_frameD [OF txD(1) [OF g(5)]] and v3 = fslog.step_cont0 [OF g(5)]
  have b3: "dblk d s3 = dblk d s" "layout_ok d s3 = layout_ok d s" "nfree d s3 = nfree d s"
    by (rule tx_bitmap [OF g(5)], blast)+
  have rm3: "room (2 + 1) s3" using tx_room [OF g(5) D(1) g(2), of 0 3] rm by simp
  obtain a s4 where r: "balloc d s3 = Inr (a, s4)" "log_inv d s4 {?n}" "tx d {?n} {BBLOCK a (sb s3), a} s3 s4"
    "dblk d s4 a" "\<not> dblk d s a" "\<And>b. dblk d s b \<Longrightarrow> dblk d s4 b" "layout_ok d s4" "nfree d s = Suc (nfree d s4)"
    "\<And>b. dblk d s b \<Longrightarrow> view d s4 b = ?V b" "view d s4 a = replicate 1024 0"
    "\<And>i. i < sb_ninodes (sb s) \<Longrightarrow> view d s4 (IBLOCK i (sb s)) = ?V (IBLOCK i (sb s))"
    using data_balloc [OF g(2), of thesis] D(2) nd room_mono [OF rm3, of 2] f unfolding b3 v3 f3(4) by auto
  have c4: "cached s4 d ?n bp" using txD(5) [OF r(3) _ g(3)] by simp
  have d4: "data (bufs s4 bp) = ?V ?n" using held_data [OF r(2) _ c4] r(9) [OF nd] by simp
  have "card {BBLOCK a (sb s3), a} \<le> 2" by (simp add: card_insert_if)
  then have rm4: "room 1 s4" using tx_room [OF r(3) g(2) r(2) _ _ rm3] by simp
  let ?v = "put32 ?k a (?V ?n)"
  have lv: "length ?v = 1024" using log_invD(14) [OF D(1)] bn by simp
  obtain s5 s6 where u: "log_write bp (set_data bp ?v s4) = Inr s5" "brelse bp s5 = Inr s6" "log_inv d s6 {}"
      "tx d {} {?n} s4 s6" "view d s6 = (view d s4)(?n := ?v)"
    using fslog.update_held [OF r(2) empty_not_in c4 rm4 lv] by blast
  have t4: "tx d {} {BBLOCK a (sb s), a} s s4"
    using tx_trans [OF g(5) tx_mono [OF r(3) subset_refl, of "{}"]] f3(4) by simp
  have t6: "tx d {} {BBLOCK a (sb s), a, ?n} s s6" using tx_trans [OF t4 u(4)] by (simp add: insert_commute)
  note f6 = blk_frameD [OF txD(1) [OF t6]]
  have b6: "dblk d s6 = dblk d s4" "layout_ok d s6 = layout_ok d s4" "nfree d s6 = nfree d s4"
    by (rule tx_bitmap [OF u(4)], use dblkD(5) [OF r(6) [OF nd]] in simp)+
  have V6: "view d s6 b = ?V b" if "dblk d s b" "b \<noteq> ?n" for b using r(9) [OF that(1)] that(2) by (simp add: u(5))
  have an: "a \<noteq> ?n" using nd r(5) by blast
  have m: "imap ?x (view d s6) i = (if i = bn then a else imap ?x ?V i)" if i: "i < 268" for i
  proof (cases "i < 12")
    case True
    then show ?thesis using bn(1) by (simp add: imap_def)
  next
    case False
    then have "get32 (4 * (i - 12)) ?v = (if i = bn then a else get32 (4 * (i - 12)) (?V ?n))"
      using get32_entry [of "?V ?n" "i - 12" "bn - 12" a] log_invD(14) [OF D(1)] bn i by auto
    then show ?thesis using False i0 by (simp add: imap_def u(5))
  qed
  have wf: "iwf (dblk d s6) (view d s6) (icache s6 ! ip)" unfolding b6 f6(5)
    by (rule iwf_extend [OF D(3) bn(2) e r(5)]) (use m r(4,6) dblkD(1) [of d s4 0] W(1) in auto)
  have "fgrow d ip s s6"
  proof (rule fgrow_alloc [OF rd _ r(5)], unfold b6 f6(5))
    show "icache s = (icache s)[ip := ?x\<lparr>i_addrs := i_addrs ?x\<rparr>]" by simp
    show "iwf (dblk d s4) (view d s6) ?x" using wf unfolding b6 f6(5) .
    show "fs_frame s s6" "disk s6 = disk s" using txD(1,2) [OF t6] by (simp_all add: blk_frame_def)
    show "view d s6 (IBLOCK i (sb s)) = ?V (IBLOCK i (sb s))" if "i < sb_ninodes (sb s)" for i
      using r(11) [OF that] dblkD(6) [OF nd that] by (simp add: u(5))
    show "imap ?x (view d s6) i = imap ?x ?V i" if "i < 268" "imap ?x ?V i \<noteq> 0" for i
      using m [OF that(1)] that(2) e by auto
  qed (use r u V6 m f6 in auto)
  moreover have "bmap ip bn s = Inr (a, s6)"
    using bn i0 e D(5) g(1,4) r(1) u(1,2) d4 by (simp add: bmap_def imap_def Let_def)
  moreover have "set (log_home s6) \<subseteq> set (log_home s) \<union> {BBLOCK a (sb s), a, ?n}" using t6 by (simp add: tx_def)
  ultimately show thesis
    using that [of a s6] f6(5) r(5,8,10) b6(3) V6 m an dblkD(1) [OF r(4)] by (simp add: u(5))
qed

text \<open>The cost of \<open>bmap\<close> and of writing the block: blocks of the log, and new blocks.\<close>

definition IX :: "inode \<Rightarrow> u32 set" where
  "IX x = (if i_addrs x ! NDIRECT = 0 then {} else {i_addrs x ! NDIRECT})"

definition bcost :: "inode \<Rightarrow> (u32 \<Rightarrow> block) \<Rightarrow> nat \<Rightarrow> nat" where
  "bcost x V bn = (if imap x V bn \<noteq> 0 then 1 else 2 + (if NDIRECT \<le> bn \<and> i_addrs x ! NDIRECT = 0 then 2 else 0))"

definition bneed :: "inode \<Rightarrow> (u32 \<Rightarrow> block) \<Rightarrow> nat \<Rightarrow> nat" where
  "bneed x V bn = (if imap x V bn \<noteq> 0 then 0 else 1 + (if NDIRECT \<le> bn \<and> i_addrs x ! NDIRECT = 0 then 1 else 0))"

lemma finite_IX [simp]: "finite (IX x)"
  by (simp add: IX_def)

lemma bmap_via_indirect:
  assumes rd: "iready d ip s" and bn: "12 \<le> bn" "bn < 268" and i0: "i_addrs (icache s ! ip) ! 12 = 0"
    and b: "balloc d s = Inr (a, s1)" "icache s1 = icache s" "a \<noteq> 0"
  shows "bmap ip bn s = bmap ip bn (upd_inode ip (\<lambda>x. x\<lparr>i_addrs := (i_addrs x)[12 := a]\<rparr>) s1)"
proof -
  have "\<not> bn < 12" "bn - 12 < 256" using bn by simp_all
  then show ?thesis
    using ireadyD(4,5) [OF rd] iwfD(1) [OF ireadyD(3) [OF rd]] i0 b by (simp add: bmap_def Let_def upd_inode_def cong: if_cong)
qed

text \<open>\<open>bmap\<close> returns the block of the file, which it allocates when there is none.\<close>

lemma bmap_spec:
  assumes rd: "iready d ip s" and bn: "bn < 268" and need: "bneed (icache s ! ip) (view d s) bn \<le> nfree d s"
    and fit: "fits (bcost (icache s ! ip) (view d s) bn + (k + 1)) (IX (icache s ! ip)) s"
  obtains a s' where "bmap ip bn s = Inr (a, s')" "fgrow d ip s s'" "a \<noteq> 0"
    "fits (k + 1) (insert a (IX (icache s' ! ip))) s'" "nfree d s = nfree d s' + bneed (icache s ! ip) (view d s) bn"
    "\<And>i. i < 268 \<Longrightarrow> imap (icache s' ! ip) (view d s') i = (if i = bn then a else imap (icache s ! ip) (view d s) i)"
    "\<And>b. dblk d s b \<Longrightarrow> b \<noteq> i_addrs (icache s ! ip) ! 12 \<Longrightarrow> view d s' b = view d s b"
    "i_addrs (icache s ! ip) ! 12 \<noteq> 0 \<or> bn < 12 \<Longrightarrow> i_addrs (icache s' ! ip) ! 12 = i_addrs (icache s ! ip) ! 12"
    "12 \<le> bn \<Longrightarrow> i_addrs (icache s' ! ip) ! 12 \<noteq> 0"
proof -
  let ?x = "icache s ! ip" and ?V = "view d s"
  note D = ireadyD [OF rd] and W = iwfD [OF ireadyD(3) [OF rd]]
  have rm: "room (bcost ?x ?V bn + (k + 1)) s" using fits_room [OF fit D(1)] by simp
  have c2: "card {p, q} \<le> 2" for p q :: u32 by (simp add: card_insert_if)
  consider "imap ?x ?V bn \<noteq> 0" | "imap ?x ?V bn = 0" "bn < 12"
    | "imap ?x ?V bn = 0" "12 \<le> bn" "i_addrs ?x ! 12 \<noteq> 0" | "imap ?x ?V bn = 0" "12 \<le> bn" "i_addrs ?x ! 12 = 0"
    by linarith
  then show thesis
  proof cases
    case 1
    obtain s' where r: "bmap ip bn s = Inr (imap ?x ?V bn, s')" "log_inv d s' {}" "tx d {} {} s s'"
      using bmap_mapped [OF D(1,3,5) bn 1] by blast
    have g: "fgrow d ip s s'" "imap (icache s' ! ip) (view d s') = imap ?x ?V" using tx_fgrow [OF rd r(3,2)] by auto
    have b: "nfree d s' = nfree d s" by (rule tx_bitmap [OF r(3)]) blast
    note fr = blk_frameD [OF txD(1) [OF r(3)]] and v = fslog.step_cont0 [OF r(3)]
    have "fits (k + 1) (insert (imap ?x ?V bn) (IX (icache s' ! ip))) s'"
      by (rule fits_step [OF fit, where W = "{}"])
        (use r(3) 1 in \<open>auto simp: tx_def blk_frame_def bcost_def IX_def card_insert_if insert_Diff_if\<close>)
    moreover have "12 \<le> bn \<Longrightarrow> i_addrs ?x ! 12 \<noteq> 0" using 1 by (auto simp: imap_def)
    ultimately show thesis
      using that [OF r(1) g(1) 1] 1 b fr(5) v g(2) by (simp add: bneed_def)
  next
    case 2
    have "0 < nfree d s" "room 2 s" using need 2 room_mono [OF rm, of 2] by (simp_all add: bneed_def bcost_def)
    moreover have "i_addrs ?x ! bn = 0" using 2 by (simp add: imap_def)
    ultimately obtain a s1 s' where r: "balloc d s = Inr (a, s1)" "s' = upd_inode ip (\<lambda>x. x\<lparr>i_addrs := (i_addrs x)[bn := a]\<rparr>) s1"
      "icache s1 = icache s" "fgrow d ip s s'" "set (log_home s') \<subseteq> set (log_home s) \<union> {BBLOCK a (sb s), a}"
      "nfree d s = Suc (nfree d s')" "\<And>b. dblk d s b \<Longrightarrow> view d s' b = ?V b" "\<not> dblk d s a"
      "i_addrs (icache s' ! ip) = (i_addrs ?x)[bn := a]"
      "\<And>i. i < 268 \<Longrightarrow> imap (icache s' ! ip) (view d s') i = (if i = bn \<and> bn < 12 then a else imap ?x ?V i)"
      "a \<noteq> 0"
      using alloc_addr [OF rd, of bn thesis] 2 by auto
    have i: "i_addrs (icache s' ! ip) ! 12 = i_addrs ?x ! 12" using r(9) 2 by simp
    have "bmap ip bn s = Inr (a, s')" using r(1-3) 2 D(5) by (simp add: bmap_def Let_def imap_def)
    moreover have "fits (k + 1) (insert a (IX (icache s' ! ip))) s'"
    proof (rule fits_step [OF fit r(5) fgrowD(4) [OF r(4)]])
      have "({BBLOCK a (sb s), a} \<union> insert a (IX (icache s' ! ip))) - IX ?x \<subseteq> {BBLOCK a (sb s), a}"
        by (auto simp: IX_def i)
      from card_mono [OF _ this] show "card (({BBLOCK a (sb s), a} \<union> insert a (IX (icache s' ! ip))) - IX ?x) \<le> bcost ?x ?V bn"
        using 2 c2 [of "BBLOCK a (sb s)" a] by (simp add: bcost_def)
    qed simp_all
    ultimately show thesis
      using that [of a s'] r(4,6,7,10,11) i 2 by (simp add: bneed_def)
  next
    case 3
    have "0 < nfree d s" "room 3 s" using need 3 room_mono [OF rm, of 3] by (simp_all add: bneed_def bcost_def)
    then obtain a s' where r: "bmap ip bn s = Inr (a, s')" "fgrow d ip s s'" "icache s' = icache s"
      "set (log_home s') \<subseteq> set (log_home s) \<union> {BBLOCK a (sb s), a, i_addrs ?x ! 12}" "a \<noteq> 0"
      "nfree d s = Suc (nfree d s')" "\<And>b. dblk d s b \<Longrightarrow> b \<noteq> i_addrs ?x ! 12 \<Longrightarrow> view d s' b = ?V b"
      "\<And>i. i < 268 \<Longrightarrow> imap (icache s' ! ip) (view d s') i = (if i = bn then a else imap ?x ?V i)"
      using bmap_entry [OF rd 3(2) bn 3(3,1), of thesis] by blast
    have "fits (k + 1) (insert a (IX (icache s' ! ip))) s'"
    proof (rule fits_step [OF fit r(4) fgrowD(4) [OF r(2)]])
      have "({BBLOCK a (sb s), a, i_addrs ?x ! 12} \<union> insert a (IX (icache s' ! ip))) - IX ?x \<subseteq> {BBLOCK a (sb s), a}"
        using 3 r(3) by (auto simp: IX_def)
      from card_mono [OF _ this] show "card (({BBLOCK a (sb s), a, i_addrs ?x ! 12} \<union> insert a (IX (icache s' ! ip))) - IX ?x)
          \<le> bcost ?x ?V bn"
        using 3 c2 [of "BBLOCK a (sb s)" a] by (simp add: bcost_def)
    qed simp_all
    then show thesis
      using that [of a s'] r 3 by (simp add: bneed_def)
  next
    case 4
    have "1 < nfree d s" "room 2 s" using need 4 room_mono [OF rm, of 2] by (simp_all add: bneed_def bcost_def)
    then obtain a s0 s1 where r: "balloc d s = Inr (a, s0)" "s1 = upd_inode ip (\<lambda>x. x\<lparr>i_addrs := (i_addrs x)[12 := a]\<rparr>) s0"
      "icache s0 = icache s" "fgrow d ip s s1" "set (log_home s1) \<subseteq> set (log_home s) \<union> {BBLOCK a (sb s), a}" "a \<noteq> 0"
      "nfree d s = Suc (nfree d s1)" "\<And>b. dblk d s b \<Longrightarrow> view d s1 b = ?V b" "\<not> dblk d s a"
      "i_addrs (icache s1 ! ip) = (i_addrs ?x)[12 := a]"
      "\<And>i. i < 268 \<Longrightarrow> imap (icache s1 ! ip) (view d s1) i = (if i = 12 \<and> (12 :: nat) < 12 then a else imap ?x ?V i)"
      using alloc_addr [OF rd, of 12 thesis] 4 by auto
    have i1: "i_addrs (icache s1 ! ip) ! 12 = a" using r(10) W(1) by simp
    have IX: "IX ?x = {}" "IX (icache s1 ! ip) = {a}" using 4 i1 r(6) by (simp_all add: IX_def)
    note rd1 = fgrow_ready(1) [OF rd r(4)]
    have "fits (2 + (2 + (k + 1))) {} s" using fit 4 IX by (simp add: bcost_def eval_nat_numeral)
    then have fit1: "fits (2 + (k + 1)) {a} s1"
      by (rule fits_step [OF _ r(5) fgrowD(4) [OF r(4)]])
        (use c2 [of "BBLOCK a (sb s)" a] in \<open>simp_all add: insert_commute\<close>)
    have "0 < nfree d s1" "room 3 s1"
      using \<open>1 < nfree d s\<close> r(7) room_mono [OF fits_room [OF fit1 ireadyD(1) [OF rd1]], of 3] by simp_all
    then obtain b s' where e: "bmap ip bn s1 = Inr (b, s')" "fgrow d ip s1 s'" "icache s' = icache s1"
      "set (log_home s') \<subseteq> set (log_home s1) \<union> {BBLOCK b (sb s1), b, a}" "b \<noteq> 0"
      "nfree d s1 = Suc (nfree d s')" "\<And>c. dblk d s1 c \<Longrightarrow> c \<noteq> a \<Longrightarrow> view d s' c = view d s1 c"
      "\<And>i. i < 268 \<Longrightarrow> imap (icache s' ! ip) (view d s') i = (if i = bn then b else imap (icache s1 ! ip) (view d s1) i)"
      using bmap_entry [OF rd1 4(2) bn, of thesis] 4 r(6,11) bn unfolding i1 by simp
    have "fits (k + 1) (insert b (IX (icache s' ! ip))) s'"
      by (rule fits_step [OF fit1 e(4) fgrowD(4) [OF e(2)]])
        (use IX e(3) c2 [of "BBLOCK b (sb s1)" b] in \<open>auto simp: insert_Diff_if card_insert_if\<close>)
    moreover have "view d s' c = ?V c" if "dblk d s c" for c
    proof -
      have "c \<noteq> a" using that r(9) by blast
      then show ?thesis using e(7) [OF fgrowD(8) [OF r(4) that]] r(8) [OF that] by simp
    qed
    moreover have "bmap ip bn s = Inr (b, s')"
      using bmap_via_indirect [OF rd 4(2) bn 4(3) r(1,3,6)] e(1) r(2) by simp
    ultimately show thesis
      using that [of b s'] fgrow_trans [OF r(4) e(2)] e(3,5,6,8) r(6,7,11) 4 i1 bn by (simp add: bneed_def)
  qed
qed

end
