(* ===== verification/FileData.thy ===== *)
theory FileData
  imports BlockMap
begin

text \<open>
  The contents of files: \<open>readi\<close> and \<open>writei\<close> of \<open>kernel/fs.c\<close> against the bytes
  \<open>fbyte x V i\<close> of the file.
\<close>

section \<open>Copies to and from the caller\<close>

fun copyout_mem :: "u64 \<Rightarrow> u64 \<Rightarrow> byte list \<Rightarrow> mem \<Rightarrow> int \<times> mem" where
  "copyout_mem pt va [] m = (0, m)"
| "copyout_mem pt va (b # bs) m =
     (case uaddr m pt va of None \<Rightarrow> (-1, m) | Some pa \<Rightarrow> copyout_mem pt (va + 1) bs (m(pa := b)))"

definition copy_to :: "bool \<Rightarrow> u64 \<Rightarrow> u64 \<Rightarrow> byte list \<Rightarrow> mem \<Rightarrow> int \<times> mem" where
  "copy_to u pt dst bs m = (if u then copyout_mem pt dst bs m else (0, store_bytes m dst bs))"

lemma copyout_bytes_mem:
  "copyout_bytes pt va bs s = (fst (copyout_mem pt va bs (pmem s)), s\<lparr>pmem := snd (copyout_mem pt va bs (pmem s))\<rparr>)"
  by (induction pt va bs s rule: copyout_bytes.induct) (auto simp: fun_upd_def split: option.splits)

lemma either_copyout_mem:
  "either_copyout u dst bs s = (fst (copy_to u (mypagetable s) dst bs (pmem s)),
     s\<lparr>pmem := snd (copy_to u (mypagetable s) dst bs (pmem s))\<rparr>)"
  by (simp add: either_copyout_def copy_to_def copyout_bytes_mem)

lemma copyout_mem_result: "fst (copyout_mem pt va bs m) = 0 \<or> fst (copyout_mem pt va bs m) = -1"
  by (induction bs arbitrary: va m) (auto split: option.splits)

lemma copy_to_result: "fst (copy_to u pt dst bs m) = 0 \<or> fst (copy_to u pt dst bs m) = -1"
  using copyout_mem_result by (auto simp: copy_to_def)

lemma copyout_mem_append:
  "copyout_mem pt va (bs @ cs) m =
     (if fst (copyout_mem pt va bs m) = 0 then copyout_mem pt (va + of_nat (length bs)) cs (snd (copyout_mem pt va bs m))
      else copyout_mem pt va bs m)"
  by (induction bs arbitrary: va m) (auto split: option.splits simp: add.assoc add.commute)

lemma copy_to_append:
  "length bs + length cs \<le> 2 ^ 64 \<Longrightarrow> copy_to u pt dst (bs @ cs) m =
     (if fst (copy_to u pt dst bs m) = 0 then copy_to u pt (dst + of_nat (length bs)) cs (snd (copy_to u pt dst bs m))
      else copy_to u pt dst bs m)"
  by (simp add: copy_to_def copyout_mem_append store_bytes_append)

section \<open>Reading\<close>

text \<open>A section that changes nothing but memory and which buffers hold what.\<close>

definition reads :: "u32 \<Rightarrow> 'z fs_scheme \<Rightarrow> 'z fs_scheme \<Rightarrow> bool" where
  "reads d s s' \<longleftrightarrow> fs_frame s s' \<and> icache s' = icache s \<and> view d s' = view d s \<and> disk s' = disk s \<and>
     set (log_home s') = set (log_home s)"

lemma reads_trans: "reads d s s' \<Longrightarrow> reads d s' s'' \<Longrightarrow> reads d s s''"
  by (auto simp: reads_def intro: fs_frame_trans)

lemma tx_reads: "tx d {} {} s s' \<Longrightarrow> reads d s s' \<and> pmem s' = pmem s"
  using fslog.step_cont0 [of d "{}" s s'] by (auto simp: tx_def reads_def blk_frame_def)

lemma reads_fs:
  assumes "reads d s s'"
  shows "bused d s' = bused d s" "layout_ok d s' = layout_ok d s" "dblk d s' = dblk d s" "nfree d s' = nfree d s"
    "bitmap_ok d s' = bitmap_ok d s"
proof -
  have f: "sb s' = sb s" "lstart s' = lstart s" "view d s' = view d s" using assms by (auto simp: reads_def fs_frame_def)
  then show u: "bused d s' = bused d s" by (simp add: bused_def fun_eq_iff)
  show "layout_ok d s' = layout_ok d s" "dblk d s' = dblk d s" "nfree d s' = nfree d s" "bitmap_ok d s' = bitmap_ok d s"
    using bitmap_cong [OF f(1,2), of d] u by auto
qed

lemma reads_ready: "reads d s s' \<Longrightarrow> log_inv d s' {} \<Longrightarrow> iready d ip s \<Longrightarrow> iready d ip s'"
  using reads_fs [of d s s'] by (simp add: iready_def reads_def)

lemma in_block: "off mod 1024 + i < 1024 \<Longrightarrow> (off + i) div 1024 = off div 1024 \<and> (off + i) mod 1024 = off mod 1024 + (i :: nat)"
proof -
  assume r: "off mod 1024 + i < 1024"
  have e: "off + i = 1024 * (off div 1024) + (off mod 1024 + i)" by simp
  show ?thesis
    using arg_cong [OF e, of "\<lambda>x. x div 1024"] arg_cong [OF e, of "\<lambda>x. x mod 1024"]
      div_mult_self4 [of 1024 "off div 1024" "off mod 1024 + i"] mod_mult_self4 [of 1024 "off div 1024" "off mod 1024 + i"]
      div_less [OF r] mod_less [OF r] by (simp only: add_0_right numeral_neq_zero simp_thms not_False_eq_True)
qed

lemma chunk_bytes:
  assumes "m \<le> 1024 - off mod 1024" and "length (V (imap x V (off div 1024))) = 1024"
  shows "take m (drop (off mod 1024) (V (imap x V (off div 1024)))) = map (fbyte x V) [off..<off + m]"
proof (rule nth_equalityI)
  fix i assume "i < length (take m (drop (off mod 1024) (V (imap x V (off div 1024)))))"
  then have i: "i < m" "off mod 1024 + i < 1024" using assms by auto
  have "(off + i) div 1024 = off div 1024" "(off + i) mod 1024 = off mod 1024 + i"
    using in_block [OF i(2)] by auto
  then show "take m (drop (off mod 1024) (V (imap x V (off div 1024)))) ! i = map (fbyte x V) [off..<off + m] ! i"
    using i assms(2) by (simp add: fbyte_def)
qed (use assms in simp)

lemma reads_pmem: "reads d s (s\<lparr>pmem := m\<rparr>)"
  by (simp add: reads_def)

text \<open>One round of the loop: the block is read, its part copied and released.\<close>

lemma readi_round:
  assumes rd: "iready d ip s" and off: "off < unat (i_size (icache s ! ip))"
    and m: "m = min left (BSIZE - off mod BSIZE)"
  obtains s1 s2 bp s4 where "bmap ip (off div BSIZE) s = Inr (imap (icache s ! ip) (view d s) (off div BSIZE), s1)"
    "bread (i_dev (icache s1 ! ip)) (imap (icache s ! ip) (view d s) (off div BSIZE)) s1 = Inr (bp, s2)"
    "take m (drop (off mod BSIZE) (data (bufs s2 bp))) = map (fbyte (icache s ! ip) (view d s)) [off..<off + m]"
    "mypagetable s2 = mypagetable s" "pmem s2 = pmem s"
    "\<And>pm. \<exists>s4. brelse bp (s2\<lparr>pmem := pm\<rparr>) = Inr s4 \<and> reads d s s4 \<and> log_inv d s4 {} \<and> pmem s4 = pm"
proof -
  let ?x = "icache s ! ip" and ?V = "view d s"
  let ?a = "imap ?x ?V (off div 1024)"
  note D = ireadyD [OF rd] and W = iwfD [OF ireadyD(3) [OF rd]]
  have b: "off div 1024 < 268" "?a \<noteq> 0" using off W(2) W(4) [of "off div 1024"] by auto
  obtain s1 where s1: "bmap ip (off div 1024) s = Inr (?a, s1)" "log_inv d s1 {}" "tx d {} {} s s1"
    using bmap_mapped [OF D(1,3,5) b] by blast
  note f1 = blk_frameD [OF txD(1) [OF s1(3)]]
  have "?a \<notin> log_area (lstart s1)" using dblkD(4) [OF W(5) [OF b]] f1(1) by simp
  then obtain bp s2 where g: "bread d ?a s1 = Inr (bp, s2)" "log_inv d s2 {?a}" "cached s2 d ?a bp"
      "data (bufs s2 bp) = view d s1 ?a" "clean d s2 ?a" "tx d {} {} s1 s2"
    using tx_bread [OF s1(2) empty_not_in _ disjI1 [OF refl], of ?a] by blast
  have t: "tx d {} {} s s2" using tx_trans [OF s1(3) g(6)] by simp
  note f2 = blk_frameD [OF txD(1) [OF t]]
  have "\<exists>s4. brelse bp (s2\<lparr>pmem := pm\<rparr>) = Inr s4 \<and> reads d s s4 \<and> log_inv d s4 {} \<and> pmem s4 = pm" for pm
  proof -
    let ?s3 = "s2\<lparr>pmem := pm\<rparr>"
    have c: "cached ?s3 d ?a bp" "clean d ?s3 ?a" using g(3,5) by (simp_all add: cached_def clean_def)
    obtain s4 where r: "brelse bp ?s3 = Inr s4" "log_inv d s4 {}" "tx d {} {} ?s3 s4"
      using tx_brelse [of d ?s3 "{?a}" ?a bp] g(2) c by auto
    have "reads d s s4"
      using reads_trans [OF conjunct1 [OF tx_reads [OF t]] reads_trans [OF reads_pmem conjunct1 [OF tx_reads [OF r(3)]]]] .
    then show ?thesis using r blk_frameD(6) [OF txD(1) [OF r(3)]] by auto
  qed
  moreover have "take m (drop (off mod 1024) (data (bufs s2 bp))) = map (fbyte ?x ?V) [off..<off + m]"
    unfolding g(4) fslog.step_cont0 [OF s1(3)] by (rule chunk_bytes) (use m log_invD(14) [OF D(1)] in auto)
  ultimately show thesis
    using that s1(1) g(1) f1(5) D(5) f2(6,10) by simp
qed

definition file_bytes :: "inode \<Rightarrow> (u32 \<Rightarrow> block) \<Rightarrow> nat \<Rightarrow> nat \<Rightarrow> byte list" where
  "file_bytes x V off n = map (fbyte x V) [off..<off + n]"

lemma length_file_bytes [simp]: "length (file_bytes x V off n) = n"
  by (simp add: file_bytes_def)

lemma file_bytes_split: "m \<le> n \<Longrightarrow> file_bytes x V off n = file_bytes x V off m @ file_bytes x V (off + m) (n - m)"
  using upt_add_eq_append [of off "off + m" "n - m"] by (simp add: file_bytes_def)

lemma readi_loop_spec:
  assumes "iready d ip s" and "off + left \<le> unat (i_size (icache s ! ip))"
  shows "\<exists>tot s'. readi_loop ip u dst off left s = Inr (tot, s') \<and> reads d s s' \<and> log_inv d s' {} \<and> tot \<le> left \<and>
      (let (r, m) = copy_to u (mypagetable s) dst (file_bytes (icache s ! ip) (view d s) off left) (pmem s)
       in if r = 0 then tot = left \<and> pmem s' = m else tot < left)"
  using assms
proof (induction left arbitrary: dst off s rule: less_induct)
  case (less left)
  let ?x = "icache s ! ip" and ?V = "view d s" and ?pt = "mypagetable s"
  note D = ireadyD [OF less.prems(1)]
  show ?case
  proof (cases "left = 0")
    case True
    then show ?thesis
      using D(1) by (auto simp: readi_loop.simps [of ip u dst off 0 s] reads_def file_bytes_def copy_to_def)
  next
    case False
    define m where "m = min left (1024 - off mod 1024)"
    have m: "0 < m" "m \<le> left" using False by (simp_all add: m_def)
    have off: "off < unat (i_size ?x)" using less.prems(2) False by simp
    let ?bs = "file_bytes ?x ?V off m" and ?cs = "file_bytes ?x ?V (off + m) (left - m)"
    obtain s1 s2 bp where r: "bmap ip (off div 1024) s = Inr (imap ?x ?V (off div 1024), s1)"
        "bread (i_dev (icache s1 ! ip)) (imap ?x ?V (off div 1024)) s1 = Inr (bp, s2)"
        "take m (drop (off mod 1024) (data (bufs s2 bp))) = ?bs" "mypagetable s2 = ?pt" "pmem s2 = pmem s"
        "\<And>pm. \<exists>s4. brelse bp (s2\<lparr>pmem := pm\<rparr>) = Inr s4 \<and> reads d s s4 \<and> log_inv d s4 {} \<and> pmem s4 = pm"
      using readi_round [OF less.prems(1) off m_def] unfolding file_bytes_def by metis
    obtain r1 m1 where c1: "copy_to u ?pt dst ?bs (pmem s) = (r1, m1)" by fastforce
    obtain s4 where s4: "brelse bp (s2\<lparr>pmem := m1\<rparr>) = Inr s4" "reads d s s4" "log_inv d s4 {}" "pmem s4 = m1"
      using r(6) by blast
    have rl: "readi_loop ip u dst off left s =
        (if r1 = -1 then Inr (0, s4)
         else bindR (readi_loop ip u (dst + of_nat m) (off + m) (left - m) s4) (\<lambda>(tot, s5). Inr (m + tot, s5)))"
      using False r(1,2) s4(1) c1
      by (subst readi_loop.simps) (simp add: Let_def m_def [symmetric] either_copyout_mem r(3-5))
    have len: "length ?bs + length ?cs \<le> 2 ^ 64" using less.prems(2) iwfD(2) [OF D(3)] m by simp
    note app = copy_to_append [OF len, of u ?pt dst "pmem s", folded file_bytes_split [OF m(2)]]
    show ?thesis
    proof (cases "r1 = 0")
      case True
      have "left - m < left" "off + m + (left - m) \<le> unat (i_size (icache s4 ! ip))"
        using m less.prems(2) s4(2) by (auto simp: reads_def)
      from less.IH [OF this(1) reads_ready [OF s4(2,3) less.prems(1)] this(2), of "dst + of_nat m"]
      obtain tot s' where t: "readi_loop ip u (dst + of_nat m) (off + m) (left - m) s4 = Inr (tot, s')" "reads d s4 s'"
          "log_inv d s' {}" "tot \<le> left - m"
          "let (r, pm) = copy_to u ?pt (dst + of_nat m) ?cs m1 in if r = 0 then tot = left - m \<and> pmem s' = pm else tot < left - m"
        using s4(2,4) by (auto simp: reads_def fs_frame_def)
      have "readi_loop ip u dst off left s = Inr (m + tot, s')" using rl t(1) True by simp
      then show ?thesis
        using reads_trans [OF s4(2) t(2)] t(3-5) m True c1 app by (auto simp: Let_def split: prod.splits)
    next
      case False
      then have "r1 = -1" using copy_to_result [of u ?pt dst ?bs "pmem s"] c1 by simp
      then show ?thesis using rl s4(2,3) m c1 app by (auto simp: Let_def)
    qed
  qed
qed

section \<open>Writing\<close>

lemma copyin_bytes_add:
  "copyin_bytes pt va (m + n) s =
     (if snd (copyin_bytes pt va m s)
      then (fst (copyin_bytes pt va m s) @ fst (copyin_bytes pt (va + of_nat m) n s), snd (copyin_bytes pt (va + of_nat m) n s))
      else copyin_bytes pt va m s)"
  by (induction m arbitrary: va) (auto simp: case_prod_unfold Let_def ac_simps split: option.splits)

lemma copyin_bytes_ok: "snd (copyin_bytes pt va n s) \<Longrightarrow> length (fst (copyin_bytes pt va n s)) = n"
  by (induction n arbitrary: va) (auto simp: case_prod_unfold Let_def split: option.splits)

lemma bytes_at_add: "bytes_at m a (i + j) = bytes_at m a i @ bytes_at m (a + of_nat i) j"
  by (rule nth_equalityI) (auto simp: bytes_at_def nth_append of_nat_diff)

lemma either_copyin_split:
  assumes "either_copyin u src n s = (0, bs)" and "m \<le> n"
  shows "length bs = n" "either_copyin u src m s = (0, take m bs)"
    "either_copyin u (src + of_nat m) (n - m) s = (0, drop m bs)"
proof -
  have n: "m + (n - m) = n" using assms(2) by simp
  show l: "length bs = n"
    using assms(1) copyin_bytes_ok by (auto simp: either_copyin_def case_prod_unfold Let_def bytes_at_def split: if_splits)
  have B: "bytes_at (pmem s) src n = bytes_at (pmem s) src m @ bytes_at (pmem s) (src + of_nat m) (n - m)"
      "length (bytes_at (pmem s) src m) = m"
    using bytes_at_add [of "pmem s" src m "n - m"] unfolding n by (simp_all add: bytes_at_def)
  have "either_copyin u src m s = (0, take m bs) \<and> either_copyin u (src + of_nat m) (n - m) s = (0, drop m bs)"
  proof (cases u)
    case True
    then show ?thesis
      using assms(1) copyin_bytes_add [of "mypagetable s" src m "n - m" s] copyin_bytes_ok [of "mypagetable s" src m s]
      unfolding n by (auto simp: either_copyin_def case_prod_unfold Let_def split: if_splits)
  next
    case False
    then have "bs = bytes_at (pmem s) src m @ bytes_at (pmem s) (src + of_nat m) (n - m)"
      using assms(1) B by (simp add: either_copyin_def)
    then show ?thesis using False B(2) by (simp add: either_copyin_def)
  qed
  then show "either_copyin u src m s = (0, take m bs)" "either_copyin u (src + of_nat m) (n - m) s = (0, drop m bs)"
    by auto
qed

lemma either_copyin_cong:
  "pmem s' = pmem s \<Longrightarrow> mypagetable s' = mypagetable s \<Longrightarrow> either_copyin u src n s' = either_copyin u src n s"
proof -
  assume a: "pmem s' = pmem s" "mypagetable s' = mypagetable s"
  have "copyin_bytes pt va k s' = copyin_bytes pt va k s" for pt va k
    by (rule copyin_bytes_cong) (simp_all add: a)
  then show ?thesis by (simp add: either_copyin_def a)
qed

text \<open>One round: the block is found or allocated, its part written, logged and released.\<close>

lemma writei_round:
  assumes rd: "iready d ip s" and bn: "off div BSIZE < 268" and need: "bneed (icache s ! ip) (view d s) (off div BSIZE) \<le> nfree d s"
    and fit: "fits (bcost (icache s ! ip) (view d s) (off div BSIZE) + (k + 1)) (IX (icache s ! ip)) s"
    and bs: "off mod BSIZE + length bs \<le> BSIZE"
  obtains a s1 bp s2 s4 s5 where "bmap ip (off div BSIZE) s = Inr (a, s1)"
    "bread (i_dev (icache s1 ! ip)) a s1 = Inr (bp, s2)" "pmem s2 = pmem s" "mypagetable s2 = mypagetable s"
    "log_write bp (set_data bp (put_bytes (off mod BSIZE) bs (data (bufs s2 bp))) s2) = Inr s4" "brelse bp s4 = Inr s5"
    "fgrow d ip s s5" "fits (k + 1) (IX (icache s5 ! ip)) s5"
    "nfree d s = nfree d s5 + bneed (icache s ! ip) (view d s) (off div BSIZE)" "a \<noteq> 0"
    "\<And>i. i < 268 \<Longrightarrow> imap (icache s5 ! ip) (view d s5) i = (if i = off div BSIZE then a else imap (icache s ! ip) (view d s) i)"
    "view d s5 a = put_bytes (off mod BSIZE) bs (view d s1 a)"
    "\<And>b. dblk d s b \<Longrightarrow> b \<noteq> i_addrs (icache s ! ip) ! 12 \<Longrightarrow> b \<noteq> a \<Longrightarrow> view d s5 b = view d s b"
    "dblk d s a \<Longrightarrow> a \<noteq> i_addrs (icache s ! ip) ! 12 \<Longrightarrow> view d s1 a = view d s a"
    "i_addrs (icache s ! ip) ! 12 \<noteq> 0 \<or> off div BSIZE < 12 \<Longrightarrow> i_addrs (icache s5 ! ip) ! 12 = i_addrs (icache s ! ip) ! 12"
    "12 \<le> off div BSIZE \<Longrightarrow> i_addrs (icache s5 ! ip) ! 12 \<noteq> 0" "length (view d s1 a) = 1024"
proof -
  let ?x = "icache s ! ip" and ?V = "view d s" and ?bn = "off div 1024"
  obtain a s1 where r: "bmap ip ?bn s = Inr (a, s1)" "fgrow d ip s s1" "a \<noteq> 0"
    "fits (k + 1) (insert a (IX (icache s1 ! ip))) s1" "nfree d s = nfree d s1 + bneed ?x ?V ?bn"
    "\<And>i. i < 268 \<Longrightarrow> imap (icache s1 ! ip) (view d s1) i = (if i = ?bn then a else imap ?x ?V i)"
    "\<And>b. dblk d s b \<Longrightarrow> b \<noteq> i_addrs ?x ! 12 \<Longrightarrow> view d s1 b = ?V b"
    "i_addrs ?x ! 12 \<noteq> 0 \<or> ?bn < 12 \<Longrightarrow> i_addrs (icache s1 ! ip) ! 12 = i_addrs ?x ! 12"
    "12 \<le> ?bn \<Longrightarrow> i_addrs (icache s1 ! ip) ! 12 \<noteq> 0"
    using bmap_spec [OF rd bn need fit] by blast
  note rd1 = fgrow_ready(1) [OF rd r(2)]
  note D = ireadyD [OF rd1] and W = iwfD [OF ireadyD(3) [OF rd1]]
  have a: "imap (icache s1 ! ip) (view d s1) ?bn = a" using r(6) [OF bn] by simp
  have da: "dblk d s1 a" using W(5) [OF bn] a r(3) by simp
  obtain bp s2 where g: "bread d a s1 = Inr (bp, s2)" "log_inv d s2 {a}" "cached s2 d a bp"
      "data (bufs s2 bp) = view d s1 a" "tx d {} {} s1 s2"
    using tx_bread [OF D(1) empty_not_in dblkD(4) [OF da] disjI1 [OF refl]] by auto
  note f2 = blk_frameD [OF txD(1) [OF g(5)]] and f1 = fs_frame_sb [OF fgrowD(4) [OF r(2)]]
  have rm2: "room 1 s2"
    using tx_room [OF g(5) D(1) g(2), of 0 1] room_mono [OF fits_room [OF r(4) D(1)], of 1] by simp
  let ?v = "put_bytes (off mod 1024) bs (view d s1 a)"
  have lv: "length ?v = 1024" using bs log_invD(14) [OF D(1)] by simp
  obtain s4 s5 where u: "log_write bp (set_data bp ?v s2) = Inr s4" "brelse bp s4 = Inr s5" "log_inv d s5 {}"
      "tx d {} {a} s2 s5" "view d s5 = (view d s2)(a := ?v)"
    using fslog.update_held [OF g(2) empty_not_in g(3) rm2 lv] by blast
  have t: "tx d {} {a} s1 s5" using tx_trans [OF g(5) u(4)] by simp
  have gr: "fgrow d ip s1 s5" "imap (icache s5 ! ip) (view d s5) = imap (icache s1 ! ip) (view d s1)"
    using tx_fgrow [OF rd1 t u(3)] a bn r(3) by auto
  have v5: "view d s5 b = view d s1 b" if "b \<noteq> a" for b using txD(4) [OF t] that by simp
  have nf: "nfree d s5 = nfree d s1" by (rule tx_bitmap [OF t]) (use dblkD(5) [OF da] in simp)
  note f5 = blk_frameD [OF txD(1) [OF t]]
  have "fits (k + 1) (IX (icache s5 ! ip)) s5"
    by (rule fits_step [where j = 0 and W = "{a}" and X = "insert a (IX (icache s1 ! ip))"])
      (use r(4) t f5 in \<open>auto simp: tx_def blk_frame_def\<close>)
  moreover have "pmem s2 = pmem s" "mypagetable s2 = mypagetable s" using f2(6,10) fgrowD(5) [OF r(2)] f1(4) by simp_all
  moreover have "bread (i_dev (icache s1 ! ip)) a s1 = Inr (bp, s2)" using g(1) D(5) by simp
  ultimately show thesis
    using that [OF r(1)] u(1,2) g(4) fgrow_trans [OF r(2) gr(1)] nf r(3,5-9) gr(2) v5 f5(5) log_invD(14) [OF D(1)]
    by (simp add: u(5))
qed

text \<open>What a whole write costs: each block it touches, a bitmap block for each new one, and the
  indirect block with its bitmap block when there is none yet.\<close>

definition wcost :: "inode \<Rightarrow> (u32 \<Rightarrow> block) \<Rightarrow> nat \<Rightarrow> nat \<Rightarrow> nat" where
  "wcost x V off n = (if n = 0 then 0
     else (\<Sum>bn = off div BSIZE..<(off + n + (BSIZE - 1)) div BSIZE. if imap x V bn = 0 then 2 else 1) +
       (if i_addrs x ! NDIRECT = 0 \<and> NDIRECT * BSIZE < off + n then 2 else 0))"

definition wneed :: "inode \<Rightarrow> (u32 \<Rightarrow> block) \<Rightarrow> nat \<Rightarrow> nat \<Rightarrow> nat" where
  "wneed x V off n = (if n = 0 then 0
     else (\<Sum>bn = off div BSIZE..<(off + n + (BSIZE - 1)) div BSIZE. if imap x V bn = 0 then 1 else 0) +
       (if i_addrs x ! NDIRECT = 0 \<and> NDIRECT * BSIZE < off + n then 1 else 0))"

lemma next_block:
  assumes "m = min left (1024 - off mod 1024)" and "0 < left - m"
  shows "(off + m) div 1024 = Suc (off div 1024)" "off + m + (left - m) = off + left"
    "off div 1024 < (off + left + 1023) div 1024" "Suc (off div 1024) \<le> (off + left + 1023) div 1024"
proof -
  have "m = 1024 - off mod 1024" "m < left" using assms by auto
  moreover have "off mod 1024 < 1024" by simp
  ultimately have "m + off mod 1024 = 1024" by linarith
  then have e: "off + m = 1024 * Suc (off div 1024)" using mult_div_mod_eq [of 1024 off] unfolding mult_Suc_right by linarith
  then show "(off + m) div 1024 = Suc (off div 1024)" by simp
  show "off + m + (left - m) = off + left" using assms by simp
  have "1024 * Suc (off div 1024) \<le> off + left + 1023" using e \<open>m < left\<close> by linarith
  then show "Suc (off div 1024) \<le> (off + left + 1023) div 1024" by (simp add: less_eq_div_iff_mult_less_eq mult.commute)
  then show "off div 1024 < (off + left + 1023) div 1024" by simp
qed

lemma wcost_ge:
  assumes "0 < left" and "off + left \<le> 268 * 1024"
  shows "bcost x V (off div 1024) \<le> wcost x V off left" and "bneed x V (off div 1024) \<le> wneed x V off left"
proof -
  let ?b = "off div 1024" and ?e = "(off + left + 1023) div 1024"
  have "?b < ?e" using assms by linarith
  then have s: "(\<Sum>bn = ?b..<?e. f bn) = f ?b + (\<Sum>bn = Suc ?b..<?e. f bn)" for f :: "nat \<Rightarrow> nat"
    by (simp add: sum.atLeast_Suc_lessThan)
  have l: "12 * 1024 < off + left" if "12 \<le> ?b" using that assms(1) by linarith
  show "bcost x V ?b \<le> wcost x V off left" "bneed x V ?b \<le> wneed x V off left"
    using assms(1) l by (auto simp: wcost_def bcost_def wneed_def bneed_def s)
qed

lemma wcost_step:
  assumes m: "m = min left (1024 - off mod 1024)" "0 < left" and lim: "off + left \<le> 268 * 1024"
    and im: "\<And>i. i < 268 \<Longrightarrow> imap x' V' i = (if i = off div 1024 then a else imap x V i)"
    and i1: "i_addrs x ! 12 \<noteq> 0 \<or> off div 1024 < 12 \<Longrightarrow> i_addrs x' ! 12 = i_addrs x ! 12"
    and i2: "12 \<le> off div 1024 \<Longrightarrow> i_addrs x' ! 12 \<noteq> 0"
  shows "bcost x V (off div 1024) + wcost x' V' (off + m) (left - m) \<le> wcost x V off left"
    and "bneed x V (off div 1024) + wneed x' V' (off + m) (left - m) \<le> wneed x V off left"
proof -
  let ?b = "off div 1024" and ?e = "(off + left + 1023) div 1024"
  have be: "?b < ?e" "?e \<le> 268" using m(2) lim by linarith+
  have s: "(\<Sum>bn = ?b..<?e. f bn) = f ?b + (\<Sum>bn = Suc ?b..<?e. f bn)" for f :: "nat \<Rightarrow> nat"
    using be(1) by (simp add: sum.atLeast_Suc_lessThan)
  have c: "(\<Sum>bn = Suc ?b..<?e. if imap x' V' bn = 0 then p else q) = (\<Sum>bn = Suc ?b..<?e. if imap x V bn = 0 then p else q)"
    for p q :: nat
    by (rule sum.cong) (use im be(2) in auto)
  have u: "imap x V ?b = 0" if "12 \<le> ?b" "i_addrs x ! 12 = 0" using that by (simp add: imap_def)
  have l: "12 * 1024 < off + left" if "12 \<le> ?b" using that m(2) by linarith
  show "bcost x V ?b + wcost x' V' (off + m) (left - m) \<le> wcost x V off left"
  proof (cases "left - m = 0")
    case True
    then show ?thesis using m(2) l u by (auto simp: wcost_def bcost_def s)
  next
    case False
    note n = next_block [OF m(1)] 
    show ?thesis using False m(2) l u i1 i2 n by (auto simp: wcost_def bcost_def s c)
  qed
  show "bneed x V ?b + wneed x' V' (off + m) (left - m) \<le> wneed x V off left"
  proof (cases "left - m = 0")
    case True
    then show ?thesis using m(2) l u by (auto simp: wneed_def bneed_def s)
  next
    case False
    note n = next_block [OF m(1)] 
    show ?thesis using False m(2) l u i1 i2 n by (auto simp: wneed_def bneed_def s c)
  qed
qed

text \<open>The bytes from \<open>off\<close> on are \<open>bs\<close>, and every other byte of a block the file had is as
  before.\<close>

definition wrote :: "nat \<Rightarrow> byte list \<Rightarrow> inode \<Rightarrow> (u32 \<Rightarrow> block) \<Rightarrow> inode \<Rightarrow> (u32 \<Rightarrow> block) \<Rightarrow> bool" where
  "wrote off bs x V x' V' \<longleftrightarrow> (\<forall>i < MAXFILE * BSIZE.
     if off \<le> i \<and> i < off + length bs then imap x' V' (i div BSIZE) \<noteq> 0 \<and> fbyte x' V' i = bs ! (i - off)
     else imap x V (i div BSIZE) \<noteq> 0 \<longrightarrow> fbyte x' V' i = fbyte x V i)"

lemma wrote_trans:
  assumes a: "wrote off bs x V x1 V1" and b: "wrote (off + length bs) cs x1 V1 x2 V2"
    and m: "\<And>i. i < 268 \<Longrightarrow> imap x V i \<noteq> 0 \<Longrightarrow> imap x1 V1 i = imap x V i"
      "\<And>i. i < 268 \<Longrightarrow> imap x1 V1 i \<noteq> 0 \<Longrightarrow> imap x2 V2 i = imap x1 V1 i"
  shows "wrote off (bs @ cs) x V x2 V2"
  unfolding wrote_def
proof (intro allI impI)
  fix i :: nat assume i: "i < 268 * 1024"
  then have ib: "i div 1024 < 268" by simp
  note A = a [unfolded wrote_def, rule_format, OF i] and B = b [unfolded wrote_def, rule_format, OF i]
  show "if off \<le> i \<and> i < off + length (bs @ cs) then imap x2 V2 (i div 1024) \<noteq> 0 \<and> fbyte x2 V2 i = (bs @ cs) ! (i - off)
     else imap x V (i div 1024) \<noteq> 0 \<longrightarrow> fbyte x2 V2 i = fbyte x V i"
    using A B m [OF ib] by (auto simp: nth_append split: if_splits)
qed

lemma round_wrote:
  assumes wf: "iwf G V x" and wf': "iwf G' V' x'" and bn: "off div 1024 < 268" and bs: "off mod 1024 + length bs \<le> 1024"
    and im: "\<And>i. i < 268 \<Longrightarrow> imap x' V' i = (if i = off div 1024 then a else imap x V i)" and a0: "a \<noteq> 0"
    and keep: "imap x V (off div 1024) \<noteq> 0 \<Longrightarrow> a = imap x V (off div 1024)"
    and Va: "V' a = put_bytes (off mod 1024) bs u" "length u = 1024" "G a \<Longrightarrow> a \<noteq> i_addrs x ! 12 \<Longrightarrow> u = V a"
    and Vb: "\<And>b. G b \<Longrightarrow> b \<noteq> i_addrs x ! 12 \<Longrightarrow> b \<noteq> a \<Longrightarrow> V' b = V b"
  shows "wrote off bs x V x' V'"
  unfolding wrote_def
proof (intro allI impI)
  fix i :: nat assume "i < 268 * 1024"
  then have ib: "i div 1024 < 268" by simp
  let ?b = "off div 1024"
  show "if off \<le> i \<and> i < off + length bs then imap x' V' (i div 1024) \<noteq> 0 \<and> fbyte x' V' i = bs ! (i - off)
     else imap x V (i div 1024) \<noteq> 0 \<longrightarrow> fbyte x' V' i = fbyte x V i"
  proof (cases "i div 1024 = ?b")
    case True
    have eq: "i = 1024 * ?b + i mod 1024" "off = 1024 * ?b + off mod 1024" using True mult_div_mod_eq [of 1024] by metis+
    then have rng: "off \<le> i \<and> i < off + length bs \<longleftrightarrow> off mod 1024 \<le> i mod 1024 \<and> i mod 1024 < off mod 1024 + length bs"
      "i - off = i mod 1024 - off mod 1024" by linarith+
    have "u = V a" if "imap x V ?b \<noteq> 0" using Va(3) iwfD(5,6) [OF wf bn that] keep [OF that] by simp
    moreover have "fbyte x' V' i = put_bytes (off mod 1024) bs u ! (i mod 1024)"
      using im [OF bn] True Va(1) by (simp add: fbyte_def)
    ultimately show ?thesis
      using rng True bs Va(2) im [OF bn] a0 keep by (auto simp: nth_put_bytes fbyte_def)
  next
    case False
    have "\<not> (off \<le> i \<and> i < off + length bs)"
    proof
      assume o: "off \<le> i \<and> i < off + length bs"
      then have "off mod 1024 + (i - off) < 1024" using bs by linarith
      from in_block [OF this] o False show False by simp
    qed
    moreover have "fbyte x' V' i = fbyte x V i" if z: "imap x V (i div 1024) \<noteq> 0"
    proof -
      have i': "imap x' V' (i div 1024) = imap x V (i div 1024)" using im [OF ib] False by simp
      have "imap x V (i div 1024) \<noteq> a" using iwfD(8) [OF wf' ib bn] i' im [OF bn] z False by auto
      then have "V' (imap x V (i div 1024)) = V (imap x V (i div 1024))"
        using Vb iwfD(5,6) [OF wf ib z] by blast
      with i' show ?thesis by (simp add: fbyte_def)
    qed
    ultimately show ?thesis by auto
  qed
qed

lemma writei_loop_spec:
  assumes "iready d ip s" and "off + left \<le> 268 * 1024" and "either_copyin u src left s = (0, bs)"
    and "fits (wcost (icache s ! ip) (view d s) off left + (q + 1)) (IX (icache s ! ip)) s"
    and "wneed (icache s ! ip) (view d s) off left \<le> nfree d s"
  shows "\<exists>s'. writei_loop ip u src off left s = Inr (off + left, s') \<and> fgrow d ip s s' \<and> fits (q + 1) (IX (icache s' ! ip)) s' \<and>
      wrote off bs (icache s ! ip) (view d s) (icache s' ! ip) (view d s')"
  using assms
proof (induction left arbitrary: src off s bs rule: less_induct)
  case (less left)
  let ?x = "icache s ! ip" and ?V = "view d s"
  show ?case
  proof (cases "left = 0")
    case True
    then have "bs = []" using either_copyin_split(1) [OF less.prems(3), of 0] by simp
    moreover have "wrote off [] ?x ?V ?x ?V" by (auto simp: wrote_def)
    ultimately show ?thesis
      using True less.prems(1,4) fgrow_refl [of d ip s] by (simp add: writei_loop.simps [of ip u src off 0 s] wcost_def)
  next
    case False
    define m where "m = min left (1024 - off mod 1024)"
    have m: "0 < m" "m \<le> left" "off mod 1024 + m \<le> 1024" using False by (auto simp: m_def)
    have bn: "off div 1024 < 268" using less.prems(2) False by linarith
    note sp = either_copyin_split [OF less.prems(3) m(2)]
    let ?c1 = "take m bs" and ?c2 = "drop m bs" and ?bn = "off div 1024"
    have l1: "length ?c1 = m" using sp(1) m by simp
    have left: "0 < left" using False by simp
    note ge = wcost_ge [OF left less.prems(2), of ?x ?V]
    define k where "k = wcost ?x ?V off left - bcost ?x ?V ?bn + q"
    have fit: "fits (bcost ?x ?V ?bn + (k + 1)) (IX ?x) s" using less.prems(4) ge(1) by (simp add: k_def)
    obtain a s1 bp s2 s4 s5 where r: "bmap ip ?bn s = Inr (a, s1)" "bread (i_dev (icache s1 ! ip)) a s1 = Inr (bp, s2)"
        "pmem s2 = pmem s" "mypagetable s2 = mypagetable s"
        "log_write bp (set_data bp (put_bytes (off mod 1024) ?c1 (data (bufs s2 bp))) s2) = Inr s4" "brelse bp s4 = Inr s5"
        "fgrow d ip s s5" "fits (k + 1) (IX (icache s5 ! ip)) s5" "nfree d s = nfree d s5 + bneed ?x ?V ?bn" "a \<noteq> 0"
        "\<And>i. i < 268 \<Longrightarrow> imap (icache s5 ! ip) (view d s5) i = (if i = ?bn then a else imap ?x ?V i)"
        "view d s5 a = put_bytes (off mod 1024) ?c1 (view d s1 a)"
        "\<And>b. dblk d s b \<Longrightarrow> b \<noteq> i_addrs ?x ! 12 \<Longrightarrow> b \<noteq> a \<Longrightarrow> view d s5 b = ?V b"
        "dblk d s a \<Longrightarrow> a \<noteq> i_addrs ?x ! 12 \<Longrightarrow> view d s1 a = ?V a"
        "i_addrs ?x ! 12 \<noteq> 0 \<or> ?bn < 12 \<Longrightarrow> i_addrs (icache s5 ! ip) ! 12 = i_addrs ?x ! 12"
        "12 \<le> ?bn \<Longrightarrow> i_addrs (icache s5 ! ip) ! 12 \<noteq> 0" "length (view d s1 a) = 1024"
      using writei_round [OF less.prems(1) bn le_trans [OF ge(2) less.prems(5)] fit, of ?c1] m(3) l1 by (simp only:) blast
    note D = ireadyD [OF less.prems(1)] and rd5 = fgrow_ready(1) [OF less.prems(1) r(7)]
    have w1: "wrote off ?c1 ?x ?V (icache s5 ! ip) (view d s5)"
    proof (rule round_wrote [OF D(3) ireadyD(3) [OF rd5] bn _ _ r(10) _ r(12,17)])
      show "off mod 1024 + length ?c1 \<le> 1024" using m(3) l1 by simp
      show "a = imap ?x ?V ?bn" if "imap ?x ?V ?bn \<noteq> 0" using fgrowD(12) [OF r(7) bn that] r(11) [OF bn] by simp
    qed (use r(11,13,14) in blast)+
    note ws = wcost_step [OF m_def left less.prems(2), of "icache s5 ! ip" "view d s5" a ?x ?V]
    have ws: "bcost ?x ?V ?bn + wcost (icache s5 ! ip) (view d s5) (off + m) (left - m) \<le> wcost ?x ?V off left"
      "bneed ?x ?V ?bn + wneed (icache s5 ! ip) (view d s5) (off + m) (left - m) \<le> wneed ?x ?V off left"
      by (rule ws; use r(11,15,16) in blast)+
    have "either_copyin u (src + of_nat m) (left - m) s5 = (0, ?c2)"
      using sp(3) either_copyin_cong [of s5 s] fgrowD(4,5) [OF r(7)] fs_frame_sb(4) by metis
    moreover have "fits (wcost (icache s5 ! ip) (view d s5) (off + m) (left - m) + (q + 1)) (IX (icache s5 ! ip)) s5"
      using fits_mono [OF r(8)] ws(1) ge(1) by (simp add: k_def)
    moreover have "wneed (icache s5 ! ip) (view d s5) (off + m) (left - m) \<le> nfree d s5" using ws(2) r(9) less.prems(5) by simp
    moreover have "left - m < left" "off + m + (left - m) \<le> 268 * 1024" using m less.prems(2) by simp_all
    ultimately obtain s' where s': "writei_loop ip u (src + of_nat m) (off + m) (left - m) s5 = Inr (off + m + (left - m), s')"
        "fgrow d ip s5 s'" "fits (q + 1) (IX (icache s' ! ip)) s'"
        "wrote (off + m) ?c2 (icache s5 ! ip) (view d s5) (icache s' ! ip) (view d s')"
      using less.IH [OF _ rd5] by blast
    have "either_copyin u src m s2 = (0, ?c1)" using sp(2) either_copyin_cong [OF r(3,4)] by metis
    then have "writei_loop ip u src off left s = Inr (off + left, s')"
      using False r(1,2,5,6) s'(1) m(2) by (subst writei_loop.simps) (simp add: Let_def m_def [symmetric])
    moreover have "wrote off (?c1 @ ?c2) ?x ?V (icache s' ! ip) (view d s')"
      by (rule wrote_trans [OF w1]) (use l1 s'(4) fgrowD(12) [OF r(7)] fgrowD(12) [OF s'(2)] in auto)
    ultimately show ?thesis using fgrow_trans [OF r(7) s'(2)] s'(3) by auto
  qed
qed

end
