(* ===== verification/FileOps.thy ===== *)
theory FileOps
  imports FileData
begin

text \<open>
  Whole operations on the contents of a file: \<open>iupdate\<close>, \<open>readi\<close> and \<open>writei\<close> of
  \<open>kernel/fs.c\<close>, and what a write of \<open>filewrite\<close> takes of the log.
\<close>

section \<open>iupdate\<close>

lemma IBLOCK_off: "dino_off n + 64 \<le> 1024"
  by (simp add: dino_off_def)

lemma iupdate_spec:
  assumes rd: "iready d ip s" and n: "i_inum (icache s ! ip) < sb_ninodes (sb s)" and rm: "room 1 s"
  defines "ib \<equiv> IBLOCK (i_inum (icache s ! ip)) (sb s)"
  obtains s' where "iupdate ip s = Inr s'" "log_inv d s' {}" "tx d {} {ib} s s'" "iready d ip s'" "nfree d s' = nfree d s"
    "view d s' = (view d s)(ib := put_dinode (dino_off (i_inum (icache s ! ip))) (dinode_of (icache s ! ip)) (view d s ib))"
    "dblk d s' = dblk d s"
proof -
  let ?x = "icache s ! ip"
  let ?v = "put_dinode (dino_off (i_inum ?x)) (dinode_of ?x) (view d s ib)"
  note D = ireadyD [OF rd] and W = iwfD [OF ireadyD(3) [OF rd]]
  have ib: "ib \<notin> log_area (lstart s)" "\<And>b. b < sb_size (sb s) \<Longrightarrow> ib \<noteq> BBLOCK b (sb s)"
    using D(2) n unfolding layout_ok_def ib_def by blast+
  have lv: "length ?v = 1024"
    using log_invD(14) [OF D(1), of ib] W(1) IBLOCK_off [of "i_inum ?x"] by (simp add: dinode_of_def)
  obtain b s1 s2 s' where u: "bread d ib s = Inr (b, s1)" "data (bufs s1 b) = view d s ib"
      "log_write b (set_data b ?v s1) = Inr s2" "brelse b s2 = Inr s'" "log_inv d s' {}" "tx d {} {ib} s s'"
      "view d s' = (view d s)(ib := ?v)"
    by (rule fslog.update_blk [OF D(1) empty_not_in ib(1) disjI1 [OF refl] rm lv]) (rule that)
  have "iupdate ip s = Inr s'"
    using u(1-4) D(5) by (simp add: iupdate_def Let_def ib_def)
  moreover have b: "dblk d s' = dblk d s" "layout_ok d s' = layout_ok d s" "nfree d s' = nfree d s"
    by (rule tx_bitmap [OF u(6)], use ib(2) in simp)+
  moreover have "iready d ip s'"
  proof -
    note fr = blk_frameD [OF txD(1) [OF u(6)]]
    have nd: "\<not> dblk d s ib" using dblkD(6) n unfolding ib_def by blast
    have "iwf (dblk d s) (view d s') ?x"
    proof (cases "i_addrs ?x ! 12 = 0")
      case True
      then have e: "imap ?x (view d s') = imap ?x (view d s)" by (simp add: imap_def fun_eq_iff)
      show ?thesis using D(3) unfolding iwf_def e .
    next
      case False
      then have "i_addrs ?x ! 12 \<noteq> ib" using W(7) nd by blast
      then show ?thesis by (intro iwf_cong [OF D(3)]) (use W in \<open>auto simp: u(7)\<close>)
    qed
    then show ?thesis using D u(5) b fr(5) by (simp add: iready_def)
  qed
  ultimately show thesis using that u(5-7) by blast
qed

section \<open>writei\<close>

lemma sint_u32_small: "unat n < 2 ^ 31 \<Longrightarrow> sint (n :: u32) = int (unat n)"
proof -
  assume "unat n < 2 ^ 31"
  then have "nat (uint n) < 2147483648" unfolding nat_uint_eq by simp
  then have "uint n < 2147483648" by linarith
  moreover have "- 2147483648 \<le> uint n" by (rule order_trans [OF _ unsigned_greater_eq]) simp
  ultimately show ?thesis unfolding sint_uint by (subst signed_take_bit_int_eq_self) simp_all
qed

lemma wrote_cong:
  assumes w: "wrote off bs x V x1 V1" and m: "\<And>i. i < 268 \<Longrightarrow> imap x2 V2 i = imap x1 V1 i"
    and v: "\<And>i. i < 268 \<Longrightarrow> imap x1 V1 i \<noteq> 0 \<Longrightarrow> V2 (imap x1 V1 i) = V1 (imap x1 V1 i)"
    and k: "\<And>i. i < 268 \<Longrightarrow> imap x V i \<noteq> 0 \<Longrightarrow> imap x1 V1 i \<noteq> 0"
  shows "wrote off bs x V x2 V2"
  unfolding wrote_def
proof (intro allI impI)
  fix i :: nat assume i: "i < 268 * 1024"
  then have ib: "i div 1024 < 268" by simp
  have "fbyte x2 V2 i = fbyte x1 V1 i" if "imap x1 V1 (i div 1024) \<noteq> 0"
    using v [OF ib that] m [OF ib] by (simp add: fbyte_def)
  with w [unfolded wrote_def, rule_format, OF i] m [OF ib] k [OF ib]
  show "if off \<le> i \<and> i < off + length bs then imap x2 V2 (i div 1024) \<noteq> 0 \<and> fbyte x2 V2 i = bs ! (i - off)
     else imap x V (i div 1024) \<noteq> 0 \<longrightarrow> fbyte x2 V2 i = fbyte x V i"
    by (simp split: if_splits)
qed

lemma wrote_size:
  assumes w: "wrote off bs x V x1 V1" and wf: "iwf G V1 x1" and sz: "i_size x1 = i_size x" "off \<le> unat (i_size x)"
    and lim: "off + length bs \<le> 274432" and bn: "bn * 1024 < max (unat (i_size x)) (off + length bs)"
  shows "imap x1 V1 bn \<noteq> 0"
proof (cases "bn * 1024 < unat (i_size x)")
  case True
  then show ?thesis using iwfD(4) [OF wf] sz(1) by simp
next
  case False
  then have i: "off \<le> bn * 1024" "bn * 1024 < off + length bs" using bn sz(2) by auto
  then have "bn * 1024 < 268 * 1024" using lim by linarith
  from w [unfolded wrote_def, rule_format, OF this] i show ?thesis by simp
qed

lemma writei_spec:
  assumes rd: "iready d ip s" and n: "i_inum (icache s ! ip) < sb_ninodes (sb s)"
    and off: "off \<le> i_size (icache s ! ip)" "0 < n" "unat off + unat n \<le> 274432"
    and c: "either_copyin u src (unat n) s = (0, bs)"
    and fit: "fits (wcost (icache s ! ip) (view d s) (unat off) (unat n) + (q + 1)) (IX (icache s ! ip)) s"
    and need: "wneed (icache s ! ip) (view d s) (unat off) (unat n) \<le> nfree d s"
  obtains s' where "writei ip u src off n s = Inr (int (unat n), s')" "iready d ip s'" "fs_frame s s'" "pmem s' = pmem s"
    "wrote (unat off) bs (icache s ! ip) (view d s) (icache s' ! ip) (view d s')"
    "unat (i_size (icache s' ! ip)) = max (unat (i_size (icache s ! ip))) (unat off + unat n)"
    "\<exists>as. icache s' = (icache s)[ip := (icache s ! ip)\<lparr>i_addrs := as, i_size := i_size (icache s' ! ip)\<rparr>]"
    "\<And>m. dblk d s m \<Longrightarrow> m \<notin> own (icache s ! ip) (view d s) \<Longrightarrow> view d s' m = view d s m"
    "get_dinode (dino_off (i_inum (icache s ! ip))) (view d s' (IBLOCK (i_inum (icache s ! ip)) (sb s))) = dinode_of (icache s' ! ip)"
    "fits q {} s'"
proof -
  let ?x = "icache s ! ip" and ?V = "view d s" and ?o = "unat off" and ?n = "unat n"
  have lb: "length bs = ?n" using either_copyin_split(1) [OF c order_refl] .
  have "?o + ?n \<le> 268 * 1024" using off(3) by simp
  from writei_loop_spec [OF rd this c fit need] obtain s1 where s1:
      "writei_loop ip u src ?o ?n s = Inr (?o + ?n, s1)" "fgrow d ip s s1" "fits (q + 1) (IX (icache s1 ! ip)) s1"
      "wrote ?o bs ?x ?V (icache s1 ! ip) (view d s1)"
    by blast
  obtain as where as: "icache s1 = (icache s)[ip := ?x\<lparr>i_addrs := as\<rparr>]" using fgrowD(7) [OF s1(2)] by blast
  note D = ireadyD [OF rd] and rd1 = fgrow_ready(1) [OF rd s1(2)]
  note D1 = ireadyD [OF rd1]
  have x1: "icache s1 ! ip = ?x\<lparr>i_addrs := as\<rparr>" using as D(4) by simp
  let ?z = "if of_nat (?o + ?n) > i_size ?x then of_nat (?o + ?n) else i_size ?x"
  define s2 where "s2 = (if of_nat (?o + ?n) > i_size (icache s1 ! ip)
      then upd_inode ip (i_size_update (\<lambda>_. of_nat (?o + ?n))) s1 else s1)"
  have s2: "s2 = s1\<lparr>icache := (icache s)[ip := ?x\<lparr>i_addrs := as, i_size := ?z\<rparr>]\<rparr>"
    using as D(4) by (cases s1) (simp add: s2_def upd_inode_def)
  have u: "unat (of_nat (?o + ?n) :: u32) = ?o + ?n" using off(3) by (intro unat_of_nat_le) simp
  have z: "unat ?z = max (unat (i_size ?x)) (?o + ?n)" using u by (auto simp: word_less_nat_alt)
  have x2: "icache s2 ! ip = ?x\<lparr>i_addrs := as, i_size := ?z\<rparr>" using D(4) by (simp add: s2)
  have m2: "imap (icache s2 ! ip) (view d s1) = imap (icache s1 ! ip) (view d s1)"
    by (rule imap_cong) (simp_all add: x2 x1)
  have "\<forall>bn. bn * 1024 < max (unat (i_size ?x)) (?o + length bs) \<longrightarrow> imap (icache s1 ! ip) (view d s1) bn \<noteq> 0"
    using wrote_size [OF s1(4) D1(3)] off(1,3) lb x1 by (auto simp: word_le_nat_alt)
  then have "iwf (dblk d s1) (view d s1) (icache s2 ! ip)"
    by (intro iwf_cong [OF D1(3)]) (use x1 x2 z lb off(3) iwfD(2) [OF D(3)] iwfD(3) [OF D1(3)] in \<open>auto simp del: max_less_iff_conj\<close>)
  then have rd2: "iready d ip s2" using D1 D(4,5) x2 by (simp add: iready_def s2)
  have fr2: "fs_frame s s2" unfolding s2 using fs_frame_trans [OF fgrowD(4) [OF s1(2)] fs_frame_updates(1)] .
  have n2: "i_inum (icache s2 ! ip) < sb_ninodes (sb s2)" using n x2 fs_frame_sb(1) [OF fr2] by simp
  have "IX (icache s2 ! ip) = IX (icache s1 ! ip)" unfolding x1 x2 by (simp add: IX_def)
  then have fit2: "fits (q + 1) (IX (icache s2 ! ip)) s2" using s1(3) unfolding s2 by simp
  have "room 1 s2" using room_mono [OF fits_room [OF fit2 ireadyD(1) [OF rd2]], of 1] by simp
  from iupdate_spec [OF rd2 n2 this]
  obtain s' where s': "iupdate ip s2 = Inr s'" "log_inv d s' {}" "tx d {} {IBLOCK (i_inum ?x) (sb s)} s2 s'" "iready d ip s'"
      "view d s' = (view d s2)(IBLOCK (i_inum ?x) (sb s) :=
        put_dinode (dino_off (i_inum ?x)) (dinode_of (icache s2 ! ip)) (view d s2 (IBLOCK (i_inum ?x) (sb s))))"
    using x2 fs_frame_sb(1) [OF fr2] by auto
  note f' = blk_frameD [OF txD(1) [OF s'(3)]]
  have nd: "a \<noteq> IBLOCK (i_inum ?x) (sb s)" if "dblk d s1 a" for a
    using dblkD(6) [OF that] n fs_frame_sb(1) [OF fgrowD(4) [OF s1(2)]] by simp
  have V': "view d s' a = view d s1 a" if "dblk d s1 a" for a using nd [OF that] by (simp add: s'(5) s2)
  have w: "writei ip u src off n s = Inr (int ?n, s')"
  proof -
    have "\<not> off > i_size ?x" using off(1) by simp
    moreover have "\<not> off + n < off" "\<not> off + n > of_nat (268 * 1024)"
      using off(3) unat_add_no_wrap [of off n] by (simp_all add: word_less_nat_alt)
    moreover have "sint n = int ?n" using off(3) by (intro sint_u32_small) simp
    ultimately show ?thesis
      using s1(1) s'(1) [unfolded s2_def] off(2) by (simp add: writei_def split: if_splits)
  qed
  have k: "imap (icache s1 ! ip) (view d s1) i \<noteq> 0" if "i < 268" "imap ?x ?V i \<noteq> 0" for i
    using fgrowD(12) [OF s1(2) that] that(2) by simp
  have mi: "imap (icache s' ! ip) (view d s') i = imap (icache s1 ! ip) (view d s1) i" for i
    using V' [OF iwfD(7) [OF D1(3)]] x1 x2 f'(5) by (simp add: imap_def)
  have "wrote ?o bs ?x ?V (icache s' ! ip) (view d s')"
    by (rule wrote_cong [OF s1(4) mi]) (use V' iwfD(5) [OF D1(3)] k in blast)+
  moreover have "view d s' m = ?V m" if "dblk d s m" "m \<notin> own ?x ?V" for m
    using fgrowD(8,9) [OF s1(2)] that V' by simp
  moreover have "get_dinode (dino_off (i_inum ?x)) (view d s' (IBLOCK (i_inum ?x) (sb s))) = dinode_of (icache s' ! ip)"
    unfolding s'(5) f'(5) using iwfD(1) [OF ireadyD(3) [OF rd2]] IBLOCK_off [of "i_inum ?x"] log_invD(14) [OF ireadyD(1) [OF rd2]]
    by (simp add: get_put_dinode dinode_of_def)
  moreover have "fits q {} s'"
    by (rule fits_step [where j = 1 and W = "{IBLOCK (i_inum ?x) (sb s)}" and X = "IX (icache s2 ! ip)" and s = s2])
      (use fit2 s'(3) card_mono [of "{IBLOCK (i_inum ?x) (sb s)}" "{IBLOCK (i_inum ?x) (sb s)} - IX (icache s2 ! ip)"] in
        \<open>auto simp: tx_def blk_frame_def\<close>)
  ultimately show thesis
    using that [OF w s'(4)] fs_frame_trans [OF fr2] txD(1) [OF s'(3)] f'(5,6) x2 z fgrowD(5) [OF s1(2)]
    by (auto simp: s2 blk_frame_def)
qed

section \<open>readi\<close>

lemma readi_spec:
  fixes off n :: u32
  assumes rd: "iready d ip s"
  defines "k \<equiv> if off > i_size (icache s ! ip) \<or> off + n < off then 0
      else min (unat n) (unat (i_size (icache s ! ip)) - unat off)"
  obtains tot s' where "readi ip u dst off n s = Inr (int tot, s')" "reads d s s'" "log_inv d s' {}"
    "let (r, t) = either_copyout u dst (file_bytes (icache s ! ip) (view d s) (unat off) k) s
     in if r = 0 then tot = k \<and> pmem s' = pmem t else tot < k"
proof (cases "off > i_size (icache s ! ip) \<or> off + n < off")
  case True
  then have "readi ip u dst off n s = Inr (int 0, s)" by (auto simp: readi_def Let_def)
  with True show thesis
    using that [of 0 s] ireadyD(1) [OF rd] by (simp add: k_def reads_def file_bytes_def either_copyout_mem copy_to_def)
next
  case False
  let ?x = "icache s ! ip"
  let ?n = "if off + n > i_size ?x then i_size ?x - off else n"
  have le: "unat off \<le> unat (i_size ?x)" "unat (off + n) = unat off + unat n"
    using False no_olen_add_nat [of off n] unat_plus_if' [of off n] by (auto simp: word_le_nat_alt word_less_nat_alt not_less split: if_splits)
  then have n: "unat ?n = k" using False by (auto simp: k_def word_less_nat_alt unat_sub_if_size word_le_nat_alt)
  have "unat off + k \<le> unat (i_size ?x)" using le False by (auto simp: k_def)
  from readi_loop_spec [OF rd this, of u dst] obtain tot s' where r:
    "readi_loop ip u dst (unat off) k s = Inr (tot, s')" "reads d s s'" "log_inv d s' {}" "tot \<le> k"
    "let (r, m) = copy_to u (mypagetable s) dst (file_bytes ?x (view d s) (unat off) k) (pmem s)
     in if r = 0 then tot = k \<and> pmem s' = m else tot < k"
    by blast
  have "readi ip u dst off n s = Inr (int tot, s')" using False r(1) n by (simp add: readi_def Let_def)
  from that [OF this r(2,3)] r(5) show thesis by (simp add: either_copyout_mem case_prod_unfold Let_def)
qed

section \<open>The size of a write\<close>

lemma card_IX: "card (IX x) \<le> 1" "i_addrs x ! 12 = 0 \<Longrightarrow> IX x = {}"
  by (simp_all add: IX_def)

lemma wcost_bound:
  assumes wf: "iwf G V x" and off: "off \<le> unat (i_size x)" and n: "0 < n" "n \<le> 3072"
  shows "wcost x V off n + card (IX x) + 1 \<le> 10"
proof -
  let ?b = "off div 1024" and ?e = "(off + n + 1023) div 1024"
  let ?f = "\<lambda>bn. if imap x V bn = 0 then 2 else 1 :: nat"
  have be: "?b < ?e" "?e \<le> ?b + 4" using n by linarith+
  have s: "(\<Sum>bn = ?b..<?e. ?f bn) = ?f ?b + (\<Sum>bn = Suc ?b..<?e. ?f bn)"
    using be(1) by (simp add: sum.atLeast_Suc_lessThan)
  have r: "(\<Sum>bn = Suc ?b..<?e. ?f bn) \<le> 2 * (?e - Suc ?b)"
  proof -
    have "(\<Sum>bn = Suc ?b..<?e. ?f bn) \<le> (\<Sum>bn = Suc ?b..<?e. 2)" by (rule sum_mono) simp
    then show ?thesis by simp
  qed
  have "(\<Sum>bn = ?b..<?e. ?f bn) \<le> 7"
  proof (cases "off mod 1024 = 0")
    case True
    then have "?e \<le> ?b + 3" using n mult_div_mod_eq [of 1024 off] by linarith
    then have "2 * (?e - Suc ?b) \<le> 4" by simp
    then show ?thesis using s r by (simp split: if_splits)
  next
    case False
    then have "?b * 1024 < unat (i_size x)" using off mult_div_mod_eq [of 1024 off] by linarith
    then have "imap x V ?b \<noteq> 0" by (rule iwfD(4) [OF wf])
    moreover have "2 * (?e - Suc ?b) \<le> 6" using be by simp
    ultimately show ?thesis using s r by simp
  qed
  then show ?thesis using n(1) card_IX [of x] by (cases "i_addrs x ! 12 = 0") (simp_all add: wcost_def)
qed

section \<open>A write whose copy fails\<close>

text \<open>The first round of a write from an address that is not mapped: the block is released as it was and
  the loop ends.\<close>

lemma writei_loop_fault:
  assumes rd: "iready d ip s" and off: "off < unat (i_size (icache s ! ip))" and left: "0 < left"
    and f: "uaddr (pmem s) (mypagetable s) src = None"
  obtains s' where "writei_loop ip True src off left s = Inr (off, s')" "reads d s s'" "log_inv d s' {}" "pmem s' = pmem s"
proof -
  let ?x = "icache s ! ip" and ?V = "view d s"
  let ?a = "imap ?x ?V (off div 1024)"
  note D = ireadyD [OF rd] and W = iwfD [OF ireadyD(3) [OF rd]]
  have b: "off div 1024 < 268" "?a \<noteq> 0" using off W(2) W(4) [of "off div 1024"] by auto
  obtain s1 where s1: "bmap ip (off div 1024) s = Inr (?a, s1)" "log_inv d s1 {}" "tx d {} {} s s1"
    using bmap_mapped [OF D(1,3,5) b] by blast
  note f1 = blk_frameD [OF txD(1) [OF s1(3)]]
  have "?a \<notin> log_area (lstart s1)" using dblkD(4) [OF W(5) [OF b]] f1(1) by simp
  then obtain bp s2 where g: "bread d ?a s1 = Inr (bp, s2)" "log_inv d s2 {?a}" "cached s2 d ?a bp"
      "data (bufs s2 bp) = view d s1 ?a" "clean d s2 ?a" "tx d {} {} s1 s2"
    using tx_bread [OF s1(2) empty_not_in _ disjI1 [OF refl], of ?a] by blast
  have t: "tx d {} {} s s2" using tx_trans [OF s1(3) g(6)] by simp
  note f2 = blk_frameD [OF txD(1) [OF t]]
  have s3: "set_data bp (put_bytes k [] (data (bufs s2 bp))) s2 = s2" for k
    by (simp add: put_bytes_def set_data_def upd_buf_def)
  obtain s4 where r: "brelse bp s2 = Inr s4" "log_inv d s4 {}" "tx d {} {} s2 s4"
    using tx_brelse [OF g(2) insertI1 g(3,5)] by auto
  let ?m = "min left (1024 - off mod 1024)"
  obtain k where k: "?m = Suc k" using left by (cases ?m) auto
  have "either_copyin True src ?m s2 = (-1, [])" unfolding k using f f2(6,10) by (simp add: either_copyin_def)
  then have "writei_loop ip True src off left s = Inr (off, s4)"
    using left s1(1) g(1) f1(5) D(5) r(1) s3 by (subst writei_loop.simps) (simp add: Let_def)
  moreover have "reads d s s4"
    using reads_trans [OF conjunct1 [OF tx_reads [OF t]] conjunct1 [OF tx_reads [OF r(3)]]] .
  ultimately show thesis using that r(2) blk_frameD(6) [OF txD(1) [OF r(3)]] f2(6) by simp
qed

section \<open>A file of the small file system\<close>

lemma ex_fs_IBLOCK: "i < sb_ninodes (sb ex_fs) \<Longrightarrow> unat (IBLOCK i (sb ex_fs)) < 45 \<and> 32 \<le> unat (IBLOCK i (sb ex_fs))"
proof -
  assume "i < sb_ninodes (sb ex_fs)"
  then have "unat i div 16 < 13" by (simp add: ex_fs0_def word_less_nat_alt)
  moreover have "unat (IBLOCK i (sb ex_fs)) = unat i div 16 + 32"
    using calculation unat_add_no_wrap [of "i div 16" 32] by (simp add: IBLOCK_def ex_fs0_def unat_div_distrib)
  ultimately show ?thesis by simp
qed

lemma ex_fs_size: "b < sb_size (sb ex_fs) \<Longrightarrow> unat b < 8192"
  by (simp add: ex_fs0_def word_less_nat_alt)

lemma ex_fs_layout: "layout_ok 1 ex_fs"
  unfolding layout_ok_def
proof (intro conjI allI impI)
  show "bused 1 ex_fs 0" using ex_fs_bused [of 0] by simp
  show "0 < sb_size (sb ex_fs)" by (simp add: ex_fs0_def)
  fix i assume i: "i < sb_ninodes (sb ex_fs)"
  note I = ex_fs_IBLOCK [OF i]
  show "IBLOCK i (sb ex_fs) \<notin> log_area (lstart ex_fs)" using I log_area_2 [of "IBLOCK i (sb ex_fs)"] by auto
  show "bused 1 ex_fs (IBLOCK i (sb ex_fs))" using ex_fs_bused [of "IBLOCK i (sb ex_fs)"] I by simp
  show "IBLOCK i (sb ex_fs) \<noteq> BBLOCK b (sb ex_fs)" if "b < sb_size (sb ex_fs)" for b
    using I ex_fs_BBLOCK [OF ex_fs_size [OF that]] by auto
qed (rule ex_fs_bitmap)

lemma ex_fs_dblk: "45 < unat a \<Longrightarrow> unat a < 72 \<Longrightarrow> dblk 1 ex_fs a"
  unfolding dblk_def
proof (intro conjI allI impI)
  assume a: "45 < unat a" "unat a < 72"
  then show "a \<noteq> 0" "a < sb_size (sb ex_fs)" by (auto simp: ex_fs0_def word_less_nat_alt)
  show "bused 1 ex_fs a" using ex_fs_bused [of a] a by simp
  show "a \<notin> log_area (lstart ex_fs)" using log_area_2 [of a] a by auto
  show "a \<noteq> BBLOCK b (sb ex_fs)" if "b < sb_size (sb ex_fs)" for b
    using a ex_fs_BBLOCK [OF ex_fs_size [OF that]] by auto
  show "a \<noteq> IBLOCK i (sb ex_fs)" if "i < sb_ninodes (sb ex_fs)" for i using ex_fs_IBLOCK [OF that] a by auto
qed

lemma ex_inodes:
  "icache ex_fs ! 0 = ex_inode 1 1 T_DIR 48 [48]" "icache ex_fs ! 1 = ex_inode 5 1 T_FILE 1500 [46, 47]"
  "icache ex_fs0 ! 0 = ex_inode 1 1 T_DIR 48 [48]" "icache ex_fs0 ! Suc 0 = ex_inode 5 1 T_FILE 1500 [46, 47]"
  by (simp_all add: ex_fs0_def)

lemma ex_inode_fields [simp]:
  "i_size (ex_inode n r t z as) = z" "i_inum (ex_inode n r t z as) = n" "i_dev (ex_inode n r t z as) = 1"
  "i_type (ex_inode n r t z as) = t" "i_addrs (ex_inode n r t z as) = as @ replicate (13 - length as) 0"
  "i_ref (ex_inode n r t z as) = r" "i_valid (ex_inode n r t z as) = (r > 0)" "i_lock (ex_inode n r t z as) = initsleeplock"
  by (simp_all add: ex_inode_def)

lemma nth_file_bytes: "i < n \<Longrightarrow> file_bytes x V off n ! i = fbyte x V (off + i)"
  by (simp add: file_bytes_def)

lemma upto_one: "{Suc 0..<2} = {Suc 0}"
  by auto

lemma ex_imap:
  "imap (ex_inode 5 1 T_FILE 1500 [46, 47]) V bn = (if bn = 0 then 46 else if bn = 1 then 47 else 0)"
  "imap (ex_inode 1 1 T_DIR 48 [48]) V bn = (if bn = 0 then 48 else 0)"
  by (auto simp: imap_def nth_Cons' nth_append)

lemma ex_fs_file: "iready 1 1 ex_fs" "iready 1 0 ex_fs"
proof -
  have "\<not> dblk 1 ex_fs 0" by (simp add: dblk_def)
  then have "iwf (dblk 1 ex_fs) V (ex_inode 5 1 T_FILE 1500 [46, 47])" "iwf (dblk 1 ex_fs) V (ex_inode 1 1 T_DIR 48 [48])" for V
    using ex_fs_dblk by (auto intro!: iwfI simp: ex_imap nth_append split: if_splits)
  then show "iready 1 1 ex_fs" "iready 1 0 ex_fs"
    using ex_fs_inv ex_fs_layout unfolding iready_def ex_inodes by (auto simp: ex_fs0_def)
qed

lemma ex_sb: "sb_ninodes (sb ex_fs0) = 200" "sb_size (sb ex_fs0) = 1000"
  by (simp_all add: ex_fs0_def)

lemma ex_fs_uaddr: "uaddr (pmem ex_fs) (mypagetable ex_fs) 0 = None"
proof -
  have "word_of_bytes (replicate j 0) = (0 :: u64)" for j by (induction j) simp_all
  then have "load64 (\<lambda>_. 0) a = 0" for a by (simp add: load64_def bytes_at_def map_replicate_const)
  then show ?thesis by (simp add: uaddr_def pte_of_def Let_def valid_pte_def split: option.splits)
qed

section \<open>Properties\<close>

text \<open>Property C21. \<open>readi\<close> on an inode that satisfies the invariant. It reads the bytes of the
  file from \<open>off\<close> on, as many as were asked for and the file has (none when \<open>off\<close> is past the end
  or \<open>off + n\<close> wraps), into the memory of the kernel or of the process, as \<open>either_copyout\<close> of
  these bytes at once would, and returns their number; when the copy fails it returns less. It never
  panics and changes neither the file nor any other block.\<close>

theorem readi_correct:
  assumes "iready d ip s"
  shows "\<exists>tot s'. readi ip u dst off n s = Inr (int tot, s') \<and> view d s' = view d s \<and> icache s' = icache s \<and> log_inv d s' {} \<and>
    (let sz = i_size (icache s ! ip);
         k = (if off > sz \<or> off + n < off then 0 else min (unat n) (unat sz - unat off));
         (r, t) = either_copyout u dst (file_bytes (icache s ! ip) (view d s) (unat off) k) s
     in if r = 0 then tot = k \<and> pmem s' = pmem t else tot < k)"
  by (rule readi_spec [OF assms, of u dst off n]) (auto simp: reads_def Let_def)

theorem readi_correct_witness:
  "\<exists>s'. readi 1 False 8192 100 50 ex_fs = Inr (50, s') \<and> view 1 s' = ex_disk \<and> bytes_at (pmem s') 8192 50 = replicate 50 7"
proof -
  have b: "file_bytes (icache ex_fs ! 1) ex_disk 100 50 = replicate 50 7"
    unfolding ex_inodes by (rule nth_equalityI) (simp_all add: nth_file_bytes fbyte_def ex_imap ex_disk_def)
  have z: "i_size (icache ex_fs ! 1) = 1500" unfolding ex_inodes by simp
  show ?thesis
    using readi_correct [OF ex_fs_file(1), of False 8192 100 50] b bytes_at_store_bytes [of "replicate 50 7" "\<lambda>_. 0" 8192]
    unfolding z by (auto simp: either_copyout_def)
qed

text \<open>Property C2. What is written is read back: a \<open>writei\<close> of \<open>n\<close> bytes at an offset that is
  not past the end of the file, in a transaction with room for the blocks it touches, on a disk with
  enough free blocks, returns \<open>n\<close>; a \<open>readi\<close> of the same range then returns these bytes. Every
  other byte of the file is as before, its size is the larger of the old one and the end of the
  write, and no block of another file changes.\<close>

theorem writei_readi:
  assumes rd: "iready d ip s" and n: "i_inum (icache s ! ip) < sb_ninodes (sb s)"
    and off: "off \<le> i_size (icache s ! ip)" "0 < n" "unat off + unat n \<le> MAXFILE * BSIZE"
    and c: "either_copyin u src (unat n) s = (0, bs)"
    and rm: "room (wcost (icache s ! ip) (view d s) (unat off) (unat n) + 2) s"
    and need: "wneed (icache s ! ip) (view d s) (unat off) (unat n) \<le> nfree d s"
  shows "\<exists>s' t. writei ip u src off n s = Inr (int (unat n), s') \<and> iready d ip s' \<and>
    readi ip False dst off n s' = Inr (int (unat n), t) \<and> bytes_at (pmem t) dst (unat n) = bs \<and>
    unat (i_size (icache s' ! ip)) = max (unat (i_size (icache s ! ip))) (unat off + unat n) \<and>
    (\<forall>i < unat (i_size (icache s ! ip)). i < unat off \<or> unat off + unat n \<le> i \<longrightarrow>
       fbyte (icache s' ! ip) (view d s') i = fbyte (icache s ! ip) (view d s) i) \<and>
    (\<forall>m. dblk d s m \<and> m \<notin> own (icache s ! ip) (view d s) \<longrightarrow> view d s' m = view d s m)"
proof -
  let ?x = "icache s ! ip" and ?V = "view d s" and ?o = "unat off" and ?n = "unat n"
  note D = ireadyD [OF rd]
  have lb: "length bs = ?n" using either_copyin_split(1) [OF c order_refl] .
  have "fits (1 + (wcost ?x ?V ?o ?n + 1)) {} s" using room_fits [OF _ D(1), of "wcost ?x ?V ?o ?n + 1"] rm by simp
  then have fit: "fits (wcost ?x ?V ?o ?n + (0 + 1)) (IX ?x) s"
    using fits_step [of 1 "wcost ?x ?V ?o ?n + 1" "{}" s s "{}" "IX ?x"] card_IX(1) [of ?x] by simp
  have o: "?o + ?n \<le> 274432" using off(3) by simp
  obtain s' where w: "writei ip u src off n s = Inr (int ?n, s')" "iready d ip s'" "wrote ?o bs ?x ?V (icache s' ! ip) (view d s')"
      "unat (i_size (icache s' ! ip)) = max (unat (i_size ?x)) (?o + ?n)"
      "\<And>m. dblk d s m \<Longrightarrow> m \<notin> own ?x ?V \<Longrightarrow> view d s' m = ?V m"
    using writei_spec [OF rd n off(1,2) o c fit need] by blast
  let ?x' = "icache s' ! ip" and ?V' = "view d s'"
  note W = w(3) [unfolded wrote_def, rule_format]
  have "\<not> off > i_size ?x'" "\<not> off + n < off" "min ?n (unat (i_size ?x') - ?o) = ?n"
    using off(1) o w(4) unat_add_no_wrap [of off n] by (simp_all add: word_less_nat_alt word_le_nat_alt)
  then obtain t where t: "readi ip False dst off n s' = Inr (int ?n, t)" "pmem t = store_bytes (pmem s') dst (file_bytes ?x' ?V' ?o ?n)"
    using readi_spec [OF w(2), of False dst off n] by (auto simp: either_copyout_def)
  have "file_bytes ?x' ?V' ?o ?n = bs"
  proof (rule nth_equalityI)
    fix i assume "i < length (file_bytes ?x' ?V' ?o ?n)"
    then have i: "i < ?n" by simp
    then show "file_bytes ?x' ?V' ?o ?n ! i = bs ! i" using W [of "?o + i"] o lb by (simp add: file_bytes_def)
  qed (simp add: lb)
  then have "bytes_at (pmem t) dst ?n = bs" using t(2) lb o bytes_at_store_bytes [of bs "pmem s'" dst] by simp
  moreover have "fbyte ?x' ?V' i = fbyte ?x ?V i" if i: "i < unat (i_size ?x)" "i < ?o \<or> ?o + ?n \<le> i" for i
  proof -
    have "i div 1024 * 1024 < unat (i_size ?x)" using i(1) by linarith
    then have "imap ?x ?V (i div 1024) \<noteq> 0" by (rule iwfD(4) [OF D(3)])
    moreover have "i < 268 * 1024" using i(1) iwfD(2) [OF D(3)] by linarith
    ultimately show ?thesis using W [of i] i(2) lb by (auto split: if_splits)
  qed
  ultimately show ?thesis using w t(1) by blast
qed

theorem writei_readi_witness:
  "\<exists>s' t. writei 1 False 0 1400 200 ex_fs = Inr (200, s') \<and> readi 1 False 8192 1400 200 s' = Inr (200, t) \<and>
    bytes_at (pmem t) 8192 200 = replicate 200 0 \<and> unat (i_size (icache s' ! 1)) = 1600"
proof -
  have c: "either_copyin False 0 (unat (200 :: u32)) ex_fs = (0, replicate 200 0)"
    by (simp add: either_copyin_def bytes_at_def map_replicate_const)
  have w: "wcost (icache ex_fs ! 1) (view 1 ex_fs) (unat (1400 :: u32)) (unat (200 :: u32)) = 1"
    "wneed (icache ex_fs ! 1) (view 1 ex_fs) (unat (1400 :: u32)) (unat (200 :: u32)) = 0"
    unfolding ex_inodes by (simp_all add: wcost_def wneed_def ex_imap upto_one)
  show ?thesis
    using writei_readi [OF ex_fs_file(1) _ _ _ _ c, where off = 1400 and dst = 8192] w ex_fs_room [of "Suc (Suc (Suc 0))"]
    by (auto simp: ex_inodes ex_sb)
qed

text \<open>Property C22. The chunk size of \<open>filewrite\<close> fits the reservation of \<open>begin_op\<close>: a
  \<open>writei\<close> of at most \<open>((MAXOPBLOCKS-1-1-2)/2)*BSIZE\<close> = 3072 bytes, aligned or not, adds at
  most \<open>MAXOPBLOCKS\<close> = 10 blocks to the log, so with room for ten blocks it does not panic.\<close>

theorem writei_log_bound:
  assumes rd: "iready d ip s" and n: "i_inum (icache s ! ip) < sb_ninodes (sb s)"
    and off: "off \<le> i_size (icache s ! ip)" "0 < n" "unat n \<le> 3 * BSIZE" "unat off + unat n \<le> MAXFILE * BSIZE"
    and c: "either_copyin u src (unat n) s = (0, bs)"
    and rm: "room (nat MAXOPBLOCKS) s" "30 \<le> lsize s"
    and need: "wneed (icache s ! ip) (view d s) (unat off) (unat n) \<le> nfree d s"
  shows "\<exists>s'. writei ip u src off n s = Inr (int (unat n), s') \<and> lh_n s' \<le> lh_n s + MAXOPBLOCKS"
proof -
  let ?x = "icache s ! ip" and ?w = "wcost (icache s ! ip) (view d s) (unat off) (unat n)"
  note D = ireadyD [OF rd]
  have o: "unat off + unat n \<le> 274432" "0 < unat n" "unat n \<le> 3072" using off by (simp_all add: unat_gt_0)
  have b: "?w + card (IX ?x) + 1 \<le> 10"
    using wcost_bound [OF D(3) _ o(2,3)] off(1) by (simp add: word_le_nat_alt)
  define c0 where "c0 = card (set (log_home s) \<union> IX ?x)"
  have l: "card (set (log_home s)) = nat (lh_n s)" using distinct_card [OF log_invD(6) [OF D(1)]] log_invD(12) [OF D(1)] by simp
  have c0: "c0 \<le> nat (lh_n s) + card (IX ?x)" using card_Un_le [of "set (log_home s)" "IX ?x"] l by (simp add: c0_def)
  have h: "lh_n s + 10 \<le> 29" "0 \<le> lh_n s" "1 \<le> outstanding s" using rm log_invD(4) [OF D(1)] by (simp_all add: room_def)
  define q where "q = 29 - (c0 + ?w + 1)"
  have "fits (?w + (q + 1)) (IX ?x) s"
    using c0 b h rm(2) unfolding fits_def c0_def [symmetric] q_def by simp
  from writei_spec [OF rd n off(1,2) o(1) c this need]
  obtain s' where s': "writei ip u src off n s = Inr (int (unat n), s')" "iready d ip s'" "fits q {} s'" by blast
  have "card (set (log_home s')) = nat (lh_n s')" "0 \<le> lh_n s'"
    using distinct_card [OF log_invD(6) [OF ireadyD(1) [OF s'(2)]]] log_invD(4,12) [OF ireadyD(1) [OF s'(2)]] by simp_all
  moreover from this have "nat (lh_n s') + q \<le> 29" using s'(3) by (simp add: fits_def)
  moreover have "q + (c0 + ?w + 1) = 29" using c0 b h by (simp add: q_def)
  ultimately have "lh_n s' \<le> lh_n s + 10" using c0 b h by linarith
  with s'(1) show ?thesis by auto
qed

theorem writei_log_bound_witness:
  "\<exists>s'. writei 1 False 0 1400 200 ex_fs = Inr (200, s') \<and> lh_n s' \<le> 10"
proof -
  have c: "either_copyin False 0 (unat (200 :: u32)) ex_fs = (0, replicate 200 0)"
    by (simp add: either_copyin_def bytes_at_def map_replicate_const)
  have w: "wneed (icache ex_fs ! 1) (view 1 ex_fs) (unat (1400 :: u32)) (unat (200 :: u32)) = 0"
    unfolding ex_inodes by (simp add: wneed_def ex_imap upto_one)
  show ?thesis
    using writei_log_bound [OF ex_fs_file(1) _ _ _ _ _ c, where off = 1400] w ex_fs_room [of 10]
    by (auto simp: ex_inodes ex_sb)
qed

text \<open>Property C35. A write whose source is not mapped reports success: \<open>writei\<close> leaves the loop
  when \<open>either_copyin\<close> fails, but returns \<open>n\<close> all the same. No byte of the file changed, and
  \<open>filewrite\<close>, which compares the result with \<open>n\<close>, moves the file offset and returns it.\<close>

theorem writei_fault_reported_as_success:
  assumes rd: "iready d ip s" and n: "i_inum (icache s ! ip) < sb_ninodes (sb s)" and rm: "room 1 s"
    and off: "off < i_size (icache s ! ip)" "0 < n" "unat off + unat n \<le> MAXFILE * BSIZE"
    and f: "uaddr (pmem s) (mypagetable s) src = None"
  shows "\<exists>s'. writei ip True src off n s = Inr (int (unat n), s') \<and> icache s' = icache s \<and>
    (\<forall>i < unat (i_size (icache s ! ip)). fbyte (icache s' ! ip) (view d s') i = fbyte (icache s ! ip) (view d s) i)"
proof -
  let ?x = "icache s ! ip"
  have o: "unat off < unat (i_size ?x)" "0 < unat n" using off by (simp_all add: word_less_nat_alt unat_gt_0)
  obtain s1 where l: "writei_loop ip True src (unat off) (unat n) s = Inr (unat off, s1)" "reads d s s1" "log_inv d s1 {}"
    using writei_loop_fault [OF rd o f] by blast
  note rd1 = reads_ready [OF l(2,3) rd]
  have same: "icache s1 = icache s" "view d s1 = view d s" "sb s1 = sb s" "room 1 s1"
    using l(2) rm distinct_card [OF log_invD(6) [OF l(3)]] distinct_card [OF log_invD(6) [OF ireadyD(1) [OF rd]]]
      log_invD(4,12) [OF l(3)] log_invD(4,12) [OF ireadyD(1) [OF rd]] by (auto simp: reads_def fs_frame_def room_def)
  obtain s' where s': "iupdate ip s1 = Inr s'" "tx d {} {IBLOCK (i_inum ?x) (sb s)} s1 s'"
    using iupdate_spec [OF rd1, of thesis] n same by auto
  have "\<not> off > i_size ?x" "\<not> off + n < off" "\<not> off + n > of_nat (268 * 1024)" "sint n = int (unat n)"
    using off unat_add_no_wrap [of off n] sint_u32_small [of n] by (simp_all add: word_less_nat_alt)
  then have "writei ip True src off n s = Inr (int (unat n), s')"
    using l(1) s'(1) off(1,2) same(1) by (simp add: writei_def)
  moreover have "fbyte (icache s' ! ip) (view d s') i = fbyte ?x (view d s) i" if i: "i < unat (i_size ?x)" for i
  proof -
    note D = ireadyD [OF rd] and W = iwfD [OF ireadyD(3) [OF rd]]
    have v: "view d s' a = view d s a" if "dblk d s a" for a
      using txD(4) [OF s'(2)] dblkD(6) [OF that n] same(2) by auto
    have m: "imap ?x (view d s') bn = imap ?x (view d s) bn" for bn
      using v [OF W(7)] by (auto simp: imap_def)
    have "i div 1024 < 268" "i div 1024 * 1024 < unat (i_size ?x)" using i W(2) by linarith+
    then have "dblk d s (imap ?x (view d s) (i div 1024))" using W(4,5) by blast
    with v m show ?thesis using blk_frameD(5) [OF txD(1) [OF s'(2)]] same(1) by (simp add: fbyte_def)
  qed
  ultimately show ?thesis using blk_frameD(5) [OF txD(1) [OF s'(2)]] same(1) by auto
qed

theorem writei_fault_reported_as_success_witness:
  "\<exists>s'. writei 1 True 0 100 200 ex_fs = Inr (200, s') \<and> icache s' = icache ex_fs"
  using writei_fault_reported_as_success [OF ex_fs_file(1) _ ex_fs_room _ _ _ ex_fs_uaddr, where off = 100 and n = 200]
  by (auto simp: ex_inodes ex_sb)

end
