(* ===== verification/Directory.thy ===== *)
theory Directory
  imports FileOps
begin

text \<open>
  The inode cache and directories of \<open>kernel/fs.c\<close>. A directory is a map from names to inode
  numbers, \<open>dirmap\<close>, held as a list of entries; \<open>dirlookup\<close> applies the map and
  \<open>dirlink\<close> updates it.
\<close>

section \<open>The inode cache\<close>

text \<open>At most one entry in use for an inode.\<close>

definition ic_inv :: "inode list \<Rightarrow> bool" where
  "ic_inv ic \<longleftrightarrow> length ic = NINODE \<and> (\<forall>i<NINODE. 0 \<le> i_ref (ic ! i)) \<and>
     (\<forall>i<NINODE. \<forall>j<NINODE. 0 < i_ref (ic ! i) \<and> 0 < i_ref (ic ! j) \<and> i_dev (ic ! i) = i_dev (ic ! j) \<and>
        i_inum (ic ! i) = i_inum (ic ! j) \<longrightarrow> i = j)"

definition cached_as :: "u32 \<Rightarrow> u32 \<Rightarrow> inode \<Rightarrow> bool" where
  "cached_as d n x \<longleftrightarrow> i_ref x > 0 \<and> i_dev x = d \<and> i_inum x = n"

lemma iget_scan_eq:
  "fst (iget_scan d n i f xs) = find_from (cached_as d n) i xs"
  "find_from (cached_as d n) i xs = None \<Longrightarrow>
     snd (iget_scan d n i f xs) = (if f = None then find_from (\<lambda>x. i_ref x = 0) i xs else f)"
  by (induction xs arbitrary: i f) (auto simp: cached_as_def)

text \<open>\<open>iget\<close> returns the entry of the inode, or makes one in a free slot.\<close>

lemma iget_cases:
  "iget d n s =
     (case find_from (cached_as d n) 0 (icache s) of
        Some ip \<Rightarrow> Inr (ip, upd_inode ip (\<lambda>x. x\<lparr>i_ref := i_ref x + 1\<rparr>) s)
      | None \<Rightarrow> (case find_from (\<lambda>x. i_ref x = 0) 0 (icache s) of
          None \<Rightarrow> Inl (Panic ''iget: no inodes'')
        | Some ip \<Rightarrow> Inr (ip, upd_inode ip (\<lambda>x. x\<lparr>i_dev := d, i_inum := n, i_ref := 1, i_valid := False\<rparr>) s)))"
  using iget_scan_eq [where i = 0 and f = None and xs = "icache s" and d = d and n = n]
  by (cases "iget_scan d n 0 None (icache s)") (auto simp: iget_def split: option.splits)

lemma ic_inv_update:
  assumes "ic_inv ic" and "ip < 50" and "0 \<le> i_ref x"
    and "\<And>j. j < 50 \<Longrightarrow> j \<noteq> ip \<Longrightarrow> 0 < i_ref x \<Longrightarrow> \<not> cached_as (i_dev x) (i_inum x) (ic ! j)"
  shows "ic_inv (ic[ip := x])"
  using assms unfolding ic_inv_def cached_as_def by (auto simp: nth_list_update) blast

lemma iget_spec:
  assumes inv: "ic_inv (icache s)"
  shows "(\<exists>i<50. cached_as d n (icache s ! i)) \<or> (\<exists>i<50. i_ref (icache s ! i) = 0) \<Longrightarrow>
      \<exists>ip x. iget d n s = Inr (ip, s\<lparr>icache := (icache s)[ip := x]\<rparr>) \<and> ip < 50 \<and> cached_as d n x \<and>
        i_ref x = i_ref (icache s ! ip) + 1 \<and> ic_inv ((icache s)[ip := x]) \<and>
        (cached_as d n (icache s ! ip) \<and> x = (icache s ! ip)\<lparr>i_ref := i_ref x\<rparr> \<or>
         i_ref (icache s ! ip) = 0 \<and> \<not> i_valid x \<and> (\<forall>i<50. \<not> cached_as d n (icache s ! i)))"
    and "\<not> (\<exists>i<50. cached_as d n (icache s ! i)) \<Longrightarrow> \<not> (\<exists>i<50. i_ref (icache s ! i) = 0) \<Longrightarrow>
      iget d n s = Inl (Panic ''iget: no inodes'')"
proof -
  have len: "length (icache s) = 50" using inv by (simp add: ic_inv_def)
  have hit: "find_from P 0 (icache s) = None \<longleftrightarrow> \<not> (\<exists>i<50. P (icache s ! i))" for P
    by (simp add: find_from_None_iff all_set_conv_all_nth len)
  show "\<exists>ip x. iget d n s = Inr (ip, s\<lparr>icache := (icache s)[ip := x]\<rparr>) \<and> ip < 50 \<and> cached_as d n x \<and>
        i_ref x = i_ref (icache s ! ip) + 1 \<and> ic_inv ((icache s)[ip := x]) \<and>
        (cached_as d n (icache s ! ip) \<and> x = (icache s ! ip)\<lparr>i_ref := i_ref x\<rparr> \<or>
         i_ref (icache s ! ip) = 0 \<and> \<not> i_valid x \<and> (\<forall>i<50. \<not> cached_as d n (icache s ! i)))"
    if ex: "(\<exists>i<50. cached_as d n (icache s ! i)) \<or> (\<exists>i<50. i_ref (icache s ! i) = 0)"
  proof (cases "find_from (cached_as d n) 0 (icache s)")
    case (Some ip)
    note F = find_from_zeroD [OF Some]
    let ?x = "(icache s ! ip)\<lparr>i_ref := i_ref (icache s ! ip) + 1\<rparr>"
    have x: "cached_as d n ?x" "0 \<le> i_ref ?x" using F(2) by (auto simp: cached_as_def)
    have "ic_inv ((icache s)[ip := ?x])"
    proof (rule ic_inv_update [OF inv _ x(2)])
      show "ip < 50" using F(1) len by simp
      show "\<not> cached_as (i_dev ?x) (i_inum ?x) (icache s ! j)" if "j < 50" "j \<noteq> ip" for j
        using that F(1,2) inv len unfolding ic_inv_def cached_as_def by auto
    qed
    then show ?thesis
      using Some F len x(1) by (intro exI [of _ ip] exI [of _ ?x]) (simp add: iget_cases upd_inode_def)
  next
    case None
    then have "\<exists>i<50. i_ref (icache s ! i) = 0" and no: "\<forall>i<50. \<not> cached_as d n (icache s ! i)" using ex hit by blast+
    then obtain ip where Some: "find_from (\<lambda>x. i_ref x = 0) 0 (icache s) = Some ip" using hit by fastforce
    note F = find_from_zeroD [OF Some]
    let ?x = "(icache s ! ip)\<lparr>i_dev := d, i_inum := n, i_ref := 1, i_valid := False\<rparr>"
    have "ic_inv ((icache s)[ip := ?x])" by (rule ic_inv_update [OF inv]) (use F(1) len no in auto)
    then show ?thesis
      using None Some F len no by (intro exI [of _ ip] exI [of _ ?x]) (simp add: iget_cases upd_inode_def cached_as_def)
  qed
  show "iget d n s = Inl (Panic ''iget: no inodes'')"
    if "\<not> (\<exists>i<50. cached_as d n (icache s ! i))" "\<not> (\<exists>i<50. i_ref (icache s ! i) = 0)"
    using that hit [of "cached_as d n"] hit [of "\<lambda>x. i_ref x = 0"] by (simp add: iget_cases)
qed

section \<open>Directories as maps\<close>

text \<open>The name of an entry: up to the first NUL, at most \<open>DIRSIZ\<close> bytes.\<close>

definition dname :: "byte list \<Rightarrow> byte list" where
  "dname bs = cstr DIRSIZ (array_of bs)"

lemma namecmp_zero: "namecmp p q = 0 \<longleftrightarrow> dname p = dname q"
  by (simp add: namecmp_def strncmp_zero_iff dname_def)

definition dirent_at :: "inode \<Rightarrow> (u32 \<Rightarrow> block) \<Rightarrow> nat \<Rightarrow> dirent" where
  "dirent_at x V k = get_dirent (file_bytes x V (16 * k) 16)"

definition dirents :: "inode \<Rightarrow> (u32 \<Rightarrow> block) \<Rightarrow> dirent list" where
  "dirents x V = map (dirent_at x V) [0..<unat (i_size x) div 16]"

definition entry_for :: "byte list \<Rightarrow> dirent \<Rightarrow> bool" where
  "entry_for nm de \<longleftrightarrow> de_inum de \<noteq> 0 \<and> dname (de_name de) = nm"

definition dirmap :: "inode \<Rightarrow> (u32 \<Rightarrow> block) \<Rightarrow> byte list \<Rightarrow> u16 option" where
  "dirmap x V nm = map_option de_inum (List.find (entry_for nm) (dirents x V))"

text \<open>A directory the operations work on: an inode of type \<open>T_DIR\<close> that satisfies the invariant
  and holds whole entries.\<close>

definition dir_ok :: "u32 \<Rightarrow> nat \<Rightarrow> 'z fs_scheme \<Rightarrow> bool" where
  "dir_ok d dp s \<longleftrightarrow> iready d dp s \<and> i_type (icache s ! dp) = T_DIR \<and> unat (i_size (icache s ! dp)) mod 16 = 0"

lemma reads_dir_ok: "reads d s s' \<Longrightarrow> log_inv d s' {} \<Longrightarrow> dir_ok d dp s \<Longrightarrow> dir_ok d dp s'"
  using reads_ready [of d s s' dp] by (simp add: dir_ok_def reads_def)

text \<open>One entry is read into the local variable \<open>de\<close>.\<close>

lemma read_entry:
  assumes dk: "dir_ok d dp s" and k: "16 * k < unat (i_size (icache s ! dp))"
  obtains s' where "readi dp False (de_addr s) (of_nat (16 * k)) 16 s = Inr (16, s')" "reads d s s'" "log_inv d s' {}"
    "read_de s' = dirent_at (icache s ! dp) (view d s) k"
proof -
  let ?x = "icache s ! dp" and ?o = "of_nat (16 * k) :: u32"
  have rd: "iready d dp s" and m: "unat (i_size ?x) mod 16 = 0" using dk by (simp_all add: dir_ok_def)
  have sz: "unat (i_size ?x) \<le> 274432" using iwfD(2) [OF ireadyD(3) [OF rd]] .
  have o: "unat ?o = 16 * k" using k sz by (intro unat_of_nat_le) simp
  have le: "16 * k + 16 \<le> unat (i_size ?x)" using k m by presburger
  have c: "\<not> ?o > i_size ?x" "\<not> ?o + 16 < ?o" "min (unat (16 :: u32)) (unat (i_size ?x) - unat ?o) = 16"
    using le sz o unat_add_no_wrap [of ?o 16] by (simp_all add: word_less_nat_alt)
  obtain s' where s': "readi dp False (de_addr s) ?o 16 s = Inr (16, s')" "reads d s s'" "log_inv d s' {}"
      "pmem s' = store_bytes (pmem s) (de_addr s) (file_bytes ?x (view d s) (16 * k) 16)"
    using readi_spec [OF rd, of False "de_addr s" ?o 16] c o by (auto simp: either_copyout_def)
  have "read_de s' = dirent_at ?x (view d s) k"
    using bytes_at_store_bytes [of "file_bytes ?x (view d s) (16 * k) 16" "pmem s" "de_addr s"] s'(2,4)
    by (simp add: read_de_def dirent_at_def reads_def fs_frame_def)
  with that s' show thesis by blast
qed

lemma div16: "n mod 16 = 0 \<Longrightarrow> 16 * k < n \<longleftrightarrow> k < n div (16 :: nat)"
  using mult_div_mod_eq [of 16 n] by linarith

lemma length_dirents [simp]: "length (dirents x V) = unat (i_size x) div 16"
  by (simp add: dirents_def)

lemma dirents_drop:
  "16 * k < unat (i_size x) \<Longrightarrow> unat (i_size x) mod 16 = 0 \<Longrightarrow> drop k (dirents x V) = dirent_at x V k # drop (Suc k) (dirents x V)"
proof -
  assume a: "16 * k < unat (i_size x)" "unat (i_size x) mod 16 = 0"
  then have l: "k < length (dirents x V)" by (simp add: div16)
  then have e: "dirents x V ! k = dirent_at x V k" by (simp add: dirents_def)
  show ?thesis using Cons_nth_drop_Suc [OF l] unfolding e by (rule sym)
qed

lemma dirlookup_loop_spec:
  assumes "dir_ok d dp s"
  shows "\<exists>s1. reads d s s1 \<and> log_inv d s1 {} \<and>
    dirlookup_loop dp name (16 * k) (unat (i_size (icache s ! dp))) s =
      (case find_from (entry_for (dname name)) k (drop k (dirents (icache s ! dp) (view d s))) of
         None \<Rightarrow> Inr (None, s1)
       | Some j \<Rightarrow> bindR (iget d (ucast (de_inum (dirents (icache s ! dp) (view d s) ! j))) s1) (\<lambda>(ip, s2).
           Inr (Some (ip, of_nat (16 * j)), s2)))"
  using assms
proof (induction "unat (i_size (icache s ! dp)) div 16 - k" arbitrary: k s)
  case 0
  let ?x = "icache s ! dp"
  have "\<not> 16 * k < unat (i_size ?x)" using 0 by (simp add: dir_ok_def div16)
  moreover have "log_inv d s {}" using 0 by (simp add: dir_ok_def iready_def)
  ultimately show ?case
    using 0 by (intro exI [of _ s]) (simp add: dirlookup_loop.simps [of dp name "16 * k"] reads_def)
next
  case (Suc m)
  let ?x = "icache s ! dp" and ?V = "view d s"
  let ?es = "dirents ?x ?V" and ?sz = "unat (i_size (icache s ! dp))"
  have m: "?sz mod 16 = 0" and dv: "i_dev ?x = d" using Suc.prems by (simp_all add: dir_ok_def iready_def)
  have k: "16 * k < ?sz" using Suc.hyps(2) div16 [OF m] by simp
  obtain s' where r: "readi dp False (de_addr s) (of_nat (16 * k)) 16 s = Inr (16, s')" "reads d s s'" "log_inv d s' {}"
      "read_de s' = dirent_at ?x ?V k"
    using read_entry [OF Suc.prems k] by blast
  have ic: "icache s' = icache s" "view d s' = ?V" using r(2) by (simp_all add: reads_def)
  have e: "?es ! k = dirent_at ?x ?V k" using k div16 [OF m] by (simp add: dirents_def)
  have step: "dirlookup_loop dp name (16 * k) ?sz s =
      (if entry_for (dname name) (dirent_at ?x ?V k)
       then bindR (iget d (ucast (de_inum (?es ! k))) s') (\<lambda>(ip, s2). Inr (Some (ip, of_nat (16 * k)), s2))
       else dirlookup_loop dp name (16 * Suc k) ?sz s')"
    using k r(1,4) ic dv e by (subst dirlookup_loop.simps) (auto simp: entry_for_def namecmp_zero Let_def add.commute)
  show ?case
  proof (cases "entry_for (dname name) (dirent_at ?x ?V k)")
    case True
    then show ?thesis using step r(2,3) dirents_drop [OF k m] by (intro exI [of _ s']) simp
  next
    case False
    have "m = unat (i_size (icache s' ! dp)) div 16 - Suc k" using Suc.hyps(2) ic by simp
    from Suc.hyps(1) [OF this reads_dir_ok [OF r(2,3) Suc.prems]] obtain s1 where "reads d s' s1" "log_inv d s1 {}"
      "dirlookup_loop dp name (16 * Suc k) ?sz s' =
        (case find_from (entry_for (dname name)) (Suc k) (drop (Suc k) ?es) of
           None \<Rightarrow> Inr (None, s1)
         | Some j \<Rightarrow> bindR (iget d (ucast (de_inum (?es ! j))) s1) (\<lambda>(ip, s2). Inr (Some (ip, of_nat (16 * j)), s2)))"
      unfolding ic by blast
    then show ?thesis
      using step False reads_trans [OF r(2)] dirents_drop [OF k m] by (intro exI [of _ s1]) simp
  qed
qed

lemma find_find_from: "List.find P xs = map_option (\<lambda>j. xs ! (j - i)) (find_from P i xs)"
proof (induction xs arbitrary: i)
  case (Cons x xs)
  show ?case
  proof (cases "P x")
    case False
    have "(x # xs) ! (j - i) = xs ! (j - Suc i)" if "find_from P (Suc i) xs = Some j" for j
      using find_from_SomeD [OF that] by (simp add: nth_Cons')
    then show ?thesis using Cons [of "Suc i"] False by (cases "find_from P (Suc i) xs") auto
  qed simp
qed simp

lemma dirlookup_spec:
  assumes "dir_ok d dp s"
  obtains s1 where "reads d s s1" "log_inv d s1 {}"
    "dirmap (icache s ! dp) (view d s) (dname name) = None \<Longrightarrow> dirlookup dp name s = Inr (None, s1)"
    "\<And>n. dirmap (icache s ! dp) (view d s) (dname name) = Some n \<Longrightarrow>
       \<exists>off. dirlookup dp name s = bindR (iget d (ucast n) s1) (\<lambda>(ip, s2). Inr (Some (ip, off), s2))"
proof -
  let ?es = "dirents (icache s ! dp) (view d s)"
  have dm: "dirmap (icache s ! dp) (view d s) (dname name) = map_option (\<lambda>j. de_inum (?es ! j)) (find_from (entry_for (dname name)) 0 ?es)"
    unfolding dirmap_def find_find_from [of _ _ 0] by (simp add: option.map_comp comp_def)
  have l: "dirlookup dp name s = dirlookup_loop dp name (16 * 0) (unat (i_size (icache s ! dp))) s"
    using assms by (simp add: dirlookup_def dir_ok_def)
  from dirlookup_loop_spec [OF assms, of name 0, folded l] obtain s1 where s1: "reads d s s1" "log_inv d s1 {}"
    "dirlookup dp name s = (case find_from (entry_for (dname name)) 0 ?es of None \<Rightarrow> Inr (None, s1)
       | Some j \<Rightarrow> bindR (iget d (ucast (de_inum (?es ! j))) s1) (\<lambda>(ip, s2). Inr (Some (ip, of_nat (16 * j)), s2)))"
    by auto
  show thesis
  proof (rule that [OF s1(1,2)])
    show "dirlookup dp name s = Inr (None, s1)" if "dirmap (icache s ! dp) (view d s) (dname name) = None"
      using that dm s1(3) by simp
    show "\<exists>off. dirlookup dp name s = bindR (iget d (ucast n) s1) (\<lambda>(ip, s2). Inr (Some (ip, off), s2))"
      if "dirmap (icache s ! dp) (view d s) (dname name) = Some n" for n
      using that dm s1(3) by auto
  qed
qed

section \<open>Linking\<close>

definition free_index :: "dirent list \<Rightarrow> nat" where
  "free_index es = (case find_from (\<lambda>e. de_inum e = 0) 0 es of Some j \<Rightarrow> j | None \<Rightarrow> length es)"

lemma dirlink_loop_spec:
  assumes "dir_ok d dp s" and "k \<le> unat (i_size (icache s ! dp)) div 16"
  shows "\<exists>s1. reads d s s1 \<and> log_inv d s1 {} \<and>
    dirlink_loop dp (16 * k) (unat (i_size (icache s ! dp))) s =
      Inr (16 * (case find_from (\<lambda>e. de_inum e = 0) k (drop k (dirents (icache s ! dp) (view d s))) of
         Some j \<Rightarrow> j | None \<Rightarrow> unat (i_size (icache s ! dp)) div 16), s1)"
  using assms
proof (induction "unat (i_size (icache s ! dp)) div 16 - k" arbitrary: k s)
  case 0
  let ?x = "icache s ! dp"
  have m: "unat (i_size ?x) mod 16 = 0" using 0 by (simp add: dir_ok_def)
  have k: "k = unat (i_size ?x) div 16" "\<not> 16 * k < unat (i_size ?x)" using 0 div16 [OF m] by simp_all
  moreover have "log_inv d s {}" using 0 by (simp add: dir_ok_def iready_def)
  ultimately show ?case
    using m by (intro exI [of _ s]) (simp add: dirlink_loop.simps [of dp "16 * (unat (i_size ?x) div 16)"] reads_def)
next
  case (Suc m)
  let ?x = "icache s ! dp" and ?V = "view d s"
  let ?es = "dirents ?x ?V" and ?sz = "unat (i_size (icache s ! dp))"
  have m: "?sz mod 16 = 0" using Suc.prems by (simp add: dir_ok_def)
  have k: "16 * k < ?sz" using Suc.hyps(2) div16 [OF m] by simp
  obtain s' where r: "readi dp False (de_addr s) (of_nat (16 * k)) 16 s = Inr (16, s')" "reads d s s'" "log_inv d s' {}"
      "read_de s' = dirent_at ?x ?V k"
    using read_entry [OF Suc.prems(1) k] by blast
  have ic: "icache s' = icache s" "view d s' = ?V" using r(2) by (simp_all add: reads_def)
  have step: "dirlink_loop dp (16 * k) ?sz s =
      (if de_inum (dirent_at ?x ?V k) = 0 then Inr (16 * k, s') else dirlink_loop dp (16 * Suc k) ?sz s')"
    using k r(1,4) by (subst dirlink_loop.simps) (simp add: add.commute)
  show ?case
  proof (cases "de_inum (dirent_at ?x ?V k) = 0")
    case True
    then show ?thesis using step r(2,3) dirents_drop [OF k m] by (intro exI [of _ s']) simp
  next
    case False
    have "m = unat (i_size (icache s' ! dp)) div 16 - Suc k" "Suc k \<le> unat (i_size (icache s' ! dp)) div 16"
      using Suc.hyps(2) ic by simp_all
    from Suc.hyps(1) [OF this(1) reads_dir_ok [OF r(2,3) Suc.prems(1)] this(2)] obtain s1 where "reads d s' s1" "log_inv d s1 {}"
      "dirlink_loop dp (16 * Suc k) ?sz s' =
        Inr (16 * (case find_from (\<lambda>e. de_inum e = 0) (Suc k) (drop (Suc k) ?es) of Some j \<Rightarrow> j | None \<Rightarrow> ?sz div 16), s1)"
      unfolding ic by blast
    then show ?thesis
      using step False reads_trans [OF r(2)] dirents_drop [OF k m] by (intro exI [of _ s1]) simp
  qed
qed

lemma new_de_props:
  "de_inum (new_de name n de) = ucast n" "length (de_name (new_de name n de)) = 14"
  "dname (de_name (new_de name n de)) = dname name"
proof -
  show "de_inum (new_de name n de) = ucast n" "length (de_name (new_de name n de)) = 14" by (simp_all add: new_de_def)
  show "dname (de_name (new_de name n de)) = dname name"
    unfolding dname_def by (rule cstr_cong) (auto simp: new_de_def array_of_def strncpy_eq le_less)
qed

text \<open>A write of one entry changes this entry of the list, or appends it.\<close>

lemma dirents_write:
  assumes wf: "iwf G V x" and w: "wrote (16 * j) (dirent_bytes de) x V x' V'" and de: "length (de_name de) = 14"
    and z: "unat (i_size x') = max (unat (i_size x)) (16 * j + 16)" "unat (i_size x) mod 16 = 0"
    and j: "16 * j \<le> unat (i_size x)" "16 * j + 16 \<le> 274432"
  shows "dirents x' V' = (if j < length (dirents x V) then (dirents x V)[j := de] else dirents x V @ [de])"
proof -
  let ?n = "unat (i_size x) div 16"
  have jn: "j \<le> ?n" using j(1) z(2) mult_div_mod_eq [of 16 "unat (i_size x)"] by linarith
  have n': "unat (i_size x') div 16 = max ?n (Suc j)" using z(1) jn mult_div_mod_eq [of 16 "unat (i_size x)"] z(2) by (simp add: max_def)
  have l: "length (dirent_bytes de) = 16" using de by simp
  have at: "dirent_at x' V' k = (if k = j then de else dirent_at x V k)" if k: "k < max ?n (Suc j)" for k
  proof (cases "k = j")
    case True
    have "file_bytes x' V' (16 * j) 16 = dirent_bytes de"
      using w j(2) l by (intro nth_equalityI) (auto simp: wrote_def nth_file_bytes)
    then show ?thesis using True get_dirent_bytes [OF de, of "[]"] by (simp add: dirent_at_def)
  next
    case False
    then have kn: "k < ?n" using k jn by simp
    have "fbyte x' V' (16 * k + i) = fbyte x V (16 * k + i)" if i: "i < 16" for i
    proof -
      have lt: "16 * k + i < unat (i_size x)" using kn i mult_div_mod_eq [of 16 "unat (i_size x)"] by linarith
      then have "(16 * k + i) div 1024 * 1024 < unat (i_size x)" by linarith
      then have "imap x V ((16 * k + i) div 1024) \<noteq> 0" by (rule iwfD(4) [OF wf])
      moreover have "16 * k + i < 268 * 1024" using lt iwfD(2) [OF wf] by linarith
      moreover have "\<not> (16 * j \<le> 16 * k + i \<and> 16 * k + i < 16 * j + 16)" using False i by linarith
      ultimately show ?thesis using w l by (simp add: wrote_def)
    qed
    then have "file_bytes x' V' (16 * k) 16 = file_bytes x V (16 * k) 16"
      by (intro nth_equalityI) (simp_all add: nth_file_bytes)
    then show ?thesis using False by (simp add: dirent_at_def)
  qed
  show ?thesis
  proof (rule nth_equalityI)
    show "length (dirents x' V') = length (if j < length (dirents x V) then (dirents x V)[j := de] else dirents x V @ [de])"
      using jn n' by (auto simp: max_def)
    fix k assume "k < length (dirents x' V')"
    then have k: "k < max ?n (Suc j)" using n' by simp
    then have "dirents x' V' ! k = (if k = j then de else dirent_at x V k)" using at [OF k] n' by (simp add: dirents_def)
    then show "dirents x' V' ! k = (if j < length (dirents x V) then (dirents x V)[j := de] else dirents x V @ [de]) ! k"
      using k jn by (auto simp: dirents_def nth_append nth_list_update)
  qed
qed

lemma find_list_update:
  "j < length xs \<Longrightarrow> \<not> P (xs ! j) \<Longrightarrow> \<not> P y \<Longrightarrow> List.find P (xs[j := y]) = List.find P xs"
  "j < length xs \<Longrightarrow> List.find P xs = None \<Longrightarrow> P y \<Longrightarrow> List.find P (xs[j := y]) = Some y"
  by (induction xs arbitrary: j) (auto simp: nth_Cons split: nat.splits if_splits)

lemma find_snoc: "List.find P (xs @ [y]) = (if List.find P xs = None then (if P y then Some y else None) else List.find P xs)"
  by (induction xs) auto

lemma dirmap_update:
  assumes es: "es' = (if j < length es then es[j := de] else es @ [de])" and free: "j < length es \<Longrightarrow> de_inum (es ! j) = 0"
    and none: "List.find (entry_for nm) es = None" and de: "entry_for nm de"
  shows "(\<lambda>n. map_option de_inum (List.find (entry_for n) es')) = (\<lambda>n. map_option de_inum (List.find (entry_for n) es))(nm \<mapsto> de_inum de)"
proof
  fix n
  have "\<not> entry_for n de" if "n \<noteq> nm" using de that by (auto simp: entry_for_def)
  moreover have "\<not> entry_for n (es ! j)" if "j < length es" using free [OF that] by (simp add: entry_for_def)
  ultimately show "map_option de_inum (List.find (entry_for n) es') = ((\<lambda>n. map_option de_inum (List.find (entry_for n) es))(nm \<mapsto> de_inum de)) n"
    using none de unfolding es
    by (cases "n = nm"; cases "j < length es") (simp_all add: find_snoc find_list_update)
qed

lemma room_wcost:
  assumes rd: "iready d ip s" and rm: "room 10 s" and off: "off \<le> unat (i_size (icache s ! ip))" and n: "0 < n" "n \<le> 3072"
  shows "fits (wcost (icache s ! ip) (view d s) off n + (0 + 1)) (IX (icache s ! ip)) s"
proof -
  let ?x = "icache s ! ip"
  note D = ireadyD [OF rd]
  have "card (set (log_home s)) = nat (lh_n s)" using distinct_card [OF log_invD(6) [OF D(1)]] log_invD(12) [OF D(1)] by simp
  then have "card (set (log_home s) \<union> IX ?x) \<le> nat (lh_n s) + card (IX ?x)" using card_Un_le [of "set (log_home s)" "IX ?x"] by simp
  moreover have "wcost ?x (view d s) off n + card (IX ?x) + 1 \<le> 10" by (rule wcost_bound [OF D(3) off n])
  moreover have "1 \<le> outstanding s" "lh_n s + 10 \<le> 29" "lh_n s + 10 < lsize s" "0 \<le> lh_n s"
    using rm log_invD(4) [OF D(1)] by (simp_all add: room_def)
  ultimately show ?thesis unfolding fits_def by (intro conjI) linarith+
qed

lemma wneed_entry: "wneed x V (16 * j) 16 \<le> 2"
proof -
  have e: "16 * j = 1024 * (j div 64) + 16 * (j mod 64)" "j mod 64 < 64"
    using mult_div_mod_eq [of 64 j] by (linarith, simp)
  have "16 * j div 1024 = j div 64" using e by linarith
  moreover have "(16 * j + 16 + 1023) div 1024 = j div 64 + 1" using e by linarith
  ultimately have "(16 * j + 16 + 1023) div 1024 = Suc (16 * j div 1024)" by simp
  then show ?thesis by (simp add: wneed_def)
qed

lemma reads_fits: "reads d s s' \<Longrightarrow> fits k X s' = fits k X s"
  by (simp add: reads_def fits_def fs_frame_def)

lemma ucast_u16_nonzero: "0 < n \<Longrightarrow> n < 65536 \<Longrightarrow> ucast (n :: u32) \<noteq> (0 :: u16)"
proof
  assume n: "0 < n" "n < 65536" and z: "ucast n = (0 :: u16)"
  have "unat (ucast n :: u16) = unat n" using n(2) by (simp add: unsigned_ucast_eq take_bit_nat_eq_self word_less_nat_alt)
  with z n(1) show False by (simp add: word_less_nat_alt)
qed

lemma dirlink_spec:
  assumes dk: "dir_ok d dp s" and n: "i_inum (icache s ! dp) < sb_ninodes (sb s)"
    and none: "dirmap (icache s ! dp) (view d s) (dname name) = None" and inum: "0 < inum" "inum < 65536"
    and z: "unat (i_size (icache s ! dp)) + 16 \<le> 274432" and rm: "room 10 s" and f: "2 \<le> nfree d s"
  obtains s' where "dirlink dp name inum s = Inr (0, s')" "dir_ok d dp s'"
    "dirmap (icache s' ! dp) (view d s') = (dirmap (icache s ! dp) (view d s))(dname name \<mapsto> ucast inum)"
proof -
  let ?x = "icache s ! dp" and ?V = "view d s"
  let ?es = "dirents ?x ?V" and ?sz = "unat (i_size (icache s ! dp))"
  have rd: "iready d dp s" and m: "?sz mod 16 = 0" using dk by (simp_all add: dir_ok_def)
  obtain s1 where s1: "reads d s s1" "log_inv d s1 {}" "dirlookup dp name s = Inr (None, s1)"
    using dirlookup_spec [OF dk, of name thesis] none by blast
  have e1: "icache s1 = icache s" "view d s1 = ?V" using s1(1) by (simp_all add: reads_def)
  note dk1 = reads_dir_ok [OF s1(1,2) dk]
  define j where "j = free_index ?es"
  obtain s2 where s2: "reads d s1 s2" "log_inv d s2 {}" "dirlink_loop dp 0 ?sz s1 = Inr (16 * j, s2)"
    using dirlink_loop_spec [OF dk1, of 0] unfolding e1 by (auto simp: j_def free_index_def cong: option.case_cong)
  note r2 = reads_trans [OF s1(1) s2(1)]
  note rd2 = reads_ready [OF r2 s2(2) rd]
  have e2: "icache s2 = icache s" "view d s2 = ?V" "sb s2 = sb s" using r2 by (simp_all add: reads_def fs_frame_def)
  have j: "j \<le> ?sz div 16" "j < length ?es \<Longrightarrow> de_inum (?es ! j) = 0"
    using find_from_zeroD [of "\<lambda>e. de_inum e = 0" ?es] by (auto simp: j_def free_index_def split: option.splits dest: less_imp_le)
  have j16: "16 * j \<le> ?sz" using j(1) m mult_div_mod_eq [of 16 ?sz] by linarith
  define de where "de = new_de name inum (read_de s2)"
  note de = new_de_props [of name inum "read_de s2", folded de_def]
  define s3 where "s3 = s2\<lparr>pmem := store_bytes (pmem s2) (de_addr s2) (dirent_bytes de)\<rparr>"
  have r3: "reads d s s3" "log_inv d s3 {}" using reads_trans [OF r2 reads_pmem] s2(2) by (simp_all add: s3_def)
  have rd3: "iready d dp s3" using reads_ready [OF r3 rd] .
  have e3: "icache s3 = icache s" "view d s3 = ?V" "sb s3 = sb s" using e2 by (simp_all add: s3_def)
  have c: "either_copyin False (de_addr s3) (unat (16 :: u32)) s3 = (0, dirent_bytes de)"
    using bytes_at_store_bytes [of "dirent_bytes de" "pmem s2" "de_addr s2"] de(2) by (simp add: s3_def either_copyin_def)
  let ?o = "of_nat (16 * j) :: u32"
  have o: "unat ?o = 16 * j" using j16 z by (intro unat_of_nat_le) simp
  obtain s' where w: "writei dp False (de_addr s3) ?o 16 s3 = Inr (int (unat (16 :: u32)), s')" "iready d dp s'"
      "wrote (unat ?o) (dirent_bytes de) ?x ?V (icache s' ! dp) (view d s')"
      "unat (i_size (icache s' ! dp)) = max ?sz (unat ?o + unat (16 :: u32))"
      "\<exists>as. icache s' = (icache s)[dp := ?x\<lparr>i_addrs := as, i_size := i_size (icache s' ! dp)\<rparr>]"
  proof (rule writei_spec [OF rd3 _ _ _ _ c, where q = 0 and off = ?o, unfolded e3])
    show "i_inum ?x < sb_ninodes (sb s)" by (rule n)
    show "?o \<le> i_size ?x" "(0 :: u32) < 16" "unat ?o + unat (16 :: u32) \<le> 274432" using o j16 z by (simp_all add: word_le_nat_alt)
    show "fits (wcost ?x ?V (unat ?o) (unat (16 :: u32)) + (0 + 1)) (IX ?x) s3"
      using room_wcost [OF rd rm, of "16 * j" 16] j16 unfolding reads_fits [OF r3(1)] o by simp
    show "wneed ?x ?V (unat ?o) (unat (16 :: u32)) \<le> nfree d s3" using wneed_entry [of ?x ?V j] f reads_fs(4) [OF r3(1)] o by simp
  qed blast
  have dl: "dirlink dp name inum s = Inr (0, s')"
    using s1(3) s2(3) w(1) unfolding dirlink_def e1 s3_def de_def by (simp add: e1 Let_def)
  have es': "dirents (icache s' ! dp) (view d s') = (if j < length ?es then ?es[j := de] else ?es @ [de])"
    by (rule dirents_write [OF ireadyD(3) [OF rd]]) (use w(3,4) o de(2) m j16 z in simp_all)
  have un: "ucast inum \<noteq> (0 :: u16)" using ucast_u16_nonzero [OF inum] .
  have "dirmap (icache s' ! dp) (view d s') = (dirmap ?x ?V)(dname name \<mapsto> ucast inum)"
    using dirmap_update [OF es' j(2), of "dname name"] none de un by (auto simp: dirmap_def fun_eq_iff entry_for_def)
  moreover obtain as where "icache s' = (icache s)[dp := ?x\<lparr>i_addrs := as, i_size := i_size (icache s' ! dp)\<rparr>]" using w(5) by blast
  from arg_cong [OF this, of "\<lambda>ic. i_type (ic ! dp)"] have "i_type (icache s' ! dp) = i_type ?x"
    using ireadyD(4) [OF rd] by simp
  then have "dir_ok d dp s'"
    using dk w(2,4) m o ireadyD(4) [OF rd] unfolding dir_ok_def by (auto simp: max_def mod_add_eq [symmetric])
  ultimately show thesis using that dl by blast
qed

section \<open>The directory of the small file system\<close>

lemma ex_dir_ok: "dir_ok 1 0 ex_fs" "i_inum (icache ex_fs ! 0) < sb_ninodes (sb ex_fs)"
  using ex_fs_file(2) by (simp_all add: dir_ok_def ex_inodes ex_sb)

lemma ex_dirents: "dirents (icache ex_fs ! 0) (view 1 ex_fs) =
    [\<lparr>de_inum = 1, de_name = [46] @ replicate 13 0\<rparr>, \<lparr>de_inum = 1, de_name = [46, 46] @ replicate 12 0\<rparr>,
     \<lparr>de_inum = 5, de_name = [102] @ replicate 13 0\<rparr>]"
proof -
  let ?x = "ex_inode 1 1 T_DIR 48 [48]"
  have l: "length ex_dir = 48" by (simp add: ex_dir_def ex_entry_def)
  have "dirent_at ?x ex_disk k = get_dirent (take 16 (drop (16 * k) ex_dir))" if "k < 3" for k
    using chunk_bytes [of 16 "16 * k" ex_disk ?x] that l
    by (simp add: dirent_at_def file_bytes_def ex_imap ex_disk_def)
  from this [of 0] this [of 1] this [of "Suc (Suc 0)"] show ?thesis
    unfolding ex_inodes by (simp add: dirents_def ex_dir_def ex_entry_def upt_rec get_dirent_bytes [where bs = "[]", simplified])
qed

lemma ex_dname: "dname ([46] @ replicate 13 0) = [46]" "dname ([46, 46] @ replicate 12 0) = [46, 46]"
  "dname ([102] @ replicate 13 0) = [102]" "dname [102] = [102]" "dname [103] = [103]"
  by (simp_all add: dname_def cstr_def array_of_def upt_rec)

lemma ex_dirmap: "dirmap (icache ex_fs ! 0) (view 1 ex_fs) (dname [102]) = Some 5"
  "dirmap (icache ex_fs ! 0) (view 1 ex_fs) (dname [103]) = None"
  unfolding dirmap_def ex_dirents using ex_dname by (simp_all add: entry_for_def)

lemma ex_ic_inv: "ic_inv (icache ex_fs)"
proof -
  have "icache ex_fs ! i = (if i = 0 then ex_inode 1 1 T_DIR 48 [48] else if i = 1 then ex_inode 5 1 T_FILE 1500 [46, 47]
      else ex_inode 0 0 0 0 [])" if "i < 50" for i
    using that by (simp add: ex_fs0_def nth_Cons' nth_append)
  moreover have "length (icache ex_fs) = 50" by (simp add: ex_fs0_def)
  ultimately show ?thesis unfolding ic_inv_def by auto
qed

section \<open>Properties\<close>

text \<open>Property C24. At most one cached copy of an inode: \<open>iget\<close> returns the entry in use for
  this inode with one more reference, or else a fresh entry with one reference and no contents, and
  keeps the invariant that no two entries in use are for the same inode; no other entry changes. It
  panics exactly when the inode is not cached and every entry is in use.\<close>

theorem iget_unique:
  assumes "ic_inv (icache s)"
  shows "if (\<exists>i<NINODE. cached_as d n (icache s ! i)) \<or> (\<exists>i<NINODE. i_ref (icache s ! i) = 0)
    then \<exists>ip s'. iget d n s = Inr (ip, s') \<and> ip < NINODE \<and> ic_inv (icache s') \<and> cached_as d n (icache s' ! ip) \<and>
      i_ref (icache s' ! ip) = i_ref (icache s ! ip) + 1 \<and> (\<forall>j. j \<noteq> ip \<longrightarrow> icache s' ! j = icache s ! j) \<and>
      (cached_as d n (icache s ! ip) \<or> i_ref (icache s ! ip) = 0 \<and> \<not> i_valid (icache s' ! ip))
    else iget d n s = Inl (Panic ''iget: no inodes'')"
proof (cases "(\<exists>i<50. cached_as d n (icache s ! i)) \<or> (\<exists>i<50. i_ref (icache s ! i) = 0)")
  case True
  from iget_spec(1) [OF assms True] obtain ip x where "iget d n s = Inr (ip, s\<lparr>icache := (icache s)[ip := x]\<rparr>)" "ip < 50"
      "cached_as d n x" "i_ref x = i_ref (icache s ! ip) + 1" "ic_inv ((icache s)[ip := x])"
      "cached_as d n (icache s ! ip) \<or> i_ref (icache s ! ip) = 0 \<and> \<not> i_valid x" by blast
  moreover have "length (icache s) = 50" using assms by (simp add: ic_inv_def)
  ultimately show ?thesis using True by (intro if_P [THEN iffD2, OF True] exI [of _ ip] exI [of _ "s\<lparr>icache := (icache s)[ip := x]\<rparr>"]) simp
next
  case False
  then show ?thesis using iget_spec(2) [OF assms] by auto
qed

theorem iget_unique_witness:
  "\<exists>ip s'. iget 1 5 ex_fs = Inr (ip, s') \<and> cached_as 1 5 (icache s' ! ip) \<and> ic_inv (icache s')"
proof -
  have "cached_as 1 5 (icache ex_fs ! 1)" unfolding ex_inodes by (simp add: cached_as_def)
  then have "\<exists>i<50. cached_as 1 5 (icache ex_fs ! i)" by (intro exI [of _ 1]) simp
  then show ?thesis using iget_unique [OF ex_ic_inv, of 1 5] by auto
qed

text \<open>Property C23. \<open>dirlookup\<close> applies the directory as a map from names to inode numbers: for a
  name the directory does not have it returns null, for one it has it returns the cached inode of
  that number with a reference of its own; names count up to the first NUL and \<open>DIRSIZ\<close> bytes.
  Neither the directory nor any other block changes.\<close>

theorem dirlookup_correct:
  assumes "dir_ok d dp s" and "ic_inv (icache s)" and "\<exists>i<NINODE. i_ref (icache s ! i) = 0"
  shows "case dirmap (icache s ! dp) (view d s) (dname name) of
      None \<Rightarrow> \<exists>s'. dirlookup dp name s = Inr (None, s') \<and> icache s' = icache s \<and> view d s' = view d s
    | Some n \<Rightarrow> \<exists>ip off s'. dirlookup dp name s = Inr (Some (ip, off), s') \<and> cached_as d (ucast n) (icache s' ! ip) \<and>
        ic_inv (icache s') \<and> view d s' = view d s"
proof (rule dirlookup_spec [OF assms(1), of name])
  fix s1
  assume r: "reads d s s1" and none: "dirmap (icache s ! dp) (view d s) (dname name) = None \<Longrightarrow> dirlookup dp name s = Inr (None, s1)"
    and some: "\<And>n. dirmap (icache s ! dp) (view d s) (dname name) = Some n \<Longrightarrow>
       \<exists>off. dirlookup dp name s = bindR (iget d (ucast n) s1) (\<lambda>(ip, s2). Inr (Some (ip, off), s2))"
  have e: "icache s1 = icache s" "view d s1 = view d s" using r by (simp_all add: reads_def)
  show ?thesis
  proof (cases "dirmap (icache s ! dp) (view d s) (dname name)")
    case (Some n)
    from iget_spec(1) [of s1 d "ucast n"] assms(2,3) obtain ip x where
        i: "iget d (ucast n) s1 = Inr (ip, s1\<lparr>icache := (icache s)[ip := x]\<rparr>)" "ip < 50" "cached_as d (ucast n) x"
          "ic_inv ((icache s)[ip := x])" unfolding e by blast
    moreover have "length (icache s) = 50" using assms(2) by (simp add: ic_inv_def)
    ultimately show ?thesis using some [OF Some] Some e by auto
  qed (use none e in auto)
qed

theorem dirlookup_correct_witness:
  "\<exists>ip off s'. dirlookup 0 [102] ex_fs = Inr (Some (ip, off), s') \<and> cached_as 1 5 (icache s' ! ip)"
proof -
  have "i_ref (icache ex_fs ! 2) = 0" by (simp add: ex_fs0_def)
  then have "\<exists>i<50. i_ref (icache ex_fs ! i) = 0" by (intro exI [of _ 2]) simp
  from dirlookup_correct [OF ex_dir_ok(1) ex_ic_inv this, of "[102]"] ex_dirmap(1) show ?thesis by auto
qed

text \<open>Property C6. \<open>dirlink\<close> of a name the directory does not have updates the map: in a
  transaction with the reserved room and two free blocks it returns 0, the name maps to the inode
  number, and every other name maps to what it did.\<close>

theorem dirlink_correct:
  assumes "dir_ok d dp s" and "i_inum (icache s ! dp) < sb_ninodes (sb s)"
    and "dirmap (icache s ! dp) (view d s) (dname name) = None" and "0 < inum" "inum < 65536"
    and "unat (i_size (icache s ! dp)) + 16 \<le> MAXFILE * BSIZE" and "room (nat MAXOPBLOCKS) s" and "2 \<le> nfree d s"
  shows "\<exists>s'. dirlink dp name inum s = Inr (0, s') \<and> dir_ok d dp s' \<and>
    dirmap (icache s' ! dp) (view d s') = (dirmap (icache s ! dp) (view d s))(dname name \<mapsto> ucast inum)"
  by (rule dirlink_spec [OF assms(1-5)]) (use assms(6-8) in auto)

theorem dirlink_correct_witness:
  "\<exists>s'. dirlink 0 [103] 7 ex_fs = Inr (0, s') \<and> dirmap (icache s' ! 0) (view 1 s') [103] = Some 7"
proof -
  have "{600, 601} \<subseteq> {b. b < sb_size (sb ex_fs) \<and> \<not> bused 1 ex_fs b}"
    using ex_fs_bused [of 600] ex_fs_bused [of 601] by (simp add: ex_sb)
  from card_mono [OF _ this] have "2 \<le> nfree 1 ex_fs" by (simp add: nfree_def)
  moreover have "room 10 ex_fs" by (rule ex_fs_room) simp
  ultimately show ?thesis
    using dirlink_correct [OF ex_dir_ok ex_dirmap(2), of 7] ex_dname(5) by (auto simp: ex_inodes)
qed

end
