(* ===== verification/Sched.thy ===== *)
theory Sched
  imports Proc Spinlock
begin

text \<open>
  The scheduler of \<open>kernel/proc.c\<close> on any number of harts, as a step relation: \<open>scheduler\<close>,
  \<open>sched\<close>, \<open>yield\<close>, \<open>sleep\<close>, \<open>wakeup\<close>, \<open>kill\<close>, \<open>exit\<close>, \<open>wait\<close>, \<open>fork\<close> and
  interrupts. A thread is the scheduler of a hart or a process; \<open>sloc\<close> and \<open>ploc\<close> say where in
  the code each of them is, and \<open>cur c\<close> which one hart \<open>c\<close> executes. \<open>swtch\<close> changes
  \<open>cur c\<close> and leaves the locations, the saved contexts, alone. A step of hart \<open>c\<close> runs up
  to the next \<open>acquire\<close> that may have to wait, or to a \<open>swtch\<close>; \<open>acquire\<close> and \<open>release\<close>
  are those of theory \<open>Spinlock\<close>. Lock \<open>p\<close> with \<open>p < 64\<close> is \<open>proc[p].lock\<close>, and the numbers
  from 64 on are the other spin locks of the kernel.

  Of \<open>struct proc\<close> the state has the fields that \<open>p->lock\<close> protects; memory, files and
  inodes are in theory \<open>Proc\<close>.
\<close>

section \<open>State\<close>

record pshared =
  sp_state :: procstate
  sp_parent :: "nat option"
  sp_chan :: chan
  sp_killed :: bool
  sp_xstate :: u32
  sp_pid :: int

text \<open>Where a thread is. \<open>YAcq r\<close>, \<open>WkAcq r\<close> and \<open>Hdl r\<close> return to \<open>r\<close>: \<open>Hdl\<close> is the
  code of an interrupt handler, \<open>Run\<close> any other code of a process outside \<open>proc.c\<close>.
  \<open>Sched\<close> is the call of \<open>sched\<close>, \<open>SchedRet\<close> the return of \<open>swtch\<close> in it with the saved
  value of \<open>intena\<close>, and a \<open>cont\<close> what called it.\<close>

datatype loc =
    SLoop | SAcq nat | SBack nat
  | Run | Hdl loc | Forkret
  | YAcq loc
  | Sched cont | SchedRet bool cont
  | SlpAcq chan nat | SlpRel chan nat | SlpSet chan nat | SlpDone nat
  | WkAcq loc chan nat | KlAcq int nat
  | ExInit u32 | ExPar u32 | ExLockPar u32 nat | ExLockSelf u32 nat | ExScan u32 nat nat | ExGive u32 nat nat | ExFin u32 nat
  | WtAcq | WtScan nat bool | WtKid nat bool
  | FkAcq nat
and cont = KYield loc | KSleep nat | KWait | KExit

record sch =
  tab :: "nat \<Rightarrow> pshared"
  next_pid :: int
  hw :: machine
  cproc :: "nat \<Rightarrow> nat option"
  cur :: "nat \<Rightarrow> nat option"
  sloc :: "nat \<Rightarrow> loc"
  ploc :: "nat \<Rightarrow> loc"

definition at_loc :: "sch \<Rightarrow> nat \<Rightarrow> loc" where
  "at_loc s c = (case cur s c of None \<Rightarrow> sloc s c | Some p \<Rightarrow> ploc s p)"

definition goto :: "nat \<Rightarrow> loc \<Rightarrow> sch \<Rightarrow> sch" where
  "goto c a s =
     (case cur s c of
        None \<Rightarrow> s\<lparr>sloc := (sloc s)(c := a)\<rparr>
      | Some p \<Rightarrow> s\<lparr>ploc := (ploc s)(p := a)\<rparr>)"

definition on_tab :: "nat \<Rightarrow> (pshared \<Rightarrow> pshared) \<Rightarrow> sch \<Rightarrow> sch" where
  "on_tab p f s = s\<lparr>tab := (tab s)(p := f (tab s p))\<rparr>"

definition acq :: "nat \<Rightarrow> nat \<Rightarrow> sch \<Rightarrow> (sch \<Rightarrow> sch res) \<Rightarrow> sch res option" where
  "acq c l s k = map_option (\<lambda>r. bindR r (\<lambda>m. k (s\<lparr>hw := m\<rparr>))) (acquire c l (hw s))"

definition rel :: "nat \<Rightarrow> nat \<Rightarrow> sch \<Rightarrow> (sch \<Rightarrow> sch res) \<Rightarrow> sch res" where
  "rel c l s k = bindR (release c l (hw s)) (\<lambda>m. k (s\<lparr>hw := m\<rparr>))"

definition set_intr :: "nat \<Rightarrow> bool \<Rightarrow> sch \<Rightarrow> sch" where
  "set_intr c b s = s\<lparr>hw := on_hart c (intr_update (\<lambda>_. b)) (hw s)\<rparr>"

section \<open>The code\<close>

subsection \<open>scheduler\<close>

text \<open>After the last process the loop starts again; whether the hart then waits for an interrupt
  (\<open>found\<close>, \<open>wfi\<close>) makes no difference to the state.\<close>

definition next_proc :: "nat \<Rightarrow> loc" where
  "next_proc i = (if Suc i < NPROC then SAcq (Suc i) else SLoop)"

definition switch_in :: "nat \<Rightarrow> nat \<Rightarrow> sch \<Rightarrow> sch" where
  "switch_in c i s =
     (let s1 = on_tab i (sp_state_update (\<lambda>_. RUNNING)) s
      in s1\<lparr>cproc := (cproc s1)(c := Some i), sloc := (sloc s1)(c := SBack i), cur := (cur s1)(c := Some i)\<rparr>)"

definition scheduler_step :: "nat \<Rightarrow> loc \<Rightarrow> sch \<Rightarrow> sch res option" where
  "scheduler_step c a s =
     (case a of
        SLoop \<Rightarrow> Some (Inr (goto c (SAcq 0) (set_intr c True s)))
      | SAcq i \<Rightarrow> acq c i s (\<lambda>s1.
          if sp_state (tab s1 i) = RUNNABLE then Inr (switch_in c i s1)
          else rel c i s1 (\<lambda>s2. Inr (goto c (next_proc i) s2)))
      | SBack i \<Rightarrow> Some (rel c i (s\<lparr>cproc := (cproc s)(c := None)\<rparr>) (\<lambda>s2. Inr (goto c (next_proc i) s2)))
      | _ \<Rightarrow> Some (Inl (Undefined ''scheduler'')))"

subsection \<open>sched, yield and sleep\<close>

text \<open>\<open>sched\<close> up to \<open>swtch\<close>: the hart goes on with its scheduler.\<close>

definition sched :: "nat \<Rightarrow> nat \<Rightarrow> cont \<Rightarrow> sch \<Rightarrow> sch res" where
  "sched c p k s =
     (if \<not> holding c p (hw s) then Inl (Panic ''sched p->lock'')
      else if noff (harts (hw s) c) \<noteq> 1 then Inl (Panic ''sched locks'')
      else if sp_state (tab s p) = RUNNING then Inl (Panic ''sched running'')
      else if intr (harts (hw s) c) then Inl (Panic ''sched interruptible'')
      else Inr ((goto c (SchedRet (intena (harts (hw s) c)) k) s)\<lparr>cur := (cur s)(c := None)\<rparr>))"

text \<open>\<open>sched\<close> from \<open>swtch\<close> on, and what follows its call in \<open>yield\<close>, \<open>sleep\<close> and \<open>exit\<close>.\<close>

definition sched_return :: "nat \<Rightarrow> nat \<Rightarrow> bool \<Rightarrow> cont \<Rightarrow> sch \<Rightarrow> sch res" where
  "sched_return c p ie k s0 =
     (let s = s0\<lparr>hw := on_hart c (intena_update (\<lambda>_. ie)) (hw s0)\<rparr>
      in case k of
           KYield r \<Rightarrow> rel c p s (\<lambda>s1. Inr (goto c r s1))
         | KSleep l \<Rightarrow> rel c p (on_tab p (sp_chan_update (\<lambda>_. NoChan)) s) (\<lambda>s1. Inr (goto c (SlpDone l) s1))
         | KWait \<Rightarrow> Inr (goto c (WtScan 0 False) (on_tab p (sp_chan_update (\<lambda>_. NoChan)) s))
         | KExit \<Rightarrow> Inl (Panic ''zombie exit''))"

definition yield_step :: "nat \<Rightarrow> nat \<Rightarrow> loc \<Rightarrow> sch \<Rightarrow> sch res option" where
  "yield_step c p r s =
     acq c p s (\<lambda>s1. Inr (goto c (Sched (KYield r)) (on_tab p (sp_state_update (\<lambda>_. RUNNABLE)) s1)))"

text \<open>\<open>sleep\<close> with \<open>lk != &p->lock\<close>, as every caller but \<open>wait\<close> has it.\<close>

definition sleep_step :: "nat \<Rightarrow> nat \<Rightarrow> loc \<Rightarrow> sch \<Rightarrow> sch res option" where
  "sleep_step c p a s =
     (case a of
        SlpAcq ch l \<Rightarrow> acq c p s (\<lambda>s1. Inr (goto c (SlpRel ch l) s1))
      | SlpRel ch l \<Rightarrow> Some (rel c l s (\<lambda>s1. Inr (goto c (SlpSet ch l) s1)))
      | SlpSet ch l \<Rightarrow>
          Some (Inr (goto c (Sched (KSleep l)) (on_tab p (\<lambda>x. x\<lparr>sp_chan := ch, sp_state := SLEEPING\<rparr>) s)))
      | SlpDone l \<Rightarrow> acq c l s (\<lambda>s1. Inr (goto c Run s1))
      | _ \<Rightarrow> Some (Inl (Undefined ''sleep'')))"

subsection \<open>wakeup and kill\<close>

text \<open>One round of the loop of \<open>wakeup\<close>.\<close>

definition wakeup_step :: "nat \<Rightarrow> loc \<Rightarrow> chan \<Rightarrow> nat \<Rightarrow> sch \<Rightarrow> sch res option" where
  "wakeup_step c r ch i s =
     acq c i s (\<lambda>s1.
       rel c i (if sp_state (tab s1 i) = SLEEPING \<and> sp_chan (tab s1 i) = ch
                then on_tab i (sp_state_update (\<lambda>_. RUNNABLE)) s1 else s1)
         (\<lambda>s2. Inr (goto c (if Suc i < NPROC then WkAcq r ch (Suc i) else r) s2)))"

definition wake1 :: "nat \<Rightarrow> nat \<Rightarrow> sch \<Rightarrow> sch res" where
  "wake1 c p s =
     (if \<not> holding c p (hw s) then Inl (Panic ''wakeup1'')
      else Inr (if sp_chan (tab s p) = ProcChan p \<and> sp_state (tab s p) = SLEEPING
                then on_tab p (sp_state_update (\<lambda>_. RUNNABLE)) s else s))"

definition kill_step :: "nat \<Rightarrow> int \<Rightarrow> nat \<Rightarrow> sch \<Rightarrow> sch res option" where
  "kill_step c pid i s =
     acq c i s (\<lambda>s1.
       if sp_pid (tab s1 i) = pid
       then rel c i (on_tab i (\<lambda>x. x\<lparr>sp_killed := True,
                sp_state := (if sp_state x = SLEEPING then RUNNABLE else sp_state x)\<rparr>) s1) (\<lambda>s2. Inr (goto c Run s2))
       else rel c i s1 (\<lambda>s2. Inr (goto c (if Suc i < NPROC then KlAcq pid (Suc i) else Run) s2)))"

subsection \<open>exit, wait and fork\<close>

text \<open>\<open>userinit\<close> runs first and takes the first entry of the table.\<close>

abbreviation (input) init_proc :: nat where "init_proc \<equiv> 0"

definition exit_step :: "nat \<Rightarrow> nat \<Rightarrow> loc \<Rightarrow> sch \<Rightarrow> sch res option" where
  "exit_step c p a s =
     (case a of
        ExInit st \<Rightarrow> acq c init_proc s (\<lambda>s1.
          bindR (wake1 c init_proc s1) (\<lambda>s2. rel c init_proc s2 (\<lambda>s3. Inr (goto c (ExPar st) s3))))
      | ExPar st \<Rightarrow> acq c p s (\<lambda>s1.
          case sp_parent (tab s1 p) of
            None \<Rightarrow> Inl (Undefined ''original_parent'')
          | Some q \<Rightarrow> rel c p s1 (\<lambda>s2. Inr (goto c (ExLockPar st q) s2)))
      | ExLockPar st q \<Rightarrow> acq c q s (\<lambda>s1. Inr (goto c (ExLockSelf st q) s1))
      | ExLockSelf st q \<Rightarrow> acq c p s (\<lambda>s1. Inr (goto c (ExScan st q 0) s1))
      | ExScan st q i \<Rightarrow>
          Some (Inr (goto c (if i < NPROC
                             then if sp_parent (tab s i) = Some p then ExGive st q i else ExScan st q (Suc i)
                             else ExFin st q) s))
      | ExGive st q i \<Rightarrow> acq c i s (\<lambda>s1.
          rel c i (on_tab i (sp_parent_update (\<lambda>_. Some init_proc)) s1) (\<lambda>s2. Inr (goto c (ExScan st q (Suc i)) s2)))
      | ExFin st q \<Rightarrow>
          Some (bindR (wake1 c q s) (\<lambda>s1.
                rel c q (on_tab p (\<lambda>x. x\<lparr>sp_xstate := st, sp_state := ZOMBIE\<rparr>) s1) (\<lambda>s2.
                Inr (goto c (Sched KExit) s2))))
      | _ \<Rightarrow> Some (Inl (Undefined ''exit'')))"

definition free_entry :: "pshared \<Rightarrow> pshared" where
  "free_entry x = x\<lparr>sp_pid := 0, sp_parent := None, sp_chan := NoChan, sp_killed := False, sp_xstate := 0, sp_state := UNUSED\<rparr>"

text \<open>What the operations on memory in \<open>wait\<close> and \<open>fork\<close> return: \<open>copyout\<close> of the status
  fails, or in \<open>fork\<close> the trap frame, the page table or the copy of memory cannot be
  allocated.\<close>

datatype outcome = Done | CopyFails | NoTrapframe | NoPagetable

definition wait_step :: "nat \<Rightarrow> nat \<Rightarrow> outcome \<Rightarrow> loc \<Rightarrow> sch \<Rightarrow> sch res option" where
  "wait_step c p w a s =
     (case a of
        WtAcq \<Rightarrow> acq c p s (\<lambda>s1. Inr (goto c (WtScan 0 False) s1))
      | WtScan i kids \<Rightarrow>
          Some (if i < NPROC
                then Inr (goto c (if sp_parent (tab s i) = Some p then WtKid i kids else WtScan (Suc i) kids) s)
                else if \<not> kids \<or> sp_killed (tab s p) then rel c p s (\<lambda>s1. Inr (goto c Run s1))
                else Inr (goto c (Sched KWait) (on_tab p (\<lambda>x. x\<lparr>sp_chan := ProcChan p, sp_state := SLEEPING\<rparr>) s)))
      | WtKid i kids \<Rightarrow> acq c i s (\<lambda>s1.
          if sp_state (tab s1 i) = ZOMBIE
          then rel c i (if w = CopyFails then s1 else on_tab i free_entry s1) (\<lambda>s2.
               rel c p s2 (\<lambda>s3. Inr (goto c Run s3)))
          else rel c i s1 (\<lambda>s2. Inr (goto c (WtScan (Suc i) True) s2)))
      | _ \<Rightarrow> Some (Inl (Undefined ''wait'')))"

definition new_proc :: "nat \<Rightarrow> outcome \<Rightarrow> nat \<Rightarrow> sch \<Rightarrow> sch" where
  "new_proc p w i s =
     (let s1 = on_tab i (sp_pid_update (\<lambda>_. next_pid s)) (s\<lparr>next_pid := next_pid s + 1\<rparr>)
      in case w of
           NoTrapframe \<Rightarrow> s1
         | NoPagetable \<Rightarrow> on_tab i free_entry s1
         | CopyFails \<Rightarrow> on_tab i free_entry (s1\<lparr>ploc := (ploc s1)(i := Forkret)\<rparr>)
         | Done \<Rightarrow> on_tab i (\<lambda>x. x\<lparr>sp_parent := Some p, sp_state := RUNNABLE\<rparr>) (s1\<lparr>ploc := (ploc s1)(i := Forkret)\<rparr>))"

definition fork_step :: "nat \<Rightarrow> nat \<Rightarrow> outcome \<Rightarrow> nat \<Rightarrow> sch \<Rightarrow> sch res option" where
  "fork_step c p w i s =
     acq c i s (\<lambda>s1.
       if sp_state (tab s1 i) = UNUSED then rel c i (new_proc p w i s1) (\<lambda>s2. Inr (goto c Run s2))
       else rel c i s1 (\<lambda>s2. Inr (goto c (if Suc i < NPROC then FkAcq (Suc i) else Run) s2)))"

subsection \<open>A step of a hart\<close>

text \<open>The code of process \<open>p\<close> at \<open>a\<close>.\<close>

definition proc_step :: "nat \<Rightarrow> nat \<Rightarrow> outcome \<Rightarrow> loc \<Rightarrow> sch \<Rightarrow> sch res option" where
  "proc_step c p w a s =
     (case a of
        YAcq r \<Rightarrow> yield_step c p r s
      | Sched k \<Rightarrow> Some (sched c p k s)
      | SchedRet ie k \<Rightarrow> Some (sched_return c p ie k s)
      | Forkret \<Rightarrow> Some (rel c p s (\<lambda>s1. Inr (goto c Run s1)))
      | SlpAcq ch l \<Rightarrow> sleep_step c p a s
      | SlpRel ch l \<Rightarrow> sleep_step c p a s
      | SlpSet ch l \<Rightarrow> sleep_step c p a s
      | SlpDone l \<Rightarrow> sleep_step c p a s
      | WkAcq r ch i \<Rightarrow> wakeup_step c r ch i s
      | KlAcq pid i \<Rightarrow> kill_step c pid i s
      | WtAcq \<Rightarrow> wait_step c p w a s
      | WtScan i kids \<Rightarrow> wait_step c p w a s
      | WtKid i kids \<Rightarrow> wait_step c p w a s
      | FkAcq i \<Rightarrow> fork_step c p w i s
      | _ \<Rightarrow> exit_step c p a s)"

text \<open>One step of hart \<open>c\<close> through the code of \<open>proc.c\<close>; \<open>None\<close> when it waits for a lock.\<close>

definition code_step :: "nat \<Rightarrow> outcome \<Rightarrow> sch \<Rightarrow> sch res option" where
  "code_step c w s =
     (case (cur s c, at_loc s c) of
        (None, WkAcq r ch i) \<Rightarrow> wakeup_step c r ch i s
      | (None, a) \<Rightarrow> scheduler_step c a s
      | (Some _, a) \<Rightarrow>
          (case cproc s c of None \<Rightarrow> Some (Inl (Undefined ''myproc'')) | Some p \<Rightarrow> proc_step c p w a s))"

text \<open>What the code outside \<open>proc.c\<close> does: take and give back spin locks, switch interrupts on
  and off, return from an interrupt, and call the functions of \<open>proc.c\<close>.\<close>

datatype call =
    CAcquire nat | CRelease nat | CIntr bool | CReturn
  | CWakeup chan | CYield | CSleep chan nat | CKill int | CExit u32 | CWait | CFork

fun ordinary :: "loc \<Rightarrow> bool" where
  "ordinary Run = True"
| "ordinary (Hdl r) = True"
| "ordinary _ = False"

fun proc_chan :: "chan \<Rightarrow> bool" where
  "proc_chan (ProcChan p) = True"
| "proc_chan _ = False"

definition call_step :: "nat \<Rightarrow> call \<Rightarrow> sch \<Rightarrow> sch res option" where
  "call_step c f s =
     (let a = at_loc s c
      in case f of
           CAcquire l \<Rightarrow> acq c l s Inr
         | CRelease l \<Rightarrow> Some (rel c l s Inr)
         | CIntr b \<Rightarrow> Some (Inr (set_intr c b s))
         | CReturn \<Rightarrow> (case a of Hdl r \<Rightarrow> Some (Inr (goto c r (set_intr c True s))) | _ \<Rightarrow> Some (Inl (Undefined ''sret'')))
         | CWakeup ch \<Rightarrow> Some (Inr (goto c (WkAcq a ch 0) s))
         | CYield \<Rightarrow> Some (Inr (goto c (YAcq a) s))
         | CSleep ch l \<Rightarrow> Some (Inr (goto c (SlpAcq ch l) s))
         | CKill pid \<Rightarrow> Some (Inr (goto c (KlAcq pid 0) s))
         | CExit st \<Rightarrow>
             (if cproc s c = Some init_proc then Some (Inl (Panic ''init exiting'')) else Some (Inr (goto c (ExInit st) s)))
         | CWait \<Rightarrow> Some (Inr (goto c WtAcq s))
         | CFork \<Rightarrow> Some (Inr (goto c (FkAcq 0) s)))"

text \<open>How the callers use these functions. A lock is acquired when it is not held and released when
  it is; \<open>yield\<close> from a handler has the test of \<open>kerneltrap\<close>; \<open>kill\<close>, \<open>exit\<close>, \<open>wait\<close> and \<open>fork\<close> are
  called without a lock; \<open>sleep\<close> is called by a process, not by a handler, with the lock it is
  given, and possibly with others, as \<open>consolewrite\<close> does when \<open>uartputc\<close> sleeps.\<close>

definition may_call :: "nat \<Rightarrow> call \<Rightarrow> sch \<Rightarrow> bool" where
  "may_call c f s \<longleftrightarrow>
     (let a = at_loc s c; h = harts (hw s) c
      in ordinary a \<and>
         (case f of
            CAcquire l \<Rightarrow> NPROC \<le> l \<and> \<not> holding c l (hw s)
          | CRelease l \<Rightarrow> NPROC \<le> l \<and> holding c l (hw s)
          | CIntr b \<Rightarrow> a = Run \<and> noff h = 0
          | CReturn \<Rightarrow> a \<noteq> Run \<and> noff h = 0
          | CWakeup ch \<Rightarrow> True
          | CYield \<Rightarrow> noff h = 0 \<and> (case cproc s c of None \<Rightarrow> False | Some p \<Rightarrow> sp_state (tab s p) = RUNNING)
          | CSleep ch l \<Rightarrow> a = Run \<and> NPROC \<le> l \<and> holding c l (hw s) \<and> \<not> proc_chan ch
          | _ \<Rightarrow> a = Run \<and> noff h = 0))"

inductive sched_step :: "sch \<Rightarrow> sch \<Rightarrow> bool" where
  irq: "intr (harts (hw s) c) \<Longrightarrow> sched_step s (goto c (Hdl (at_loc s c)) (set_intr c False s))"
| call: "may_call c f s \<Longrightarrow> call_step c f s = Some (Inr s') \<Longrightarrow> sched_step s s'"
| code: "\<not> ordinary (at_loc s c) \<Longrightarrow> code_step c w s = Some (Inr s') \<Longrightarrow> sched_step s s'"

text \<open>The start: \<open>userinit\<close> has made the first process, and every hart enters
  \<open>scheduler\<close>.\<close>

definition sched_start :: "sch \<Rightarrow> bool" where
  "sched_start s \<longleftrightarrow>
     (\<forall>l. \<not> locked (locks (hw s) l) \<and> lk_cpu (locks (hw s) l) = None) \<and>
     (\<forall>c. noff (harts (hw s) c) = 0 \<and> \<not> intr (harts (hw s) c) \<and> cproc s c = None \<and> cur s c = None \<and> sloc s c = SLoop) \<and>
     tab s init_proc = \<lparr>sp_state = RUNNABLE, sp_parent = None, sp_chan = NoChan, sp_killed = False, sp_xstate = 0, sp_pid = 1\<rparr> \<and>
     ploc s init_proc = Forkret \<and> next_pid s = 2 \<and>
     (\<forall>p. p \<noteq> init_proc \<longrightarrow> tab s p = free_entry (tab s p))"

inductive sched_reach :: "sch \<Rightarrow> bool" where
  start: "sched_start s \<Longrightarrow> sched_reach s"
| step: "sched_reach s \<Longrightarrow> sched_step s s' \<Longrightarrow> sched_reach s'"

section \<open>Locks\<close>

definition owned :: "machine \<Rightarrow> nat \<Rightarrow> nat set" where
  "owned m c = {l. lk_cpu (locks m l) = Some c}"

text \<open>The state of the locks between two steps: \<open>noff\<close> counts the locks of a hart, and
  interrupts are off while it has one.\<close>

definition good :: "machine \<Rightarrow> bool" where
  "good m \<longleftrightarrow>
     (\<forall>l. locked (locks m l) \<longleftrightarrow> lk_cpu (locks m l) \<noteq> None) \<and>
     (\<forall>c. finite (owned m c) \<and> noff (harts m c) = int (card (owned m c)) \<and>
        (owned m c \<noteq> {} \<longrightarrow> \<not> intr (harts m c)))"

lemma goodD:
  assumes "good m"
  shows "locked (locks m l) \<longleftrightarrow> lk_cpu (locks m l) \<noteq> None" and "finite (owned m c)"
    and "noff (harts m c) = int (card (owned m c))" and "l \<in> owned m c \<Longrightarrow> \<not> intr (harts m c)"
  using assms unfolding good_def by blast+

lemma good_disjoint: "l \<in> owned m c \<Longrightarrow> l \<in> owned m d \<Longrightarrow> c = d"
  by (simp add: owned_def)

lemma good_holding: "good m \<Longrightarrow> holding c l m \<longleftrightarrow> l \<in> owned m c"
  by (auto simp: holding_def owned_def dest: goodD(1))

lemma good_noff_0: "good m \<Longrightarrow> noff (harts m c) = 0 \<longleftrightarrow> owned m c = {}"
  using goodD(2,3) [of m c] by simp

lemma spin_locked: "spin l m = Some m' \<Longrightarrow> \<not> locked (locks m l)"
proof (erule spin.raw_induct [rotated])
  fix f l m m'
  assume "\<And>l m m'. f l m = Some m' \<Longrightarrow> \<not> locked (locks m l)"
    and "(let (old, s') = test_and_set l m in if old then f l s' else Some s') = Some m'"
  then show "\<not> locked (locks m l)"
    by (cases "locked (locks m l)") (fastforce simp: test_and_set_def on_lock_def)+
qed

lemma spin_free: "\<not> locked (locks m l) \<Longrightarrow> spin l m = Some (snd (test_and_set l m))"
  by (subst spin.simps) (simp add: test_and_set_def)

lemma spin_eq [code]: "spin l m = (if locked (locks m l) then None else Some (snd (test_and_set l m)))"
  using spin_locked [of l m] spin_free [of m l] by (cases "spin l m") auto

lemma acquire_cases:
  assumes m: "good m" and a: "acquire c l m = Some r" and l: "l \<notin> owned m c"
  obtains m' where "r = Inr m'" and "good m'" and "owned m' = (owned m)(c := insert l (owned m c))"
    and "\<And>d. l \<notin> owned m d"
proof -
  let ?m = "on_hart c push_off m"
  have h: "\<not> holding c l ?m" using l good_holding [OF m] by (simp add: holding_def on_hart_def)
  then obtain m1 where m1: "spin l ?m = Some m1" and r: "r = Inr (acquire_done c l m1)"
    using a by (auto simp: acquire_def acquire_enter_def Let_def)
  have free: "\<not> locked (locks m l)" using spin_locked [OF m1] by (simp add: on_hart_def)
  then have none: "lk_cpu (locks m l) = None" using goodD(1) [OF m] by blast
  then have un: "l \<notin> owned m d" for d by (simp add: owned_def)
  have m1': "m1 = on_lock l (locked_update (\<lambda>_. True)) ?m"
    using m1 free by (simp add: spin_free on_hart_def test_and_set_def)
  let ?r = "acquire_done c l m1"
  have o: "owned ?r = (owned m)(c := insert l (owned m c))"
    using none by (auto simp: fun_eq_iff owned_def m1' acquire_done_def on_lock_def on_hart_def split: if_splits)
  have "good ?r"
    unfolding good_def o
  proof (intro conjI allI)
    fix k show "locked (locks ?r k) \<longleftrightarrow> lk_cpu (locks ?r k) \<noteq> None"
      using goodD(1) [OF m] by (simp add: m1' acquire_done_def on_lock_def on_hart_def)
    fix d
    have "harts ?r = (harts m)(c := push_off (harts m c))"
      by (simp add: m1' acquire_done_def on_lock_def on_hart_def)
    then show "finite (((owned m)(c := insert l (owned m c))) d)"
      and "noff (harts ?r d) = int (card (((owned m)(c := insert l (owned m c))) d))"
      and "((owned m)(c := insert l (owned m c))) d \<noteq> {} \<longrightarrow> \<not> intr (harts ?r d)"
      using goodD(2,3) [OF m, of d] goodD(4) [OF m, of _ d] un by (auto simp: push_off_def Let_def)
  qed
  then show thesis using that r o un by blast
qed

lemma release_ok:
  assumes m: "good m" and l: "l \<in> owned m c"
  obtains m' where "release c l m = Inr m'" and "good m'" and "owned m' = (owned m)(c := owned m c - {l})"
proof -
  let ?m = "lock_release l (on_lock l (lk_cpu_update (\<lambda>_. None)) m)"
  have card: "0 < card (owned m c)" using l goodD(2) [OF m, of c] by (auto simp: card_gt_0_iff)
  define g where "g = harts m c"
  define h where "h = (let h1 = g\<lparr>noff := noff g - 1\<rparr> in if noff h1 = 0 \<and> intena h1 then h1\<lparr>intr := True\<rparr> else h1)"
  have g: "\<not> intr g" "\<not> noff g < 1"
    using card goodD(3) [OF m, of c] goodD(4) [OF m l] by (simp_all add: g_def)
  then have h: "pop_off (harts m c) = Inr h" unfolding pop_off_def h_def g_def by (simp add: Let_def)
  have hn: "noff h = noff (harts m c) - 1" and hi: "intr h \<Longrightarrow> noff h = 0"
    using g(1) unfolding h_def g_def by (simp_all add: Let_def split: if_splits)
  let ?r = "?m\<lparr>harts := (harts m)(c := h)\<rparr>"
  have r: "release c l m = Inr ?r"
    using good_holding [OF m] l h
    by (simp add: release_def release_enter_def release_done_def lock_release_def on_lock_def)
  have o: "owned ?r = (owned m)(c := owned m c - {l})"
    using l by (auto simp: fun_eq_iff owned_def lock_release_def on_lock_def)
  have "good ?r"
    unfolding good_def o
  proof (intro conjI allI)
    fix k show "locked (locks ?r k) \<longleftrightarrow> lk_cpu (locks ?r k) \<noteq> None"
      using goodD(1) [OF m] by (simp add: lock_release_def on_lock_def)
    fix d
    have "int (card (owned m c - {l})) = int (card (owned m c)) - 1"
      using l goodD(2) [OF m, of c] card by (simp add: card_Diff_singleton)
    then show "finite (((owned m)(c := owned m c - {l})) d)"
      and "noff (harts ?r d) = int (card (((owned m)(c := owned m c - {l})) d))"
      and "((owned m)(c := owned m c - {l})) d \<noteq> {} \<longrightarrow> \<not> intr (harts ?r d)"
      using goodD(2,3) [OF m, of d] goodD(4) [OF m, of _ d] goodD(2,3) [OF m, of c]
        hn hi by auto
  qed
  then show thesis using that r o by blast
qed

lemma good_intena: "good m \<Longrightarrow> good (on_hart c (intena_update f) m)"
  by (auto simp: good_def owned_def on_hart_def)

lemma good_intr: "good m \<Longrightarrow> owned m c = {} \<or> \<not> b \<Longrightarrow> good (on_hart c (intr_update (\<lambda>_. b)) m)"
  by (auto simp: good_def owned_def on_hart_def)

lemma owned_on_hart [simp]: "owned (on_hart c f m) = owned m"
  by (simp add: fun_eq_iff owned_def on_hart_def)

text \<open>\<open>acquire\<close> and \<open>release\<close> in a step.\<close>

lemma acqE:
  assumes "acq c l s k = Some r" and "good (hw s)" and "l \<notin> owned (hw s) c"
  obtains m where "r = k (s\<lparr>hw := m\<rparr>)" and "good m"
    and "owned m = (owned (hw s))(c := insert l (owned (hw s) c))" and "\<And>d. l \<notin> owned (hw s) d"
  using assms by (auto simp: acq_def elim: acquire_cases [OF assms(2) _ assms(3)])

lemma relE:
  assumes "good (hw s)" and "l \<in> owned (hw s) c"
  obtains m where "rel c l s k = k (s\<lparr>hw := m\<rparr>)" and "good m"
    and "owned m = (owned (hw s))(c := owned (hw s) c - {l})"
  by (rule release_ok [OF assms], rule that) (simp_all add: rel_def)

end
