(* ===== verification/SchedInv.thy ===== *)
theory SchedInv
  imports Sched
begin

text \<open>
  The invariants of the step relation of theory \<open>Sched\<close>: which locks a hart has at each
  location, which state a process is in when it runs and when it does not, the tree of
  processes, and what sleeping processes can rely on. Each step keeps them, and panics in none.
\<close>

section \<open>Invariants\<close>

subsection \<open>Locations, locks and states\<close>

text \<open>In \<open>sleep\<close> of process \<open>p\<close> a hart has \<open>p->lock\<close> and no lock of another process.\<close>

definition sleeper_locks :: "nat \<Rightarrow> nat set \<Rightarrow> bool" where
  "sleeper_locks p L \<longleftrightarrow> p \<in> L \<and> L \<inter> {..<NPROC} \<subseteq> {p}"

text \<open>The locks a hart has when the thread it runs, a process or its scheduler, is at a
  location.\<close>

fun hok :: "nat option \<Rightarrow> loc \<Rightarrow> nat set \<Rightarrow> bool"
and kok :: "nat \<Rightarrow> cont \<Rightarrow> bool" where
  "hok None SLoop L = (L = {})"
| "hok None (SAcq i) L = (L = {} \<and> i < NPROC)"
| "hok None (SBack i) L = (L = {i} \<and> i < NPROC)"
| "hok t (Hdl r) L = (L \<inter> {..<NPROC} = {} \<and> hok t r {})"
| "hok t (WkAcq r ch i) L = (L \<inter> {..<NPROC} = {} \<and> ordinary r \<and> i < NPROC \<and> hok t r L)"
| "hok (Some p) Run L = (L \<inter> {..<NPROC} = {})"
| "hok (Some p) Forkret L = (L = {p})"
| "hok (Some p) (YAcq r) L = (L = {} \<and> ordinary r \<and> hok (Some p) r {})"
| "hok (Some p) (Sched (KSleep l)) L = (sleeper_locks p L \<and> NPROC \<le> l)"
| "hok (Some p) (Sched k) L = (L = {p} \<and> kok p k)"
| "hok (Some p) (SchedRet ie k) L = (L = {p} \<and> kok p k \<and> k \<noteq> KExit)"
| "hok (Some p) (SlpAcq ch l) L = (l \<in> L \<and> L \<inter> {..<NPROC} = {} \<and> NPROC \<le> l \<and> (\<forall>q. ch \<noteq> ProcChan q))"
| "hok (Some p) (SlpRel ch l) L = (l \<in> L \<and> sleeper_locks p L \<and> NPROC \<le> l \<and> (\<forall>q. ch \<noteq> ProcChan q))"
| "hok (Some p) (SlpSet ch l) L = (l \<notin> L \<and> sleeper_locks p L \<and> NPROC \<le> l \<and> (\<forall>q. ch \<noteq> ProcChan q))"
| "hok (Some p) (SlpDone l) L = (L = {} \<and> NPROC \<le> l)"
| "hok (Some p) (KlAcq pid i) L = (L = {} \<and> i < NPROC)"
| "hok (Some p) (ExInit st) L = (L = {})"
| "hok (Some p) (ExPar st) L = (L = {})"
| "hok (Some p) (ExLockPar st q) L = (L = {} \<and> q < NPROC)"
| "hok (Some p) (ExLockSelf st q) L = (L = {q} \<and> q < NPROC)"
| "hok (Some p) (ExScan st q i) L = (L = {p, q} \<and> q < NPROC \<and> i \<le> NPROC)"
| "hok (Some p) (ExGive st q i) L = (L = {p, q} \<and> q < NPROC \<and> i < NPROC)"
| "hok (Some p) (ExFin st q) L = (L = {p, q} \<and> q < NPROC)"
| "hok (Some p) WtAcq L = (L = {})"
| "hok (Some p) (WtScan i kids) L = (L = {p} \<and> i \<le> NPROC)"
| "hok (Some p) (WtKid i kids) L = (L = {p} \<and> i < NPROC)"
| "hok (Some p) (FkAcq i) L = (L = {} \<and> i < NPROC)"
| "hok _ _ L = False"
| "kok p (KYield r) = (ordinary r \<and> hok (Some p) r {})"
| "kok p (KSleep l) = (NPROC \<le> l)"
| "kok p KWait = True"
| "kok p KExit = True"

lemma hok_no_locks [simp]: "\<not> sleeper_locks p {}" "\<not> hok (Some p) (Sched k) {}"
  by (cases k; simp add: sleeper_locks_def)+

text \<open>The state of a process that runs at a location, and the locations at which a process that
  does not run may be.\<close>

fun st_at :: "loc \<Rightarrow> procstate" where
  "st_at (Sched (KYield r)) = RUNNABLE"
| "st_at (Sched (KSleep l)) = SLEEPING"
| "st_at (Sched KWait) = SLEEPING"
| "st_at (Sched KExit) = ZOMBIE"
| "st_at _ = RUNNING"

fun parked :: "nat \<Rightarrow> loc \<Rightarrow> bool" where
  "parked p (SchedRet ie k) = (kok p k \<and> k \<noteq> KExit)"
| "parked p Forkret = True"
| "parked p _ = False"

abbreviation state_of :: "sch \<Rightarrow> nat \<Rightarrow> procstate" where "state_of s p \<equiv> sp_state (tab s p)"
abbreviation parent_of :: "sch \<Rightarrow> nat \<Rightarrow> nat option" where "parent_of s p \<equiv> sp_parent (tab s p)"
abbreviation pid_of :: "sch \<Rightarrow> nat \<Rightarrow> int" where "pid_of s p \<equiv> sp_pid (tab s p)"
abbreviation own :: "sch \<Rightarrow> nat \<Rightarrow> nat set" where "own s \<equiv> owned (hw s)"

definition runs :: "sch \<Rightarrow> nat \<Rightarrow> bool" where
  "runs s p \<longleftrightarrow> (\<exists>c. cur s c = Some p)"

definition run_inv :: "sch \<Rightarrow> bool" where
  "run_inv s \<longleftrightarrow>
     good (hw s) \<and>
     (\<forall>c. hok (cur s c) (at_loc s c) (own s c)) \<and>
     (\<forall>c p. cur s c = Some p \<longrightarrow>
        p < NPROC \<and> cproc s c = Some p \<and> sloc s c = SBack p \<and> state_of s p = st_at (ploc s p)) \<and>
     (\<forall>c. cur s c = None \<longrightarrow> cproc s c = (case sloc s c of SBack i \<Rightarrow> Some i | _ \<Rightarrow> None)) \<and>
     (\<forall>c d p. cur s c = Some p \<longrightarrow> cur s d = Some p \<longrightarrow> c = d) \<and>
     (\<forall>p. \<not> runs s p \<longrightarrow> state_of s p \<noteq> RUNNING \<and> (state_of s p \<in> {RUNNABLE, SLEEPING} \<longrightarrow> parked p (ploc s p)))"

lemma run_invD:
  assumes "run_inv s"
  shows "good (hw s)" and "hok (cur s c) (at_loc s c) (own s c)"
    and "cur s c = Some p \<Longrightarrow> p < NPROC" and "cur s c = Some p \<Longrightarrow> cproc s c = Some p"
    and "cur s c = Some p \<Longrightarrow> sloc s c = SBack p" and "cur s c = Some p \<Longrightarrow> state_of s p = st_at (ploc s p)"
    and "cur s c = None \<Longrightarrow> cproc s c = (case sloc s c of SBack i \<Rightarrow> Some i | _ \<Rightarrow> None)"
    and "cur s c = Some p \<Longrightarrow> cur s d = Some p \<Longrightarrow> c = d"
    and "\<not> runs s p \<Longrightarrow> state_of s p \<noteq> RUNNING"
    and "\<not> runs s p \<Longrightarrow> state_of s p \<in> {RUNNABLE, SLEEPING} \<Longrightarrow> parked p (ploc s p)"
  using assms unfolding run_inv_def by blast+

lemma at_loc_Some: "cur s c = Some p \<Longrightarrow> at_loc s c = ploc s p"
  by (simp add: at_loc_def)

text \<open>A process that is not \<open>RUNNING\<close> and whose lock no other hart has is executed by none.\<close>

lemma st_at_held: "st_at a \<noteq> RUNNING \<Longrightarrow> hok (Some p) a L \<Longrightarrow> sleeper_locks p L"
  by (cases a rule: st_at.cases) (auto simp: sleeper_locks_def)

lemma not_runs:
  assumes inv: "run_inv s" and "state_of s q \<noteq> RUNNING" and "\<And>d. d \<noteq> c \<Longrightarrow> q \<notin> own s d" and "cur s c \<noteq> Some q"
  shows "\<not> runs s q"
proof
  assume "runs s q"
  then obtain d where d: "cur s d = Some q" by (auto simp: runs_def)
  then have "q \<in> own s d"
    using run_invD(2,6) [OF inv, of d] assms(2) st_at_held [of "ploc s q" q "own s d"] by (simp add: at_loc_Some sleeper_locks_def)
  then show False using assms(3) [of d] assms(4) d by auto
qed

text \<open>A step of hart \<open>c\<close> within one thread, from \<open>s\<close> to \<open>s'\<close>.\<close>

lemma run_inv_local:
  assumes inv: "run_inv s" and cur: "cur s' = cur s"
    and hw: "good (hw s')" "own s' = (own s)(c := L')" and ok: "hok (cur s c) (at_loc s' c) L'"
    and sl: "\<And>d. d \<noteq> c \<Longrightarrow> sloc s' d = sloc s d \<and> cproc s' d = cproc s d"
    and slc: "if cur s c = None then cproc s' c = (case sloc s' c of SBack i \<Rightarrow> Some i | _ \<Rightarrow> None)
              else sloc s' c = sloc s c \<and> cproc s' c = cproc s c"
    and pl: "\<And>p. runs s p \<Longrightarrow> cur s c \<noteq> Some p \<Longrightarrow> ploc s' p = ploc s p \<and> state_of s' p = state_of s p"
    and st: "\<And>p. cur s c = Some p \<Longrightarrow> state_of s' p = st_at (ploc s' p)"
    and idle: "\<And>p. \<not> runs s p \<Longrightarrow>
      state_of s' p \<noteq> RUNNING \<and> (state_of s' p \<in> {RUNNABLE, SLEEPING} \<longrightarrow> parked p (ploc s' p))"
  shows "run_inv s'"
proof -
  have runs: "runs s' p \<longleftrightarrow> runs s p" for p by (simp add: runs_def cur)
  have other: "ploc s' p = ploc s p \<and> state_of s' p = state_of s p" if "cur s d = Some p" "d \<noteq> c" for d p
  proof (rule pl)
    show "runs s p" using that by (auto simp: runs_def)
    show "cur s c \<noteq> Some p" using run_invD(8) [OF inv that(1), of c] that(2) by auto
  qed
  have at: "at_loc s' d = at_loc s d" if "d \<noteq> c" for d
    using other [of d] sl [of d] that by (simp add: at_loc_def cur split: option.split)
  show ?thesis
    unfolding run_inv_def runs
  proof (intro conjI allI impI)
    show "hok (cur s' d) (at_loc s' d) (own s' d)" for d
      using ok run_invD(2) [OF inv, of d] at [of d] by (simp add: cur hw(2))
  next
    fix d p assume d: "cur s' d = Some p"
    show "p < NPROC" "cproc s' d = Some p" "sloc s' d = SBack p" "state_of s' p = st_at (ploc s' p)"
      using run_invD(3-6) [OF inv d [unfolded cur]] d other [of d p] sl [of d] slc st [of p]
      by (cases "d = c"; simp add: cur)+
  next
    fix d assume "cur s' d = None"
    then show "cproc s' d = (case sloc s' d of SBack i \<Rightarrow> Some i | _ \<Rightarrow> None)"
      using run_invD(7) [OF inv, of d] sl [of d] slc by (cases "d = c"; simp add: cur)
  next
    fix d e p assume "cur s' d = Some p" "cur s' e = Some p"
    then show "d = e" using run_invD(8) [OF inv] by (simp add: cur)
  qed (use hw idle in auto)
qed

subsection \<open>Parents and children\<close>

text \<open>Where a process is below interrupts, \<open>wakeup\<close> and \<open>yield\<close>.\<close>

fun base :: "loc \<Rightarrow> loc" where
  "base (Hdl r) = base r"
| "base (WkAcq r ch i) = base r"
| "base (YAcq r) = base r"
| "base (Sched (KYield r)) = base r"
| "base (SchedRet ie (KYield r)) = base r"
| "base a = a"

text \<open>What \<open>exit\<close> and \<open>wait\<close> of process \<open>p\<close> know of the parents \<open>P\<close>: \<open>q\<close> is the parent or was it
  before it exited, and no child of \<open>p\<close>; the entries below \<open>i\<close> are no children.\<close>

definition exit_ok :: "(nat \<Rightarrow> nat option) \<Rightarrow> nat \<Rightarrow> nat \<Rightarrow> bool" where
  "exit_ok P p q \<longleftrightarrow> p \<noteq> init_proc \<and> q \<noteq> p \<and> P q \<noteq> Some p \<and> (P p = Some q \<or> P p = Some init_proc)"

fun base_ok :: "(nat \<Rightarrow> nat option) \<Rightarrow> nat \<Rightarrow> loc \<Rightarrow> bool" where
  "base_ok P p (ExInit st) = (p \<noteq> init_proc)"
| "base_ok P p (ExPar st) = (p \<noteq> init_proc)"
| "base_ok P p (ExLockPar st q) = exit_ok P p q"
| "base_ok P p (ExLockSelf st q) = exit_ok P p q"
| "base_ok P p (ExScan st q i) = (exit_ok P p q \<and> (\<forall>j<i. P j \<noteq> Some p))"
| "base_ok P p (ExGive st q i) = (exit_ok P p q \<and> (\<forall>j<i. P j \<noteq> Some p) \<and> P i = Some p)"
| "base_ok P p (ExFin st q) = (exit_ok P p q \<and> (\<forall>j<NPROC. P j \<noteq> Some p))"
| "base_ok P p (WtKid i kids) = (P i = Some p)"
| "base_ok P p a = True"

definition alive :: "procstate \<Rightarrow> bool" where
  "alive x \<longleftrightarrow> x \<noteq> UNUSED \<and> x \<noteq> ZOMBIE"

definition tree_inv :: "sch \<Rightarrow> bool" where
  "tree_inv s \<longleftrightarrow>
     (\<forall>p q. parent_of s p = Some q \<longrightarrow> p < NPROC \<and> pid_of s q < pid_of s p \<and> state_of s p \<noteq> UNUSED \<and> alive (state_of s q)) \<and>
     (\<forall>p. state_of s p \<noteq> UNUSED \<longrightarrow>
        p < NPROC \<and> 0 < pid_of s p \<and> pid_of s p < next_pid s \<and> (p \<noteq> init_proc \<longrightarrow> parent_of s p \<noteq> None)) \<and>
     parent_of s init_proc = None \<and> pid_of s init_proc = 1 \<and> alive (state_of s init_proc) \<and>
     (\<forall>p. alive (state_of s p) \<longrightarrow> base_ok (parent_of s) p (base (ploc s p)))"

lemma tree_invD:
  assumes "tree_inv s"
  shows "parent_of s p = Some q \<Longrightarrow> p < NPROC" and "parent_of s p = Some q \<Longrightarrow> pid_of s q < pid_of s p"
    and "parent_of s p = Some q \<Longrightarrow> state_of s p \<noteq> UNUSED" and "parent_of s p = Some q \<Longrightarrow> alive (state_of s q)"
    and "state_of s p \<noteq> UNUSED \<Longrightarrow> p < NPROC" and "state_of s p \<noteq> UNUSED \<Longrightarrow> 0 < pid_of s p"
    and "state_of s p \<noteq> UNUSED \<Longrightarrow> pid_of s p < next_pid s"
    and "state_of s p \<noteq> UNUSED \<Longrightarrow> p \<noteq> init_proc \<Longrightarrow> parent_of s p \<noteq> None"
    and "parent_of s init_proc = None" and "pid_of s init_proc = 1" and "alive (state_of s init_proc)"
    and "alive (state_of s p) \<Longrightarrow> base_ok (parent_of s) p (base (ploc s p))"
  using assms unfolding tree_inv_def by blast+

subsection \<open>Sleep and wakeup\<close>

text \<open>A process other than the first that sleeps in \<open>wait\<close> has no exited child, and the scan of
  \<open>wait\<close> has passed none.\<close>

definition wait_inv :: "sch \<Rightarrow> bool" where
  "wait_inv s \<longleftrightarrow>
     (\<forall>p j. p \<noteq> init_proc \<longrightarrow> parent_of s j = Some p \<longrightarrow> state_of s j = ZOMBIE \<longrightarrow>
        \<not> (state_of s p = SLEEPING \<and> sp_chan (tab s p) = ProcChan p) \<and>
        (\<forall>i kids. state_of s p = RUNNING \<longrightarrow> ploc s p \<in> {WtScan i kids, WtKid i kids} \<longrightarrow> i \<le> j))"

text \<open>Process \<open>j\<close> has called \<open>sleep(ch, l)\<close>, has released \<open>l\<close>, and has not been woken up.\<close>

definition committed :: "sch \<Rightarrow> nat \<Rightarrow> chan \<Rightarrow> nat \<Rightarrow> bool" where
  "committed s j ch l \<longleftrightarrow>
     state_of s j = RUNNING \<and> ploc s j = SlpSet ch l \<or>
     state_of s j = SLEEPING \<and> sp_chan (tab s j) = ch \<and>
       (ploc s j = Sched (KSleep l) \<or> (\<exists>ie. ploc s j = SchedRet ie (KSleep l)))"

definition wake_inv :: "sch \<Rightarrow> bool" where
  "wake_inv s \<longleftrightarrow>
     (\<forall>c r ch i l j. at_loc s c = WkAcq r ch i \<longrightarrow> l \<in> own s c \<longrightarrow> j < i \<longrightarrow> \<not> committed s j ch l)"

definition sched_inv :: "sch \<Rightarrow> bool" where
  "sched_inv s \<longleftrightarrow> run_inv s \<and> tree_inv s \<and> wait_inv s \<and> wake_inv s"

lemma tree_inv_cong:
  assumes t: "tree_inv s" and par: "parent_of s' = parent_of s" and pid: "pid_of s' = pid_of s" and "next_pid s' = next_pid s"
    and al: "\<And>q. alive (state_of s' q) = alive (state_of s q) \<and> (state_of s' q = UNUSED) = (state_of s q = UNUSED)"
    and bs: "\<And>p. alive (state_of s p) \<Longrightarrow> base_ok (parent_of s) p (base (ploc s' p))"
  shows "tree_inv s'"
  unfolding tree_inv_def par [THEN fun_cong] pid [THEN fun_cong] assms(4)
  using tree_invD(1-11) [OF t] al bs by auto

subsection \<open>Steps that change at most states and channels\<close>

lemma st_at_alive: "a \<noteq> Sched KExit \<Longrightarrow> alive (st_at a)"
  by (cases a rule: st_at.cases) (auto simp: alive_def)

lemma sched_inv_quiet:
  assumes inv: "sched_inv s" and cur: "cur s' = cur s" and np: "next_pid s' = next_pid s"
    and hw: "good (hw s')" "own s' = (own s)(c := L')"
    and a: "at_loc s' c = a" "hok (cur s c) a L'" and a0: "at_loc s c \<noteq> Sched KExit"
    and sl: "\<And>d. d \<noteq> c \<Longrightarrow> sloc s' d = sloc s d \<and> cproc s' d = cproc s d"
    and slc: "if cur s c = None then cproc s' c = (case sloc s' c of SBack i \<Rightarrow> Some i | _ \<Rightarrow> None)
              else sloc s' c = sloc s c \<and> cproc s' c = cproc s c"
    and par: "parent_of s' = parent_of s" and pid: "pid_of s' = pid_of s"
    and oth: "\<And>q. cur s c \<noteq> Some q \<Longrightarrow> ploc s' q = ploc s q \<and> (state_of s' q = state_of s q \<and> sp_chan (tab s' q) = sp_chan (tab s q) \<or>
       state_of s q = SLEEPING \<and> state_of s' q = RUNNABLE \<and> (\<forall>d. d \<noteq> c \<longrightarrow> q \<notin> own s d))"
    and st: "\<And>p. cur s c = Some p \<Longrightarrow> a \<noteq> Sched KExit \<and> state_of s' p = st_at a \<and> base_ok (parent_of s) p (base a)"
    and wt: "\<And>p j. cur s c = Some p \<Longrightarrow> p \<noteq> init_proc \<Longrightarrow> parent_of s j = Some p \<Longrightarrow> state_of s j = ZOMBIE \<Longrightarrow>
       \<not> (state_of s' p = SLEEPING \<and> sp_chan (tab s' p) = ProcChan p) \<and> (\<forall>i kids. a \<in> {WtScan i kids, WtKid i kids} \<longrightarrow> i \<le> j)"
    and cm: "\<And>p ch l. cur s c = Some p \<Longrightarrow> committed s' p ch l \<Longrightarrow> committed s p ch l \<or> l \<in> own s c"
    and wk: "\<And>r ch i l j. a = WkAcq r ch i \<Longrightarrow> l \<in> L' \<Longrightarrow> j < i \<Longrightarrow> \<not> committed s' j ch l"
  shows "sched_inv s'"
proof -
  have r: "run_inv s" and t: "tree_inv s" and w: "wait_inv s" and k: "wake_inv s"
    using inv by (auto simp: sched_inv_def)
  have nr: "\<not> runs s q" if "state_of s q = SLEEPING" "\<forall>d. d \<noteq> c \<longrightarrow> q \<notin> own s d" "cur s c \<noteq> Some q" for q
    using that by (intro not_runs [OF r, of _ c]) auto
  have loc: "a = ploc s' p" if "cur s c = Some p" for p using that a(1) by (simp add: at_loc_def cur)
  have al: "alive (state_of s p)" if "cur s c = Some p" for p
    using that a0 run_invD(6) [OF r that] by (simp add: at_loc_Some st_at_alive)
  have al': "alive (state_of s' q) = alive (state_of s q) \<and> (state_of s' q = UNUSED) = (state_of s q = UNUSED)
      \<and> (state_of s' q = ZOMBIE) = (state_of s q = ZOMBIE)" for q
    using oth [of q] st [of q] al [of q] st_at_alive [of a] by (cases "cur s c = Some q") (auto simp: alive_def)
  have "run_inv s'"
  proof (rule run_inv_local [OF r cur hw _ sl slc])
    show "hok (cur s c) (at_loc s' c) L'" using a by simp
    show "ploc s' p = ploc s p \<and> state_of s' p = state_of s p" if "runs s p" "cur s c \<noteq> Some p" for p
      using oth [OF that(2)] nr [of p] that by auto
    show "state_of s' p = st_at (ploc s' p)" if "cur s c = Some p" for p using st [OF that] loc [OF that] by simp
    show "state_of s' p \<noteq> RUNNING \<and> (state_of s' p \<in> {RUNNABLE, SLEEPING} \<longrightarrow> parked p (ploc s' p))" if "\<not> runs s p" for p
    proof -
      have "cur s c \<noteq> Some p" using that by (auto simp: runs_def)
      then show ?thesis using oth [of p] run_invD(9,10) [OF r that] by auto
    qed
  qed
  moreover have "tree_inv s'"
  proof (rule tree_inv_cong [OF t par pid np])
    show "base_ok (parent_of s) p (base (ploc s' p))" if "alive (state_of s p)" for p
      using that oth [of p] st [of p] loc [of p] tree_invD(12) [OF t, of p] by (cases "cur s c = Some p") auto
  qed (use al' in blast)
  moreover have "wait_inv s'"
    unfolding wait_inv_def par [THEN fun_cong]
  proof (intro allI impI)
    fix p j assume p: "p \<noteq> init_proc" "parent_of s j = Some p" "state_of s' j = ZOMBIE"
    then have z: "state_of s j = ZOMBIE" using al' by blast
    show "\<not> (state_of s' p = SLEEPING \<and> sp_chan (tab s' p) = ProcChan p) \<and>
        (\<forall>i kids. state_of s' p = RUNNING \<longrightarrow> ploc s' p \<in> {WtScan i kids, WtKid i kids} \<longrightarrow> i \<le> j)"
    proof (cases "cur s c = Some p")
      case True
      then show ?thesis using wt [OF True p(1,2) z] loc [OF True] by auto
    next
      case False
      then show ?thesis using oth [OF False] w [unfolded wait_inv_def, rule_format, OF p(1,2) z] by auto
    qed
  qed
  moreover have "wake_inv s'"
    unfolding wake_inv_def
  proof (intro allI impI)
    fix d rr ch i l j assume d: "at_loc s' d = WkAcq rr ch i" "l \<in> own s' d" "j < i"
    show "\<not> committed s' j ch l"
    proof (cases "d = c")
      case True
      then show ?thesis using wk [of rr ch i l j] d a(1) hw(2) by simp
    next
      case False
      have "at_loc s' d = at_loc s d"
        using sl [OF False] oth False run_invD(8) [OF r, of d _ c] by (auto simp: at_loc_def cur split: option.split)
      then have "at_loc s d = WkAcq rr ch i" and o: "l \<in> own s d" using d False hw(2) by simp_all
      then have "\<not> committed s j ch l" using d(3) k [unfolded wake_inv_def] by blast
      moreover have "l \<notin> own s c" using False o good_disjoint by blast
      ultimately show ?thesis
        using cm [of j ch l] oth [of j] by (cases "cur s c = Some j") (auto simp: committed_def)
    qed
  qed
  ultimately show ?thesis by (simp add: sched_inv_def)
qed

lemma goto_fields [simp]:
  "hw (goto c a s) = hw s" "cur (goto c a s) = cur s" "cproc (goto c a s) = cproc s" "tab (goto c a s) = tab s"
  "next_pid (goto c a s) = next_pid s" "at_loc (goto c a s) c = a"
  by (auto simp: goto_def at_loc_def split: option.split)

lemma goto_sloc: "sloc (goto c a s) d = (if d = c \<and> cur s c = None then a else sloc s d)"
  by (auto simp: goto_def split: option.split)

lemma goto_ploc: "ploc (goto c a s) p = (if cur s c = Some p then a else ploc s p)"
  by (auto simp: goto_def split: option.split)

lemma on_tab_fields [simp]:
  "hw (on_tab p f s) = hw s" "cur (on_tab p f s) = cur s" "cproc (on_tab p f s) = cproc s" "sloc (on_tab p f s) = sloc s"
  "ploc (on_tab p f s) = ploc s" "next_pid (on_tab p f s) = next_pid s" "tab (on_tab p f s) = (tab s)(p := f (tab s p))"
  by (simp_all add: on_tab_def)

lemma goto_proc:
  assumes "cur s c = Some p"
  shows "sloc (goto c a s) = sloc s" and "ploc (goto c a s) = (ploc s)(p := a)"
  using assms by (simp_all add: goto_def)

lemmas goto_simps = goto_sloc goto_ploc

lemma on_tab_hw: "(on_tab p f s)\<lparr>hw := m\<rparr> = on_tab p f (s\<lparr>hw := m\<rparr>)"
  by (cases s) (simp add: on_tab_def)

text \<open>The current thread moves to \<open>a\<close> and does nothing else but take or give back a lock.\<close>

lemma sched_inv_move:
  assumes inv: "sched_inv s" and hw: "good m" "owned m = (own s)(c := L')" and ok: "hok (cur s c) a L'"
    and st: "st_at (at_loc s c) = RUNNING" "st_at a = RUNNING" and sl: "cur s c = None \<Longrightarrow> (\<forall>i. at_loc s c \<noteq> SBack i) \<and> (\<forall>i. a \<noteq> SBack i)"
    and bs: "\<And>p. cur s c = Some p \<Longrightarrow> base_ok (parent_of s) p (base a)"
    and wt: "\<And>p i kids j. cur s c = Some p \<Longrightarrow> a \<in> {WtScan i kids, WtKid i kids} \<Longrightarrow> p \<noteq> init_proc \<Longrightarrow> parent_of s j = Some p \<Longrightarrow>
      state_of s j = ZOMBIE \<Longrightarrow> i \<le> j"
    and cm: "\<And>ch l. a = SlpSet ch l \<Longrightarrow> l \<in> own s c"
    and wk: "\<And>r ch i l j. a = WkAcq r ch i \<Longrightarrow> l \<in> L' \<Longrightarrow> j < i \<Longrightarrow> \<not> committed s j ch l"
  shows "sched_inv (goto c a (s\<lparr>hw := m\<rparr>))"
proof (rule sched_inv_quiet [OF inv, where c = c and L' = L' and a = a])
  have r: "run_inv s" using inv by (simp add: sched_inv_def)
  show "at_loc s c \<noteq> Sched KExit" using st(1) by auto
  have run: "state_of s p = RUNNING" if "cur s c = Some p" for p
    using run_invD(6) [OF r that] st(1) that by (simp add: at_loc_Some)
  show "if cur s c = None
    then cproc (goto c a (s\<lparr>hw := m\<rparr>)) c = (case sloc (goto c a (s\<lparr>hw := m\<rparr>)) c of SBack i \<Rightarrow> Some i | _ \<Rightarrow> None)
    else sloc (goto c a (s\<lparr>hw := m\<rparr>)) c = sloc s c \<and> cproc (goto c a (s\<lparr>hw := m\<rparr>)) c = cproc s c"
    using sl run_invD(7) [OF r, of c] by (auto simp: goto_simps at_loc_def split: loc.splits)
  show "\<not> committed (goto c a (s\<lparr>hw := m\<rparr>)) j ch l" if "a = WkAcq rr ch i" "l \<in> L'" "j < i" for rr ch i l j
    using wk [OF that] run [of j] that(1) by (auto simp: committed_def goto_simps)
  show "a \<noteq> Sched KExit \<and> state_of (goto c a (s\<lparr>hw := m\<rparr>)) p = st_at a \<and> base_ok (parent_of s) p (base a)"
    if "cur s c = Some p" for p
    using bs [OF that] run [OF that] st(2) by auto
  show "committed s p ch l \<or> l \<in> own s c" if "cur s c = Some p" "committed (goto c a (s\<lparr>hw := m\<rparr>)) p ch l" for p ch l
    using cm [of ch l] run [of p] that by (auto simp: committed_def goto_simps)
  show "\<not> (state_of (goto c a (s\<lparr>hw := m\<rparr>)) p = SLEEPING \<and> sp_chan (tab (goto c a (s\<lparr>hw := m\<rparr>)) p) = ProcChan p) \<and>
      (\<forall>i kids. a \<in> {WtScan i kids, WtKid i kids} \<longrightarrow> i \<le> j)"
    if "cur s c = Some p" "p \<noteq> init_proc" "parent_of s j = Some p" "state_of s j = ZOMBIE" for p j
    using run [OF that(1)] wt [OF that(1) _ that(2-4)] by auto
qed (use hw ok in \<open>simp_all add: goto_simps\<close>)

definition safe :: "sch res \<Rightarrow> bool" where
  "safe r \<longleftrightarrow> (\<exists>s'. r = Inr s' \<and> sched_inv s')"

lemma safe_Inr [simp]: "safe (Inr s) = sched_inv s"
  by (simp add: safe_def)

lemma sched_inv_good: "sched_inv s \<Longrightarrow> good (hw s)"
  by (auto simp: sched_inv_def dest: run_invD(1))

lemma acq_safe:
  assumes "acq c l s k = Some r" and "good (hw s)" and "l \<notin> own s c"
    and "\<And>m. good m \<Longrightarrow> owned m = (own s)(c := insert l (own s c)) \<Longrightarrow> (\<And>d. l \<notin> own s d) \<Longrightarrow> safe (k (s\<lparr>hw := m\<rparr>))"
  shows "safe r"
  using acqE [OF assms(1-3)] assms(4) by metis

lemma rel_safe:
  assumes "good (hw s)" and "l \<in> own s c"
    and "\<And>m. good m \<Longrightarrow> owned m = (own s)(c := own s c - {l}) \<Longrightarrow> safe (k (s\<lparr>hw := m\<rparr>))"
  shows "safe (rel c l s k)"
  using relE [OF assms(1-2)] assms(3) by metis

text \<open>A critical section of lock \<open>l\<close>.\<close>

lemma acq_relE:
  assumes "acq c l s (\<lambda>s1. rel c l (f s1) k) = Some r" and "good (hw s)" and "l \<notin> own s c" and f: "\<And>s1. hw (f s1) = hw s1"
  obtains m m' where "r = k ((f (s\<lparr>hw := m\<rparr>))\<lparr>hw := m'\<rparr>)" and "good m" and "good m'" and "owned m' = own s" and "\<And>d. l \<notin> own s d"
proof -
  obtain m where m: "r = rel c l (f (s\<lparr>hw := m\<rparr>)) k" "good m" "owned m = (own s)(c := insert l (own s c))" "\<And>d. l \<notin> own s d"
    using acqE [OF assms(1-3)] by metis
  obtain m' where "rel c l (f (s\<lparr>hw := m\<rparr>)) k = k ((f (s\<lparr>hw := m\<rparr>))\<lparr>hw := m'\<rparr>)" "good m'" "owned m' = (owned m)(c := owned m c - {l})"
    using relE [of "f (s\<lparr>hw := m\<rparr>)" l c k] m f by auto
  then show thesis using m assms(3) by (intro that [of m' m]) (simp_all add: fun_upd_idem)
qed

lemma acq_rel_safe:
  assumes "acq c l s (\<lambda>s1. rel c l (f s1) k) = Some r" and "good (hw s)" and "l \<notin> own s c"
    and "\<And>s1. hw (f s1) = hw s1"
    and "\<And>m m'. good m \<Longrightarrow> good m' \<Longrightarrow> owned m' = own s \<Longrightarrow> (\<And>d. l \<notin> own s d) \<Longrightarrow> safe (k ((f (s\<lparr>hw := m\<rparr>))\<lparr>hw := m'\<rparr>))"
  shows "safe r"
  using acq_relE [OF assms(1-4)] assms(5) by metis

text \<open>The current process changes its own state or channel.\<close>

lemma sched_inv_own:
  assumes inv: "sched_inv s" and p: "cur s c = Some p" "ploc s p \<noteq> Sched KExit" and a: "a \<noteq> Sched KExit" "\<And>r ch i. a \<noteq> WkAcq r ch i"
    and hw: "good m" "owned m = (own s)(c := L')" and ok: "hok (Some p) a L'"
    and f: "\<And>x. sp_parent (f x) = sp_parent x \<and> sp_pid (f x) = sp_pid x" and st: "sp_state (f (tab s p)) = st_at a"
    and bs: "base_ok (parent_of s) p (base a)"
    and wt: "\<And>j. p \<noteq> init_proc \<Longrightarrow> parent_of s j = Some p \<Longrightarrow> state_of s j = ZOMBIE \<Longrightarrow>
      \<not> (st_at a = SLEEPING \<and> sp_chan (f (tab s p)) = ProcChan p) \<and> (\<forall>i kids. a \<in> {WtScan i kids, WtKid i kids} \<longrightarrow> i \<le> j)"
    and cm: "\<And>ch l. a = Sched (KSleep l) \<Longrightarrow> ploc s p = SlpSet (sp_chan (f (tab s p))) l" "\<And>ch l. a \<noteq> SlpSet ch l"
      "\<And>ie k. a \<noteq> SchedRet ie k"
  shows "sched_inv (goto c a (on_tab p f (s\<lparr>hw := m\<rparr>)))"
proof (rule sched_inv_quiet [OF inv, where c = c and L' = L' and a = a])
  have r: "run_inv s" using inv by (simp add: sched_inv_def)
  let ?s = "goto c a (on_tab p f (s\<lparr>hw := m\<rparr>))"
  show "committed s q ch l \<or> l \<in> own s c" if "cur s c = Some q" "committed ?s q ch l" for q ch l
    using that cm(1) [of l] cm(2,3) p run_invD(6) [OF r p(1)] by (auto simp: committed_def goto_simps)
  show "\<not> (state_of ?s q = SLEEPING \<and> sp_chan (tab ?s q) = ProcChan q) \<and> (\<forall>i kids. a \<in> {WtScan i kids, WtKid i kids} \<longrightarrow> i \<le> j)"
    if "cur s c = Some q" "q \<noteq> init_proc" "parent_of s j = Some q" "state_of s j = ZOMBIE" for q j
    using wt [of j] st p(1) that by (auto simp del: insert_iff)
qed (use p a hw ok f st bs in \<open>auto simp: goto_simps at_loc_Some fun_eq_iff\<close>)

lemma procD:
  assumes "sched_inv s" and "cur s c = Some p" and "ploc s p = a"
  shows "hok (Some p) a (own s c)" and "state_of s p = st_at a" and "p < NPROC" and "at_loc s c = a" and "cproc s c = Some p"
    and "a \<noteq> Sched KExit \<Longrightarrow> base_ok (parent_of s) p (base a)"
proof -
  have r: "run_inv s" and t: "tree_inv s" using assms(1) by (auto simp: sched_inv_def)
  show "hok (Some p) a (own s c)" "state_of s p = st_at a" "p < NPROC" "cproc s c = Some p" "at_loc s c = a"
    using run_invD(2-4,6) [OF r, of c] assms(2,3) by (auto simp: at_loc_def)
  then show "base_ok (parent_of s) p (base a)" if "a \<noteq> Sched KExit"
    using tree_invD(12) [OF t, of p] st_at_alive [OF that] assms(3) by simp
qed

lemma sleep_safe:
  assumes inv: "sched_inv s" and p: "cur s c = Some p" "ploc s p = a"
    and a: "a \<in> {SlpAcq ch l, SlpRel ch l, SlpSet ch l, SlpDone l}" and r: "sleep_step c p a s = Some r"
  shows "safe r"
proof -
  note pD = procD [OF inv p] and g = sched_inv_good [OF inv]
  consider "a = SlpAcq ch l" | "a = SlpRel ch l" | "a = SlpSet ch l" | "a = SlpDone l" using a by auto
  then show ?thesis
  proof cases
    case 1
    have o: "l \<in> own s c" "p \<notin> own s c" "own s c \<inter> {..<NPROC} = {}" using pD(1,3) 1 by auto
    have "acq c p s (\<lambda>s1. Inr (goto c (SlpRel ch l) s1)) = Some r" using r 1 by (simp add: sleep_step_def)
    from this g o(2) show ?thesis
      by (rule acq_safe, simp) (rule sched_inv_move [OF inv], use pD 1 p o in \<open>auto simp: sleeper_locks_def\<close>)
  next
    case 2
    have o: "l \<in> own s c" "sleeper_locks p (own s c - {l})" using pD(1,3) 2 by (auto simp: sleeper_locks_def)
    have "r = rel c l s (\<lambda>s1. Inr (goto c (SlpSet ch l) s1))" using r 2 by (simp add: sleep_step_def)
    then show ?thesis
      by (auto intro!: rel_safe [OF g] sched_inv_move [OF inv]) (use pD 2 p o in auto)
  next
    case 3
    have e: "r = Inr (goto c (Sched (KSleep l)) (on_tab p (\<lambda>x. x\<lparr>sp_chan := ch, sp_state := SLEEPING\<rparr>) (s\<lparr>hw := hw s\<rparr>)))"
      using r 3 by (simp add: sleep_step_def)
    show ?thesis
      unfolding e safe_Inr by (rule sched_inv_own [OF inv p(1), where L' = "own s c"], use pD 3 p g in \<open>auto simp: fun_upd_idem\<close>)
  next
    case 4
    have o: "own s c = {}" using pD(1) 4 by auto
    have "acq c l s (\<lambda>s1. Inr (goto c Run s1)) = Some r" using r 4 by (simp add: sleep_step_def)
    from this g show ?thesis
      by (rule acq_safe, simp add: o, simp) (rule sched_inv_move [OF inv], use pD 4 p o in auto)
  qed
qed

lemma yield_safe:
  assumes inv: "sched_inv s" and p: "cur s c = Some p" "ploc s p = YAcq x" and r: "yield_step c p x s = Some r"
  shows "safe r"
proof -
  note pD = procD [OF inv p] and g = sched_inv_good [OF inv]
  have o: "own s c = {}" "p \<notin> own s c" using pD(1) by auto
  from r [unfolded yield_step_def] g o(2) show ?thesis
    by (rule acq_safe, simp) (rule sched_inv_own [OF inv p(1)], use pD p o in auto)
qed

text \<open>A process that is not executed, or the current one, is woken up or marked as killed.\<close>

lemma sched_inv_poke:
  assumes inv: "sched_inv s" and hw: "good m" "owned m = own s" and ok: "hok (cur s c) b (own s c)"
    and st: "st_at (at_loc s c) = RUNNING" "st_at b = RUNNING" and sl: "cur s c = None \<Longrightarrow> (\<forall>i. at_loc s c \<noteq> SBack i) \<and> (\<forall>i. b \<noteq> SBack i)"
    and free: "\<And>d. i \<notin> own s d"
    and f: "\<And>x. sp_parent (f x) = sp_parent x \<and> sp_pid (f x) = sp_pid x \<and> sp_chan (f x) = sp_chan x \<and>
      (sp_state (f x) = sp_state x \<or> sp_state x = SLEEPING \<and> sp_state (f x) = RUNNABLE)"
    and bs: "\<And>p. cur s c = Some p \<Longrightarrow> base_ok (parent_of s) p (base b)"
    and b: "\<And>k kids. b \<noteq> WtScan k kids" "\<And>k kids. b \<noteq> WtKid k kids" "\<And>ch l. b \<noteq> SlpSet ch l"
    and wk: "\<And>r ch k l j. b = WkAcq r ch k \<Longrightarrow> l \<in> own s c \<Longrightarrow> j < k \<Longrightarrow> \<not> committed (goto c b (on_tab i f (s\<lparr>hw := m\<rparr>))) j ch l"
  shows "sched_inv (goto c b (on_tab i f (s\<lparr>hw := m\<rparr>)))"
proof (rule sched_inv_quiet [OF inv, where c = c and L' = "own s c" and a = b])
  have r: "run_inv s" using inv by (simp add: sched_inv_def)
  let ?s = "goto c b (on_tab i f (s\<lparr>hw := m\<rparr>))"
  show "at_loc s c \<noteq> Sched KExit" using st(1) by auto
  have run: "state_of s p = RUNNING \<and> state_of ?s p = RUNNING" if "cur s c = Some p" for p
    using run_invD(6) [OF r that] st(1) that f [of "tab s i"] by (auto simp: at_loc_Some)
  show "if cur s c = None then cproc ?s c = (case sloc ?s c of SBack i \<Rightarrow> Some i | _ \<Rightarrow> None)
    else sloc ?s c = sloc s c \<and> cproc ?s c = cproc s c"
    using sl run_invD(7) [OF r, of c] by (auto simp: goto_simps at_loc_def split: loc.splits)
  show "b \<noteq> Sched KExit \<and> state_of ?s p = st_at b \<and> base_ok (parent_of s) p (base b)" if "cur s c = Some p" for p
    using bs [OF that] run [OF that] st(2) by auto
  show "committed s p ch l \<or> l \<in> own s c" if "cur s c = Some p" "committed ?s p ch l" for p ch l
    using run [of p] that b(3) by (auto simp: committed_def goto_simps)
  show "\<not> (state_of ?s p = SLEEPING \<and> sp_chan (tab ?s p) = ProcChan p) \<and> (\<forall>i kids. b \<in> {WtScan i kids, WtKid i kids} \<longrightarrow> i \<le> j)"
    if "cur s c = Some p" for p j
    using run [OF that] b by auto
  show "ploc ?s q = ploc s q \<and> (state_of ?s q = state_of s q \<and> sp_chan (tab ?s q) = sp_chan (tab s q) \<or>
       state_of s q = SLEEPING \<and> state_of ?s q = RUNNABLE \<and> (\<forall>d. d \<noteq> c \<longrightarrow> q \<notin> own s d))" if "cur s c \<noteq> Some q" for q
    using that f [of "tab s i"] free by (auto simp: goto_simps)
qed (use hw ok f wk in \<open>auto simp: goto_simps fun_upd_idem fun_eq_iff\<close>)

lemma running_held:
  assumes inv: "sched_inv s" and "state_of s j = RUNNING" and "ploc s j = SlpSet ch l"
  obtains d where "j \<in> own s d" and "cur s d = Some j"
proof -
  have r: "run_inv s" using inv by (simp add: sched_inv_def)
  then have "runs s j" using run_invD(9) [OF r] assms(2) by blast
  then obtain d where d: "cur s d = Some j" by (auto simp: runs_def)
  then show thesis using procD(1) [OF inv d assms(3)] by (intro that) (auto simp: sleeper_locks_def)
qed

lemma wake_invD: "sched_inv s \<Longrightarrow> at_loc s c = WkAcq r ch i \<Longrightarrow> l \<in> own s c \<Longrightarrow> j < i \<Longrightarrow> \<not> committed s j ch l"
  by (auto simp: sched_inv_def wake_inv_def)

lemma threadD:
  assumes "sched_inv s"
  shows "hok (cur s c) (at_loc s c) (own s c)" and "cur s c = Some p \<Longrightarrow> state_of s p = st_at (at_loc s c)"
    and "cur s c = Some p \<Longrightarrow> at_loc s c \<noteq> Sched KExit \<Longrightarrow> base_ok (parent_of s) p (base (at_loc s c))"
  using assms run_invD(2) procD(2,6) [OF assms] by (auto simp: sched_inv_def at_loc_Some)

definition woken :: "chan \<Rightarrow> pshared \<Rightarrow> pshared" where
  "woken ch x = (if sp_state x = SLEEPING \<and> sp_chan x = ch then x\<lparr>sp_state := RUNNABLE\<rparr> else x)"

lemma woken_eq:
  "(if sp_state (tab s i) = SLEEPING \<and> sp_chan (tab s i) = ch then on_tab i (sp_state_update (\<lambda>_. RUNNABLE)) s else s) =
    on_tab i (woken ch) s"
  by (simp add: on_tab_def woken_def)

lemma woken_fields [simp]:
  "sp_parent (woken ch x) = sp_parent x" "sp_pid (woken ch x) = sp_pid x" "sp_chan (woken ch x) = sp_chan x"
  "sp_state (woken ch x) = sp_state x \<or> sp_state x = SLEEPING \<and> sp_state (woken ch x) = RUNNABLE"
  by (auto simp: woken_def)

text \<open>After the round for process \<open>i\<close>, it is not committed to sleep on the channel.\<close>

lemma woken_not_committed:
  assumes inv: "sched_inv s" and at: "at_loc s c = WkAcq x ch i" and "\<And>d. i \<notin> own s d" and "j < Suc i" and "l \<in> own s c"
    and b: "\<And>ch l. b \<noteq> SlpSet ch l" "\<And>k. b \<noteq> Sched k" "\<And>ie k. b \<noteq> SchedRet ie k"
  shows "\<not> committed (goto c b (on_tab i (woken ch) (s\<lparr>hw := m\<rparr>))) j ch l"
proof (cases "j = i")
  case True
  have "\<not> (state_of s i = RUNNING \<and> ploc s i = SlpSet ch l)"
    using running_held [OF inv, of i ch l] assms(3) by metis
  then show ?thesis using True b by (auto simp: committed_def goto_simps woken_def)
next
  case False
  then have "\<not> committed s j ch l" using wake_invD [OF inv at assms(5)] assms(4) by simp
  then show ?thesis using False b by (auto simp: committed_def goto_simps)
qed

lemma wakeup_step_eq:
  assumes inv: "sched_inv s" and at: "at_loc s c = WkAcq x ch i" and r: "wakeup_step c x ch i s = Some r"
  obtains m b where "r = Inr (goto c b (on_tab i (woken ch) (s\<lparr>hw := m\<rparr>)))" and "b = (if Suc i < NPROC then WkAcq x ch (Suc i) else x)"
    and "good m" and "owned m = own s" and "\<And>d. i \<notin> own s d"
    and "\<And>ch l. b \<noteq> SlpSet ch l" "\<And>k. b \<noteq> Sched k" "\<And>ie k. b \<noteq> SchedRet ie k"
proof -
  have o: "i \<notin> own s c" "ordinary x" using threadD(1) [OF inv, of c] at by (cases "cur s c"; auto)+
  obtain m m' where "r = Inr (goto c (if Suc i < NPROC then WkAcq x ch (Suc i) else x) ((on_tab i (woken ch) (s\<lparr>hw := m\<rparr>))\<lparr>hw := m'\<rparr>))"
    and "good m'" "owned m' = own s" "\<And>d. i \<notin> own s d"
    using acq_relE [OF r [unfolded wakeup_step_def woken_eq] sched_inv_good [OF inv] o(1)] by (metis on_tab_fields(1))
  then show thesis using o(2) by (intro that) (cases x; auto simp: on_tab_hw)+
qed

lemma wakeup_safe:
  assumes inv: "sched_inv s" and at: "at_loc s c = WkAcq x ch i" and r: "wakeup_step c x ch i s = Some r"
  shows "safe r"
proof -
  note t = threadD [OF inv, of c, unfolded at]
  have o: "i < NPROC" "ordinary x" "hok (cur s c) x (own s c)" using t(1) by (cases "cur s c"; auto)+
  obtain m b where e: "r = Inr (goto c b (on_tab i (woken ch) (s\<lparr>hw := m\<rparr>)))" and bd: "b = (if Suc i < NPROC then WkAcq x ch (Suc i) else x)"
    and m: "good m" "owned m = own s" "\<And>d. i \<notin> own s d" and b1: "\<And>ch l. b \<noteq> SlpSet ch l" "\<And>k. b \<noteq> Sched k" "\<And>ie k. b \<noteq> SchedRet ie k"
    using wakeup_step_eq [OF inv at r] by metis
  have b: "st_at b = RUNNING" "base b = base x" "\<And>k. b \<noteq> SBack k" "\<And>k kids. b \<noteq> WtScan k kids" "\<And>k kids. b \<noteq> WtKid k kids"
    and wk: "\<And>r ch' k. b = WkAcq r ch' k \<Longrightarrow> ch' = ch \<and> k = Suc i"
    using o(2) bd by (cases x; auto split: if_splits)+
  show ?thesis
    unfolding e safe_Inr
  proof (rule sched_inv_poke [OF inv m(1,2)])
    show "\<not> committed (goto c b (on_tab i (woken ch) (s\<lparr>hw := m\<rparr>))) j ch' l" if "b = WkAcq rr ch' k" "l \<in> own s c" "j < k" for rr ch' k l j
      using woken_not_committed [OF inv at m(3) _ that(2) b1] wk [OF that(1)] that(3) by simp
    show "hok (cur s c) b (own s c)" using bd o t(1) by simp
  qed (use at t o b b1 m in auto)
qed

lemma kill_safe:
  assumes inv: "sched_inv s" and p: "cur s c = Some p" "ploc s p = KlAcq pid i" and r: "kill_step c pid i s = Some r"
  shows "safe r"
proof -
  note g = sched_inv_good [OF inv] and pD = procD [OF inv p]
  have o: "i \<notin> own s c" "own s c = {}" using pD(1) by auto
  let ?f = "\<lambda>x. x\<lparr>sp_killed := True, sp_state := (if sp_state x = SLEEPING then RUNNABLE else sp_state x)\<rparr>"
  let ?g = "\<lambda>x. if sp_pid x = pid then ?f x else x"
  let ?b = "if sp_pid (tab s i) = pid then Run else if Suc i < NPROC then KlAcq pid (Suc i) else Run"
  have "acq c i s (\<lambda>s1. rel c i (on_tab i ?g s1) (\<lambda>s2. Inr (goto c ?b s2))) = Some r"
    using r by (cases "sp_pid (tab s i) = pid"; simp add: kill_step_def acq_def on_tab_def fun_upd_idem)
  from this g o(1) show ?thesis
  proof (rule acq_rel_safe, simp)
    fix m m' assume m: "good m'" "owned m' = own s" "\<And>d. i \<notin> own s d"
    have "sched_inv (goto c ?b (on_tab i ?g (s\<lparr>hw := m'\<rparr>)))"
      by (rule sched_inv_poke [OF inv m(1,2)]) (use pD p o m in \<open>auto split: if_splits\<close>)
    then show "safe (Inr (goto c ?b ((on_tab i ?g (s\<lparr>hw := m\<rparr>))\<lparr>hw := m'\<rparr>)))" unfolding on_tab_hw by simp
  qed
qed

subsection \<open>Switching between threads\<close>

lemma sched_return_safe:
  assumes inv: "sched_inv s" and p: "cur s c = Some p" "ploc s p = SchedRet ie k"
  shows "safe (sched_return c p ie k s)"
proof -
  note pD = procD [OF inv p] and g = sched_inv_good [OF inv]
  have o: "own s c = {p}" and k: "kok p k" "k \<noteq> KExit" using pD(1) by auto
  let ?m = "on_hart c (intena_update (\<lambda>_. ie)) (hw s)"
  have gm: "good ?m" and om: "own s = (own s)(c := {p})" using g o by (simp_all add: good_intena fun_upd_idem)
  show ?thesis
  proof (cases k)
    case (KYield r)
    have b: "st_at r = RUNNING" "\<And>k. r \<noteq> SBack k" "\<And>k kids. r \<noteq> WtScan k kids" "\<And>k kids. r \<noteq> WtKid k kids"
      "\<And>ch l. r \<noteq> SlpSet ch l" "\<And>r' ch l. r \<noteq> WkAcq r' ch l"
      using k KYield by (cases r; auto)+
    show ?thesis
      unfolding KYield sched_return_def Let_def cont.case
      by (rule rel_safe, use gm o in simp, use gm o in simp, simp)
         (rule sched_inv_move [OF inv, where L' = "{}"], use pD p o k KYield b in auto)
  next
    case (KSleep l)
    show ?thesis
      unfolding KSleep sched_return_def Let_def cont.case
      by (rule rel_safe, use gm o in simp, use gm o in simp, unfold on_tab_hw, simp)
         (rule sched_inv_own [OF inv p(1), where L' = "{}"], use pD p o k KSleep in auto)
  next
    case KWait
    show ?thesis
      unfolding KWait sched_return_def Let_def cont.case safe_Inr
      by (rule sched_inv_own [OF inv p(1), where L' = "{p}"], use pD p o om gm KWait in auto)
  next
    case KExit
    then show ?thesis using k by simp
  qed
qed

lemma forkret_safe:
  assumes inv: "sched_inv s" and p: "cur s c = Some p" "ploc s p = Forkret"
  shows "safe (rel c p s (\<lambda>s1. Inr (goto c Run s1)))"
proof -
  note pD = procD [OF inv p] and g = sched_inv_good [OF inv]
  show ?thesis
    by (rule rel_safe [OF g], use pD in simp, simp) (rule sched_inv_move [OF inv, where L' = "{}"], use pD p in auto)
qed

lemma switch_out_inv:
  assumes inv: "sched_inv s" and p: "cur s c = Some p" "ploc s p = Sched k" and own: "own s c = {p}"
  shows "sched_inv ((goto c (SchedRet ie k) s)\<lparr>cur := (cur s)(c := None)\<rparr>)" (is "sched_inv ?s")
proof -
  note pD = procD [OF inv p]
  have r: "run_inv s" and t: "tree_inv s" and w: "wait_inv s" and wk: "wake_inv s" using inv by (auto simp: sched_inv_def)
  have o: "own s c = {p}" "kok p k" using pD(1) own by (cases k; auto)+
  have s: "tab ?s = tab s" "hw ?s = hw s" "cproc ?s = cproc s" "sloc ?s = sloc s" "cur ?s = (cur s)(c := None)"
    "ploc ?s = (ploc s)(p := SchedRet ie k)" "next_pid ?s = next_pid s"
    using p(1) by (auto simp: goto_def)
  have uniq: "cur s d = Some p \<longleftrightarrow> d = c" for d using run_invD(8) [OF r, of c p d] p(1) by auto
  have runs: "runs ?s q \<longleftrightarrow> runs s q \<and> q \<noteq> p" for q
    unfolding runs_def s(5) using uniq p(1) by (metis fun_upd_apply option.distinct(1) option.inject)
  have at: "at_loc ?s d = (if d = c then SBack p else at_loc s d)" for d
    using uniq [of d] run_invD(5) [OF r p(1)] by (auto simp: at_loc_def s split: option.split)
  have "run_inv ?s"
    unfolding run_inv_def runs
  proof (intro conjI allI impI)
    show "good (hw ?s)" using run_invD(1) [OF r] by (simp add: s)
    show "hok (cur ?s d) (at_loc ?s d) (own ?s d)" for d
      unfolding at s using run_invD(2) [OF r, of d] o(1) pD(3) by simp
    fix d q assume "cur ?s d = Some q"
    then have d: "cur s d = Some q" "d \<noteq> c" "q \<noteq> p" using uniq by (auto simp: s split: if_splits)
    show "q < NPROC" "cproc ?s d = Some q" "sloc ?s d = SBack q" "state_of ?s q = st_at (ploc ?s q)"
      using run_invD(3-6) [OF r d(1)] d(3) by (simp_all add: s)
  next
    fix d assume "cur ?s d = None"
    then show "cproc ?s d = (case sloc ?s d of SBack i \<Rightarrow> Some i | _ \<Rightarrow> None)"
      using run_invD(7) [OF r, of d] run_invD(4,5) [OF r p(1)] by (cases "d = c") (simp_all add: s)
  next
    fix d e q assume "cur ?s d = Some q" "cur ?s e = Some q"
    then show "d = e" using run_invD(8) [OF r] by (auto simp: s split: if_splits)
  next
    fix q assume q: "\<not> (runs s q \<and> q \<noteq> p)"
    have "st_at (Sched k) \<noteq> RUNNING" by (cases k) auto
    then show "state_of ?s q \<noteq> RUNNING"
      using q run_invD(9) [OF r, of q] pD(2) by (auto simp: s)
    assume "state_of ?s q \<in> {RUNNABLE, SLEEPING}"
    moreover from this have "k \<noteq> KExit" if "q = p" using pD(2) that by (auto simp: s)
    ultimately show "parked q (ploc ?s q)"
      using q run_invD(10) [OF r, of q] o(2) by (auto simp: s)
  qed
  moreover have "tree_inv ?s"
  proof -
    have "base_ok P p (base (SchedRet ie k))" if "base_ok P p (base (Sched k))" for P using that by (cases k) auto
    then show ?thesis using t p(2) unfolding tree_inv_def s by auto
  qed
  moreover have "wait_inv ?s" using w unfolding wait_inv_def s by auto
  moreover have "wake_inv ?s"
  proof -
    have "committed ?s j ch l \<Longrightarrow> committed s j ch l" for j ch l
      using p(2) by (auto simp: committed_def s split: if_splits)
    then show ?thesis using wk unfolding wake_inv_def s at by (auto split: if_splits) blast
  qed
  ultimately show ?thesis by (simp add: sched_inv_def)
qed

text \<open>The only check of \<open>sched\<close> that can fail is the one on \<open>noff\<close>, in a \<open>sleep\<close> called with another
  lock held.\<close>

lemma sched_safe:
  assumes inv: "sched_inv s" and p: "cur s c = Some p" "ploc s p = Sched k"
  shows "if own s c = {p} then safe (sched c p k s) else (\<exists>l. k = KSleep l) \<and> sched c p k s = Inl (Panic ''sched locks'')"
proof -
  note pD = procD [OF inv p] and g = sched_inv_good [OF inv]
  have o: "p \<in> own s c" using pD(1) by (cases k) (auto simp: sleeper_locks_def)
  have st: "st_at (Sched k) \<noteq> RUNNING" by (cases k) auto
  have "finite (own s c)" "noff (harts (hw s) c) = int (card (own s c))" using goodD(2,3) [OF g] by auto
  moreover from this(1) have "card (own s c) = 1 \<longleftrightarrow> own s c = {p}" using o by (auto simp: card_1_singleton_iff)
  moreover have "own s c \<noteq> {p} \<Longrightarrow> \<exists>l. k = KSleep l" using pD(1) by (cases k) auto
  ultimately show ?thesis
    using switch_out_inv [OF inv p] pD(2) st o good_holding [OF g] goodD(4) [OF g, of p c] by (auto simp: sched_def)
qed

lemma switch_in_inv:
  assumes inv: "sched_inv s" and c: "cur s c = None" "sloc s c = SAcq i" and i: "i < NPROC" "state_of s i = RUNNABLE"
    and hw: "good m" "owned m = (own s)(c := {i})" and free: "\<And>d. i \<notin> own s d"
  shows "sched_inv (switch_in c i (s\<lparr>hw := m\<rparr>))" (is "sched_inv ?s")
proof -
  have r: "run_inv s" and t: "tree_inv s" and w: "wait_inv s" and wk: "wake_inv s" using inv by (auto simp: sched_inv_def)
  have nr: "\<not> runs s i" using free i(2) c(1) by (intro not_runs [OF r, of _ c]) auto
  have pk: "parked i (ploc s i)" using run_invD(10) [OF r nr] i(2) by simp
  then have ok: "hok (Some i) (ploc s i) {i}" "st_at (ploc s i) = RUNNING" "\<And>j kids. ploc s i \<noteq> WtScan j kids"
    "\<And>j kids. ploc s i \<noteq> WtKid j kids" "\<And>ch l. ploc s i \<noteq> SlpSet ch l"
    "\<And>r ch l. ploc s i \<noteq> WkAcq r ch l"
    by (cases "(i, ploc s i)" rule: parked.cases; auto)+
  have s: "tab ?s = (tab s)(i := (tab s i)\<lparr>sp_state := RUNNING\<rparr>)" "hw ?s = m" "cproc ?s = (cproc s)(c := Some i)"
    "sloc ?s = (sloc s)(c := SBack i)" "cur ?s = (cur s)(c := Some i)" "ploc ?s = ploc s" "next_pid ?s = next_pid s"
    by (simp_all add: switch_in_def Let_def on_tab_def)
  have at: "at_loc ?s d = (if d = c then ploc s i else at_loc s d)" for d
    by (auto simp: at_loc_def s split: option.split)
  have runs: "runs ?s q \<longleftrightarrow> runs s q \<or> q = i" for q
    unfolding runs_def s(5) using c(1) by (metis fun_upd_apply option.distinct(1) option.inject)
  have ni: "cur s d \<noteq> Some i" for d using nr by (auto simp: runs_def)
  have "run_inv ?s"
    unfolding run_inv_def runs
  proof (intro conjI allI impI)
    show "good (hw ?s)" using hw by (simp add: s)
    show "hok (cur ?s d) (at_loc ?s d) (own ?s d)" for d
      unfolding at s hw using run_invD(2) [OF r, of d] ok(1) by simp
    fix d q assume "cur ?s d = Some q"
    then have d: "(d = c \<and> q = i) \<or> (d \<noteq> c \<and> q \<noteq> i \<and> cur s d = Some q)" using ni [of d] by (auto simp: s split: if_splits)
    then show "q < NPROC" "cproc ?s d = Some q" "sloc ?s d = SBack q" "state_of ?s q = st_at (ploc ?s q)"
      using run_invD(3-6) [OF r, of d q] i(1) ok(2) by (auto simp: s)
  next
    fix d assume "cur ?s d = None"
    then show "cproc ?s d = (case sloc ?s d of SBack i \<Rightarrow> Some i | _ \<Rightarrow> None)"
      using run_invD(7) [OF r, of d] by (cases "d = c") (simp_all add: s)
  next
    fix d e q assume "cur ?s d = Some q" "cur ?s e = Some q"
    then show "d = e" using run_invD(8) [OF r, of d q e] ni by (auto simp: s split: if_splits)
  qed (use run_invD(9,10) [OF r] in \<open>auto simp: s\<close>)
  moreover have "tree_inv ?s"
    by (rule tree_inv_cong [OF t]) (use i(2) tree_invD(12) [OF t] in \<open>auto simp: s alive_def\<close>)
  moreover have "wait_inv ?s" using w i(2) ok unfolding wait_inv_def s by auto
  moreover have "wake_inv ?s"
  proof -
    have "committed ?s j ch l \<Longrightarrow> committed s j ch l" for j ch l
      using ok by (auto simp: committed_def s split: if_splits)
    then show ?thesis using wk ok unfolding wake_inv_def s at hw by (auto split: if_splits) blast
  qed
  ultimately show ?thesis by (simp add: sched_inv_def)
qed

lemma next_proc_ok: "i < NPROC \<Longrightarrow> hok None (next_proc i) {}" "st_at (next_proc i) = RUNNING" "next_proc i \<noteq> SBack k"
    "next_proc i \<noteq> WkAcq r ch k"
  by (auto simp: next_proc_def)

lemma scheduler_safe:
  assumes inv: "sched_inv s" and c: "cur s c = None" and nord: "\<not> ordinary (sloc s c)" and nwk: "\<And>r ch i. sloc s c \<noteq> WkAcq r ch i"
    and r: "scheduler_step c (sloc s c) s = Some r"
  shows "safe r"
proof -
  note g = sched_inv_good [OF inv]
  have at: "at_loc s c = sloc s c" using c by (simp add: at_loc_def)
  have h: "hok None (sloc s c) (own s c)" using threadD(1) [OF inv, of c] c at by simp
  then consider "sloc s c = SLoop" | i where "sloc s c = SAcq i" | i where "sloc s c = SBack i"
    using nord nwk by (cases "sloc s c") auto
  then show ?thesis
  proof cases
    case 1
    have "r = Inr (goto c (SAcq 0) (set_intr c True s))" using r 1 by (simp add: scheduler_step_def)
    then show ?thesis unfolding set_intr_def
      by simp (rule sched_inv_move [OF inv, where L' = "{}"], use h 1 c at g in \<open>auto simp: good_intr fun_upd_idem\<close>)
  next
    case (2 i)
    have o: "own s c = {}" "i < NPROC" using h 2 by auto
    have "acq c i s (\<lambda>s1. if sp_state (tab s1 i) = RUNNABLE then Inr (switch_in c i s1)
          else rel c i s1 (\<lambda>s2. Inr (goto c (next_proc i) s2))) = Some r"
      using r 2 by (simp add: scheduler_step_def)
    from this g show ?thesis
    proof (rule acq_safe)
      fix m assume m: "good m" "owned m = (own s)(c := insert i (own s c))" "\<And>d. i \<notin> own s d"
      show "safe (if sp_state (tab (s\<lparr>hw := m\<rparr>) i) = RUNNABLE then Inr (switch_in c i (s\<lparr>hw := m\<rparr>))
          else rel c i (s\<lparr>hw := m\<rparr>) (\<lambda>s2. Inr (goto c (next_proc i) s2)))"
      proof (cases "state_of s i = RUNNABLE")
        case True
        then show ?thesis using switch_in_inv [OF inv c 2 o(2) True m(1) _ m(3)] m(2) o by simp
      next
        case False
        have "safe (rel c i (s\<lparr>hw := m\<rparr>) (\<lambda>s2. Inr (goto c (next_proc i) s2)))"
          by (rule rel_safe, use m in simp, use m in simp, simp)
             (rule sched_inv_move [OF inv, where L' = "{}"], use o c 2 at m in \<open>auto simp: next_proc_def split: if_splits\<close>)
        then show ?thesis using False by simp
      qed
    qed (use o in simp)
  next
    case (3 i)
    have o: "own s c = {i}" "i < NPROC" using h 3 by auto
    have e: "r = rel c i (s\<lparr>cproc := (cproc s)(c := None)\<rparr>) (\<lambda>s2. Inr (goto c (next_proc i) s2))"
      using r 3 by (simp add: scheduler_step_def)
    show ?thesis
      unfolding e
    proof (rule rel_safe)
      fix m assume m: "good m" "owned m = (own (s\<lparr>cproc := (cproc s)(c := None)\<rparr>))(c := own (s\<lparr>cproc := (cproc s)(c := None)\<rparr>) c - {i})"
      show "safe (Inr (goto c (next_proc i) (s\<lparr>cproc := (cproc s)(c := None), hw := m\<rparr>)))"
        unfolding safe_Inr
        by (rule sched_inv_quiet [OF inv, where c = c and L' = "{}" and a = "next_proc i"])
          (use m o c 3 at next_proc_ok in \<open>auto simp: goto_simps next_proc_def\<close>)
    qed (use g o in simp_all)
  qed
qed

subsection \<open>Steps that change the tree of processes\<close>

text \<open>Process \<open>p\<close> changes entry \<open>i\<close> of another process and moves to \<open>a\<close>.\<close>

lemma entry_run_wake:
  assumes inv: "sched_inv s" and p: "cur s c = Some p" "i \<noteq> p" "st_at (ploc s p) = RUNNING"
    and a: "st_at a = RUNNING" "hok (Some p) a L'" "\<And>ch l. a \<noteq> SlpSet ch l" "\<And>r ch i. a \<noteq> WkAcq r ch i"
    and hw: "good (hw s')" "own s' = (own s)(c := L')"
    and eq: "cur s' = cur s" "sloc s' = sloc s" "cproc s' = cproc s" "\<And>q. q \<noteq> i \<Longrightarrow> tab s' q = tab s q"
      "\<And>q. q \<noteq> i \<Longrightarrow> ploc s' q = (if q = p then a else ploc s q)"
    and i: "(state_of s' i = state_of s i \<and> sp_chan (tab s' i) = sp_chan (tab s i) \<and> ploc s' i = ploc s i) \<or>
      (\<not> runs s i \<and> state_of s' i \<noteq> RUNNING \<and> state_of s' i \<noteq> SLEEPING \<and> (state_of s' i = RUNNABLE \<longrightarrow> parked i (ploc s' i)))"
  shows "run_inv s' \<and> wake_inv s'"
proof
  have r: "run_inv s" and k: "wake_inv s" using inv by (auto simp: sched_inv_def)
  have at: "at_loc s' c = a" using p eq by (simp add: at_loc_def)
  have st: "state_of s p = RUNNING" using run_invD(6) [OF r p(1)] p(3) by simp
  show "run_inv s'"
  proof (rule run_inv_local [OF r eq(1) hw])
    show "ploc s' q = ploc s q \<and> state_of s' q = state_of s q" if "runs s q" "cur s c \<noteq> Some q" for q
      using that i p(1) eq(4,5) by (cases "q = i") auto
    show "state_of s' q \<noteq> RUNNING \<and> (state_of s' q \<in> {RUNNABLE, SLEEPING} \<longrightarrow> parked q (ploc s' q))" if "\<not> runs s q" for q
    proof -
      have "q \<noteq> p" using that p(1) by (auto simp: runs_def)
      then show ?thesis using run_invD(9,10) [OF r that] i eq(4,5) by (cases "q = i") auto
    qed
  qed (use p a at eq st in auto)
  show "wake_inv s'"
    unfolding wake_inv_def
  proof (intro allI impI)
    fix d rr ch n l j assume d: "at_loc s' d = WkAcq rr ch n" "l \<in> own s' d" "j < n"
    then have dc: "d \<noteq> c" using at a(4) by auto
    have "ploc s' q = ploc s q" if "cur s d = Some q" for q
      using that dc i eq(5) [of q] p(1) run_invD(8) [OF r that, of c] by (cases "q = i") (auto simp: runs_def)
    then have "at_loc s' d = at_loc s d" by (simp add: at_loc_def eq split: option.split)
    then have "\<not> committed s j ch l" using d dc hw(2) wake_invD [OF inv, of d rr ch n l j] by simp
    moreover have "committed s' j ch l \<Longrightarrow> committed s j ch l"
    proof (cases "j = i")
      case True
      then show "committed s' j ch l \<Longrightarrow> committed s j ch l" using i by (elim disjE) (auto simp: committed_def)
    next
      case False
      then show "committed s' j ch l \<Longrightarrow> committed s j ch l"
        using a(3) st eq(4,5) [of j] by (auto simp: committed_def split: if_splits)
    qed
    ultimately show "\<not> committed s' j ch l" by blast
  qed
qed

lemma base_ok_cong:
  assumes "base_ok P r a" and "\<And>x. P x = Some r \<Longrightarrow> P' x = Some r" and "r \<noteq> init_proc \<Longrightarrow> (\<And>x. P' x = Some r \<Longrightarrow> P x = Some r)"
    and "P' r = P r \<or> P' r = Some init_proc"
  shows "base_ok P' r a"
proof -
  have "exit_ok P r q \<Longrightarrow> exit_ok P' r q" for q using assms(2-4) by (auto simp: exit_ok_def)
  moreover have "P' j \<noteq> Some r" if "P j \<noteq> Some r" "r \<noteq> init_proc" for j using assms(3) that by blast
  ultimately show ?thesis using assms(1,2) by (cases a) (auto simp: exit_ok_def)
qed

lemma tree_inv_entry:
  assumes t: "tree_inv s" and i: "i \<noteq> init_proc" and eq: "\<And>q. q \<noteq> i \<Longrightarrow> tab s' q = tab s q" and np: "next_pid s \<le> next_pid s'"
    and kids: "(\<forall>q. parent_of s q \<noteq> Some i) \<or> (state_of s' i = state_of s i \<and> pid_of s' i = pid_of s i)"
    and x: "(state_of s' i = UNUSED \<and> parent_of s' i = None) \<or>
      (i < NPROC \<and> state_of s' i \<noteq> UNUSED \<and> 0 < pid_of s' i \<and> pid_of s' i < next_pid s' \<and>
       (\<exists>q. q \<noteq> i \<and> parent_of s' i = Some q \<and> alive (state_of s q) \<and> pid_of s q < pid_of s' i))"
    and bs: "\<And>q. alive (state_of s' q) \<Longrightarrow> base_ok (parent_of s') q (base (ploc s' q))"
  shows "tree_inv s'"
  unfolding tree_inv_def
proof (intro conjI allI impI)
  fix q r assume q: "parent_of s' q = Some r"
  have "q < NPROC \<and> pid_of s' r < pid_of s' q \<and> state_of s' q \<noteq> UNUSED \<and> alive (state_of s' r)"
  proof (cases "q = i")
    case True
    then show ?thesis using q x eq [of r] by auto
  next
    case False
    then have "parent_of s q = Some r" using q eq by simp
    then show ?thesis using tree_invD(1-4) [OF t, of q r] eq [OF False] eq [of r] kids by (cases "r = i") auto
  qed
  then show "q < NPROC" "pid_of s' r < pid_of s' q" "state_of s' q \<noteq> UNUSED" "alive (state_of s' r)" by auto
next
  fix q assume q: "state_of s' q \<noteq> UNUSED"
  have "q < NPROC \<and> 0 < pid_of s' q \<and> pid_of s' q < next_pid s' \<and> (q \<noteq> init_proc \<longrightarrow> parent_of s' q \<noteq> None)"
    using q x np tree_invD(5-8) [OF t, of q] eq [of q] by (cases "q = i") auto
  then show "q < NPROC" "0 < pid_of s' q" "pid_of s' q < next_pid s'" "q \<noteq> init_proc \<Longrightarrow> parent_of s' q \<noteq> None" by auto
qed (use tree_invD(9-11) [OF t] eq [of init_proc] i bs in auto)

text \<open>The parent frees an exited child.\<close>

lemma free_inv:
  assumes inv: "sched_inv s" and p: "cur s c = Some p" "ploc s p = WtKid i kids" and z: "state_of s i = ZOMBIE"
    and free: "\<And>d. i \<notin> own s d" and hw: "good m" "owned m = (own s)(c := {})"
  shows "sched_inv (goto c Run (on_tab i free_entry (s\<lparr>hw := m\<rparr>)))" (is "sched_inv ?s")
proof -
  note pD = procD [OF inv p]
  have r: "run_inv s" and t: "tree_inv s" and w: "wait_inv s" using inv by (auto simp: sched_inv_def)
  have par: "parent_of s i = Some p" using pD(6) by simp
  have ip: "i \<noteq> p" "i \<noteq> init_proc" using par tree_invD(2) [OF t par] tree_invD(9) [OF t] by (auto intro!: gr0I)
  have nr: "\<not> runs s i" using free z ip p(1) by (intro not_runs [OF r, of _ c]) auto
  have s: "tab ?s = (tab s)(i := free_entry (tab s i))" "ploc ?s = (ploc s)(p := Run)" "next_pid ?s = next_pid s"
    using p(1) by (auto simp: fun_eq_iff goto_simps)
  have nokid: "parent_of s q \<noteq> Some i" for q using tree_invD(4) [OF t, of q i] z by (auto simp: alive_def)
  have "run_inv ?s \<and> wake_inv ?s"
    by (rule entry_run_wake [OF inv p(1), where a = Run and i = i])
      (use p ip hw nr in \<open>simp_all add: goto_proc free_entry_def\<close>)
  moreover have "tree_inv ?s"
  proof (rule tree_inv_entry [OF t ip(2)])
    fix q assume q: "alive (state_of ?s q)"
    then have qi: "q \<noteq> i" "alive (state_of s q)" by (auto simp: s alive_def free_entry_def split: if_splits)
    show "base_ok (parent_of ?s) q (base (ploc ?s q))"
    proof (cases "q = p")
      case False
      then have "ploc ?s q = ploc s q" by (simp add: s)
      then show ?thesis
        by (elim ssubst, intro base_ok_cong [OF tree_invD(12) [OF t qi(2)]])
          (use qi False par in \<open>auto simp: s free_entry_def split: if_splits\<close>)
    qed (simp add: s)
  qed (use nokid in \<open>auto simp: s free_entry_def\<close>)
  moreover have "wait_inv ?s"
    using w unfolding wait_inv_def s by (auto simp: free_entry_def)
  ultimately show ?thesis by (simp add: sched_inv_def)
qed

text \<open>An exiting process gives a child to the first process.\<close>

lemma give_inv:
  assumes inv: "sched_inv s" and p: "cur s c = Some p" "ploc s p = ExGive st q i" and hw: "good m" "owned m = own s"
  shows "sched_inv (goto c (ExScan st q (Suc i)) (on_tab i (sp_parent_update (\<lambda>_. Some init_proc)) (s\<lparr>hw := m\<rparr>)))" (is "sched_inv ?s")
proof -
  note pD = procD [OF inv p]
  have r: "run_inv s" and t: "tree_inv s" and w: "wait_inv s" using inv by (auto simp: sched_inv_def)
  have bs: "exit_ok (parent_of s) p q" "\<forall>j<i. parent_of s j \<noteq> Some p" and par: "parent_of s i = Some p" using pD(6) by auto
  have ip: "i \<noteq> p" "i \<noteq> init_proc" "p \<noteq> init_proc"
    using par tree_invD(2) [OF t par] tree_invD(9) [OF t] bs(1) by (auto intro!: gr0I simp: exit_ok_def)
  have s: "tab ?s = (tab s)(i := (tab s i)\<lparr>sp_parent := Some init_proc\<rparr>)" "ploc ?s = (ploc s)(p := ExScan st q (Suc i))"
    "next_pid ?s = next_pid s"
    using p(1) by (auto simp: goto_proc)
  have "run_inv ?s \<and> wake_inv ?s"
    by (rule entry_run_wake [OF inv p(1), where a = "ExScan st q (Suc i)" and i = i and L' = "own s c"])
      (use p ip hw pD(1) in \<open>simp_all add: goto_proc fun_upd_idem\<close>)
  moreover have "tree_inv ?s"
  proof (rule tree_inv_entry [OF t ip(2)])
    have "pid_of s init_proc < pid_of s i"
      using tree_invD(2) [OF t par] tree_invD(6) [OF t, of p] tree_invD(4) [OF t par] tree_invD(10) [OF t] by (auto simp: alive_def)
    then show "(state_of ?s i = UNUSED \<and> parent_of ?s i = None) \<or>
      (i < NPROC \<and> state_of ?s i \<noteq> UNUSED \<and> 0 < pid_of ?s i \<and> pid_of ?s i < next_pid ?s \<and>
       (\<exists>q. q \<noteq> i \<and> parent_of ?s i = Some q \<and> alive (state_of s q) \<and> pid_of s q < pid_of ?s i))"
      using tree_invD(3) [OF t par] tree_invD(5-7) [OF t, of i] tree_invD(11) [OF t] ip by (simp add: s)
    fix x assume "alive (state_of ?s x)"
    then have al: "alive (state_of s x)" by (simp add: s split: if_splits)
    show "base_ok (parent_of ?s) x (base (ploc ?s x))"
    proof (cases "x = p")
      case True
      have "exit_ok (parent_of ?s) p q" using bs(1) ip by (auto simp: exit_ok_def s)
      then show ?thesis using True bs(2) ip by (auto simp: s less_Suc_eq)
    next
      case False
      then have "ploc ?s x = ploc s x" by (simp add: s)
      then show ?thesis
        by (elim ssubst, intro base_ok_cong [OF tree_invD(12) [OF t al]]) (use False par in \<open>auto simp: s split: if_splits\<close>)
    qed
  qed (simp_all add: s)
  moreover have "wait_inv ?s" using w ip unfolding wait_inv_def s by auto
  ultimately show ?thesis by (simp add: sched_inv_def)
qed

text \<open>\<open>fork\<close> in a free entry.\<close>

lemma fork_inv:
  assumes inv: "sched_inv s" and p: "cur s c = Some p" "ploc s p = FkAcq i" and u: "state_of s i = UNUSED"
    and free: "\<And>d. i \<notin> own s d" and hw: "good m" "owned m = own s"
  shows "sched_inv (goto c Run (new_proc p w i (s\<lparr>hw := m\<rparr>)))" (is "sched_inv ?s")
proof -
  note pD = procD [OF inv p]
  have r: "run_inv s" and t: "tree_inv s" and wt: "wait_inv s" using inv by (auto simp: sched_inv_def)
  have ip: "i \<noteq> p" "i \<noteq> init_proc" "i < NPROC" using u pD(1,2) tree_invD(11) [OF t] by (auto simp: alive_def intro!: gr0I)
  have par: "parent_of s i = None" using tree_invD(3) [OF t, of i] u by (cases "parent_of s i") auto
  have nr: "\<not> runs s i" using free u ip p(1) by (intro not_runs [OF r, of _ c]) auto
  have nokid: "parent_of s q \<noteq> Some i" for q using tree_invD(4) [OF t, of q i] u by (auto simp: alive_def)
  have live: "alive (state_of s p)" "0 < pid_of s p" "pid_of s p < next_pid s"
    using pD(2) tree_invD(6,7) [OF t, of p] by (simp_all add: alive_def)
  have s: "\<And>q. q \<noteq> i \<Longrightarrow> tab ?s q = tab s q" "\<And>q. q \<noteq> i \<Longrightarrow> ploc ?s q = (if q = p then Run else ploc s q)" "next_pid ?s = next_pid s + 1"
    "cur ?s = cur s" "sloc ?s = sloc s" "cproc ?s = cproc s" "hw ?s = m"
    using p(1) by (auto simp: goto_def new_proc_def on_tab_def Let_def split: outcome.split)
  have e: "(state_of ?s i = UNUSED \<and> parent_of ?s i = None) \<or>
      (state_of ?s i = RUNNABLE \<and> parent_of ?s i = Some p \<and> pid_of ?s i = next_pid s \<and> ploc ?s i = Forkret)"
    using p(1) u par ip(1) by (cases w) (auto simp: goto_def new_proc_def on_tab_def Let_def free_entry_def)
  have "run_inv ?s \<and> wake_inv ?s"
    by (rule entry_run_wake [OF inv p(1) ip(1), where a = Run and L' = "own s c"])
      (use p hw pD(1) s nr e in \<open>auto simp: fun_upd_idem\<close>)
  moreover have "tree_inv ?s"
  proof (rule tree_inv_entry [OF t ip(2)])
    show "(state_of ?s i = UNUSED \<and> parent_of ?s i = None) \<or>
      (i < NPROC \<and> state_of ?s i \<noteq> UNUSED \<and> 0 < pid_of ?s i \<and> pid_of ?s i < next_pid ?s \<and>
       (\<exists>q. q \<noteq> i \<and> parent_of ?s i = Some q \<and> alive (state_of s q) \<and> pid_of s q < pid_of ?s i))"
      using e ip live s(3) by auto
    fix x assume al: "alive (state_of ?s x)"
    show "base_ok (parent_of ?s) x (base (ploc ?s x))"
    proof (cases "x = p \<or> x = i")
      case True
      then show ?thesis using al e s(2) [of p] ip(1) by (auto simp: alive_def)
    next
      case False
      then have x: "ploc ?s x = ploc s x" "alive (state_of s x)" "parent_of ?s x = parent_of s x" using s(1,2) al by simp_all
      have "parent_of ?s y = Some x \<longleftrightarrow> parent_of s y = Some x" for y
        using False par e s(1) [of y] by (cases "y = i") auto
      then show ?thesis unfolding x(1) using x(3) by (intro base_ok_cong [OF tree_invD(12) [OF t x(2)]]) simp_all
    qed
  qed (use nokid s in auto)
  moreover have "wait_inv ?s"
    unfolding wait_inv_def
  proof (intro allI impI)
    fix x j assume x: "x \<noteq> init_proc" "parent_of ?s j = Some x" "state_of ?s j = ZOMBIE"
    then have ji: "j \<noteq> i" using e by auto
    then have j: "parent_of s j = Some x" "state_of s j = ZOMBIE" using x s(1) [OF ji] by simp_all
    then have "x \<noteq> i" using nokid by auto
    then show "\<not> (state_of ?s x = SLEEPING \<and> sp_chan (tab ?s x) = ProcChan x) \<and>
        (\<forall>i kids. state_of ?s x = RUNNING \<longrightarrow> ploc ?s x \<in> {WtScan i kids, WtKid i kids} \<longrightarrow> i \<le> j)"
      using wt [unfolded wait_inv_def, rule_format, OF x(1) j] s(1,2) [of x] by auto
  qed
  ultimately show ?thesis by (simp add: sched_inv_def)
qed

text \<open>The end of \<open>exit\<close>: the parent is woken up before the state becomes \<open>ZOMBIE\<close>, under its
  lock.\<close>

lemma exit_inv:
  assumes inv: "sched_inv s" and p: "cur s c = Some p" "ploc s p = ExFin st q" and hw: "good m" "owned m = (own s)(c := {p})"
  shows "sched_inv (goto c (Sched KExit)
    (on_tab p (\<lambda>x. x\<lparr>sp_xstate := st, sp_state := ZOMBIE\<rparr>) (on_tab q (woken (ProcChan q)) (s\<lparr>hw := m\<rparr>))))" (is "sched_inv ?s")
proof -
  note pD = procD [OF inv p]
  have r: "run_inv s" and t: "tree_inv s" and w: "wait_inv s" and k: "wake_inv s" using inv by (auto simp: sched_inv_def)
  have bs: "exit_ok (parent_of s) p q" "\<forall>j<NPROC. parent_of s j \<noteq> Some p" using pD(6) by auto
  have pq: "p \<noteq> init_proc" "q \<noteq> p" "parent_of s p = Some q \<or> parent_of s p = Some init_proc" using bs(1) by (auto simp: exit_ok_def)
  have o: "own s c = {p, q}" using pD(1) by auto
  have nokid: "parent_of s j \<noteq> Some p" for j using bs(2) tree_invD(1) [OF t, of j p] by blast
  have run: "state_of s p = RUNNING" using pD(2) by simp
  have uq: "cur s d = Some p \<longleftrightarrow> d = c" for d using run_invD(8) [OF r, of c p d] p(1) by auto
  define y where "y = ?s"
  have s: "tab y = (\<lambda>x. if x = p then (tab s p)\<lparr>sp_xstate := st, sp_state := ZOMBIE\<rparr> else if x = q then woken (ProcChan q) (tab s q) else tab s x)"
    "ploc y = (ploc s)(p := Sched KExit)" "next_pid y = next_pid s" "cur y = cur s" "sloc y = sloc s" "cproc y = cproc s" "hw y = m"
    using p(1) pq(2) by (auto simp: y_def goto_proc fun_eq_iff)
  have wok: "state_of y x = state_of s x \<or> x = q \<and> state_of s x = SLEEPING \<and> state_of y x = RUNNABLE" if "x \<noteq> p" for x
    using that woken_fields(4) [of "ProcChan q" "tab s q"] by (auto simp: s)
  have nq: "\<not> runs s q" if "state_of s q = SLEEPING"
    using that o pq p(1) good_disjoint [of q "hw s" c] by (intro not_runs [OF r, of _ c]) auto
  have "run_inv y"
  proof (rule run_inv_local [OF r s(4), where c = c and L' = "{p}"])
    show "ploc y x = ploc s x \<and> state_of y x = state_of s x" if "runs s x" "cur s c \<noteq> Some x" for x
      using wok [of x] nq that p(1) by (auto simp: s(2))
    show "state_of y x \<noteq> RUNNING \<and> (state_of y x \<in> {RUNNABLE, SLEEPING} \<longrightarrow> parked x (ploc y x))" if "\<not> runs s x" for x
    proof -
      have "x \<noteq> p" using that p(1) by (auto simp: runs_def)
      then show ?thesis using wok [of x] run_invD(9,10) [OF r that] by (auto simp: s(2))
    qed
  qed (use p hw pD in \<open>auto simp: s at_loc_def\<close>)
  moreover have "tree_inv y"
  proof -
    have par: "parent_of y x = parent_of s x \<and> pid_of y x = pid_of s x" for x by (simp add: s)
    have al: "alive (state_of y x) = (alive (state_of s x) \<and> x \<noteq> p) \<and> (state_of y x = UNUSED) = (state_of s x = UNUSED)" for x
      using wok [of x] run by (cases "x = p") (auto simp: alive_def s(1))
    show ?thesis
      unfolding tree_inv_def s(3)
    proof (intro conjI allI impI)
      show "base_ok (parent_of y) x (base (ploc y x))" if "alive (state_of y x)" for x
        using that al [of x] tree_invD(12) [OF t, of x] par by (simp add: s(2))
    qed (use tree_invD(1-11) [OF t] al par nokid pq(1) in auto)
  qed
  moreover have "wait_inv y"
    unfolding wait_inv_def
  proof (intro allI impI)
    fix x j assume x: "x \<noteq> init_proc" "parent_of y j = Some x" "state_of y j = ZOMBIE"
    then have par: "parent_of s j = Some x" by (auto simp: s(1) split: if_splits)
    then have xp: "x \<noteq> p" using nokid by auto
    show "\<not> (state_of y x = SLEEPING \<and> sp_chan (tab y x) = ProcChan x) \<and>
        (\<forall>i kids. state_of y x = RUNNING \<longrightarrow> ploc y x \<in> {WtScan i kids, WtKid i kids} \<longrightarrow> i \<le> j)"
    proof (cases "j = p")
      case True
      then have xq: "x = q" using par pq x(1) by auto
      have "ploc s q \<notin> {WtScan i kids, WtKid i kids}" if "state_of s q = RUNNING" for i kids
      proof -
        have "runs s q" using run_invD(9) [OF r, of q] that by blast
        then obtain d where d: "cur s d = Some q" by (auto simp: runs_def)
        then have "q \<notin> own s d" using good_disjoint [of q "hw s" c d] o p(1) pq by auto
        then show ?thesis using procD(1) [OF inv d refl] by auto
      qed
      then show ?thesis using xq pq(2) by (auto simp: s woken_def)
    next
      case False
      then have "state_of s j = ZOMBIE" using wok [of j] x(3) by auto
      then show ?thesis
        using w [unfolded wait_inv_def, rule_format, OF x(1) par] wok [OF xp] xp by (auto simp: s)
    qed
  qed
  moreover have "wake_inv y"
    unfolding wake_inv_def
  proof (intro allI impI)
    fix d rr ch n l j assume d: "at_loc y d = WkAcq rr ch n" "l \<in> own y d" "j < n"
    then have dc: "d \<noteq> c" using p(1) by (auto simp: at_loc_def s)
    then have "at_loc y d = at_loc s d" using uq [of d] by (auto simp: at_loc_def s split: option.split)
    then have "\<not> committed s j ch l" using d dc hw(2) wake_invD [OF inv, of d rr ch n l j] by (simp add: s)
    then show "\<not> committed y j ch l" by (cases "j = p") (auto simp: committed_def s woken_def split: if_splits)
  qed
  ultimately have "sched_inv y" by (simp add: sched_inv_def)
  then show ?thesis by (simp add: y_def)
qed

subsection \<open>The steps of exit, wait and fork\<close>

lemma wake1_eq:
  "good (hw s) \<Longrightarrow> p \<in> own s c \<Longrightarrow> wake1 c p s = Inr (on_tab p (woken (ProcChan p)) s)"
  by (auto simp: wake1_def good_holding on_tab_def woken_def)

lemma exit_safe:
  assumes inv: "sched_inv s" and p: "cur s c = Some p" "ploc s p = a"
    and a: "a \<in> {ExInit st, ExPar st, ExLockPar st q, ExLockSelf st q, ExScan st q i, ExGive st q i, ExFin st q}"
    and r: "exit_step c p a s = Some r"
  shows "safe r"
proof -
  note pD = procD [OF inv p] and g = sched_inv_good [OF inv]
  have t: "tree_inv s" using inv by (simp add: sched_inv_def)
  consider "a = ExInit st" | "a = ExPar st" | "a = ExLockPar st q" | "a = ExLockSelf st q" | "a = ExScan st q i"
    | "a = ExGive st q i" | "a = ExFin st q" using a by auto
  then show ?thesis
  proof cases
    case 1
    have o: "own s c = {}" using pD(1) 1 by auto
    have "acq c init_proc s (\<lambda>s1. bindR (wake1 c init_proc s1) (\<lambda>s2. rel c init_proc s2 (\<lambda>s3. Inr (goto c (ExPar st) s3)))) = Some r"
      using r 1 by (simp add: exit_step_def)
    from this g show ?thesis
    proof (rule acq_safe)
      fix m assume m: "good m" "owned m = (own s)(c := insert init_proc (own s c))" "\<And>d. init_proc \<notin> own s d"
      have e: "wake1 c init_proc (s\<lparr>hw := m\<rparr>) = Inr (on_tab init_proc (woken (ProcChan init_proc)) (s\<lparr>hw := m\<rparr>))"
        using m by (intro wake1_eq) simp_all
      show "safe (bindR (wake1 c init_proc (s\<lparr>hw := m\<rparr>)) (\<lambda>s2. rel c init_proc s2 (\<lambda>s3. Inr (goto c (ExPar st) s3))))"
        unfolding e bindR_simps
        by (rule rel_safe, use m in simp, use m in simp, unfold on_tab_hw, simp)
           (rule sched_inv_poke [OF inv], use m o pD 1 p in \<open>auto simp: fun_upd_idem\<close>)
    qed (simp add: o)
  next
    case 2
    have o: "own s c = {}" "p \<noteq> init_proc" using pD(1,6) 2 by auto
    obtain q where q: "parent_of s p = Some q"
      using tree_invD(8) [OF t, of p] pD(2) o 2 by auto
    have ex: "exit_ok (parent_of s) p q" "q < NPROC"
      using q tree_invD(2,4) [OF t q] tree_invD(2) [OF t, of q p] tree_invD(5) [OF t, of q] o(2) by (auto simp: exit_ok_def alive_def)
    have "acq c p s (\<lambda>s1. rel c p s1 (\<lambda>s2. Inr (goto c (ExLockPar st q) s2))) = Some r"
      using r 2 q by (simp add: exit_step_def acq_def)
    from this g show ?thesis
      by (rule acq_rel_safe [where f = "\<lambda>s. s"], simp add: o, simp, simp)
         (rule sched_inv_move [OF inv, where L' = "{}"], use pD 2 p o ex in \<open>auto simp: fun_upd_idem\<close>)
  next
    case 3
    have o: "own s c = {}" using pD(1) 3 by auto
    have "acq c q s (\<lambda>s1. Inr (goto c (ExLockSelf st q) s1)) = Some r" using r 3 by (simp add: exit_step_def)
    from this g show ?thesis
      by (rule acq_safe, simp add: o, simp) (rule sched_inv_move [OF inv], use pD 3 p o in auto)
  next
    case 4
    have o: "own s c = {q}" "p \<notin> own s c" using pD(1,6) 4 by (auto simp: exit_ok_def)
    have "acq c p s (\<lambda>s1. Inr (goto c (ExScan st q 0) s1)) = Some r" using r 4 by (simp add: exit_step_def)
    from this g o(2) show ?thesis
      by (rule acq_safe, simp) (rule sched_inv_move [OF inv], use pD 4 p o in auto)
  next
    case 5
    let ?b = "if i < NPROC then if parent_of s i = Some p then ExGive st q i else ExScan st q (Suc i) else ExFin st q"
    have e: "r = Inr (goto c ?b (s\<lparr>hw := hw s\<rparr>))" using r 5 by (simp add: exit_step_def)
    have o: "own s c = {p, q}" "q < NPROC" "i \<le> NPROC" and b: "exit_ok (parent_of s) p q" "\<forall>j<i. parent_of s j \<noteq> Some p"
      using pD(1,6) 5 by auto
    show ?thesis
      unfolding e safe_Inr
      by (rule sched_inv_move [OF inv g, where L' = "own s c"])
         (use pD 5 p o b in \<open>auto simp: fun_upd_idem less_Suc_eq split: if_splits\<close>)
  next
    case 6
    have o: "own s c = {p, q}" and b: "exit_ok (parent_of s) p q" "parent_of s i = Some p" using pD(1,6) 6 by auto
    have ni: "i \<notin> own s c" using o b tree_invD(2) [OF t b(2)] by (auto simp: exit_ok_def)
    let ?f = "on_tab i (sp_parent_update (\<lambda>_. Some init_proc))"
    have "acq c i s (\<lambda>s1. rel c i (?f s1) (\<lambda>s2. Inr (goto c (ExScan st q (Suc i)) s2))) = Some r"
      using r 6 by (simp add: exit_step_def)
    from this g ni show ?thesis
      by (rule acq_rel_safe [where f = ?f], simp, unfold on_tab_hw, simp) (rule give_inv [OF inv], use p 6 in auto)
  next
    case 7
    have o: "own s c = {p, q}" "{p, q} - {q} = {p}" using pD(1,6) 7 by (auto simp: exit_ok_def)
    have w: "wake1 c q s = Inr (on_tab q (woken (ProcChan q)) s)" using g o by (intro wake1_eq) simp_all
    have e: "r = rel c q (on_tab p (\<lambda>x. x\<lparr>sp_xstate := st, sp_state := ZOMBIE\<rparr>) (on_tab q (woken (ProcChan q)) s))
        (\<lambda>s2. Inr (goto c (Sched KExit) s2))"
      using r 7 by (simp add: exit_step_def w)
    show ?thesis
      unfolding e
      by (rule rel_safe, use g in simp, use o in simp, unfold on_tab_hw safe_Inr)
         (rule exit_inv [OF inv], use p 7 o in auto)
  qed
qed

lemma wait_invD:
  assumes "sched_inv s" and "p \<noteq> init_proc" and "parent_of s j = Some p" and "state_of s j = ZOMBIE"
  shows "\<not> (state_of s p = SLEEPING \<and> sp_chan (tab s p) = ProcChan p)"
    and "state_of s p = RUNNING \<Longrightarrow> ploc s p = WtScan i kids \<Longrightarrow> i \<le> j"
    and "state_of s p = RUNNING \<Longrightarrow> ploc s p = WtKid i kids \<Longrightarrow> i \<le> j"
  using assms unfolding sched_inv_def wait_inv_def by auto

lemma wait_scan_safe:
  assumes inv: "sched_inv s" and p: "cur s c = Some p" "ploc s p = WtScan i kids"
    and r: "wait_step c p w (WtScan i kids) s = Some r"
  shows "safe r"
proof -
  note pD = procD [OF inv p] and g = sched_inv_good [OF inv]
  have t: "tree_inv s" using inv by (simp add: sched_inv_def)
  have o: "own s c = {p}" "i \<le> NPROC" using pD(1) by auto
  have z: "i \<le> j" if "p \<noteq> init_proc" "parent_of s j = Some p" "state_of s j = ZOMBIE" for j
    using wait_invD(2) [OF inv that _ p(2)] pD(2) by simp
  show ?thesis
  proof (cases "i < NPROC")
    case True
    let ?b = "if parent_of s i = Some p then WtKid i kids else WtScan (Suc i) kids"
    have e: "r = Inr (goto c ?b (s\<lparr>hw := hw s\<rparr>))" using r True by (simp add: wait_step_def)
    show ?thesis
      unfolding e safe_Inr
    proof (rule sched_inv_move [OF inv g, where L' = "own s c"])
      fix x k kids' j assume x: "cur s c = Some x" and b: "?b \<in> {WtScan k kids', WtKid k kids'}" and j: "x \<noteq> init_proc"
        "parent_of s j = Some x" "state_of s j = ZOMBIE"
      have "x = p" using x p(1) by simp
      then have "i \<le> j" and "parent_of s i = Some p \<or> j \<noteq> i" using z j by auto
      then show "k \<le> j" using b by (cases "parent_of s i = Some p") auto
    qed (use pD(1,2,4) p o True in \<open>auto simp: fun_upd_idem split: if_splits\<close>)
  next
    case False
    show ?thesis
    proof (cases "\<not> kids \<or> sp_killed (tab s p)")
      case True
      then have e: "r = rel c p s (\<lambda>s1. Inr (goto c Run s1))" using r \<open>\<not> i < NPROC\<close> by (auto simp: wait_step_def)
      show ?thesis
        unfolding e by (rule rel_safe [OF g], use o in simp, simp)
          (rule sched_inv_move [OF inv, where L' = "{}"], use pD p o in auto)
    next
      case awake: False
      have e: "r = Inr (goto c (Sched KWait) (on_tab p (\<lambda>x. x\<lparr>sp_chan := ProcChan p, sp_state := SLEEPING\<rparr>) (s\<lparr>hw := hw s\<rparr>)))"
        using r False awake by (simp add: wait_step_def)
      have "j < NPROC" if "parent_of s j = Some p" for j using tree_invD(1) [OF t that] .
      then show ?thesis
        unfolding e safe_Inr
        by (intro sched_inv_own [OF inv p(1), where L' = "own s c"])
           (use pD p o g False z in \<open>force simp: fun_upd_idem\<close>)+
    qed
  qed
qed

lemma wait_kid_safe:
  assumes inv: "sched_inv s" and p: "cur s c = Some p" "ploc s p = WtKid i kids"
    and r: "wait_step c p w (WtKid i kids) s = Some r"
  shows "safe r"
proof -
  note pD = procD [OF inv p] and g = sched_inv_good [OF inv]
  have t: "tree_inv s" using inv by (simp add: sched_inv_def)
  have o: "own s c = {p}" "i < NPROC" and par: "parent_of s i = Some p" using pD(1,6) by auto
  have ip: "i \<noteq> p" using tree_invD(2) [OF t par] by auto
  have z: "i \<le> j" if "p \<noteq> init_proc" "parent_of s j = Some p" "state_of s j = ZOMBIE" for j
    using wait_invD(3) [OF inv that _ p(2)] pD(2) by simp
  show ?thesis
  proof (cases "state_of s i = ZOMBIE")
    case True
    let ?f = "\<lambda>s1. if w = CopyFails then s1 else on_tab i free_entry s1"
    have "acq c i s (\<lambda>s1. rel c i (?f s1) (\<lambda>s2. rel c p s2 (\<lambda>s3. Inr (goto c Run s3)))) = Some r"
      using r True by (simp add: wait_step_def acq_def)
    from this g show ?thesis
    proof (rule acq_rel_safe [where f = ?f])
      fix m m' assume m: "good m'" "owned m' = own s" "\<And>d. i \<notin> own s d"
      have hw: "hw ((?f (s\<lparr>hw := m\<rparr>))\<lparr>hw := m'\<rparr>) = m'" by simp
      show "safe (rel c p ((?f (s\<lparr>hw := m\<rparr>))\<lparr>hw := m'\<rparr>) (\<lambda>s3. Inr (goto c Run s3)))"
      proof (rule rel_safe)
        fix m2 assume m2: "good m2" "owned m2 = (own ((?f (s\<lparr>hw := m\<rparr>))\<lparr>hw := m'\<rparr>))(c := own ((?f (s\<lparr>hw := m\<rparr>))\<lparr>hw := m'\<rparr>) c - {p})"
        then have o2: "owned m2 = (own s)(c := {})" using m o unfolding hw by simp
        have "sched_inv (goto c Run (on_tab i free_entry (s\<lparr>hw := m2\<rparr>)))" using free_inv [OF inv p True m(3) m2(1) o2] .
        moreover have "sched_inv (goto c Run (s\<lparr>hw := m2\<rparr>))"
          by (rule sched_inv_move [OF inv m2(1) o2]) (use pD p in auto)
        ultimately show "safe (Inr (goto c Run ((?f (s\<lparr>hw := m\<rparr>))\<lparr>hw := m', hw := m2\<rparr>)))" by (simp add: on_tab_hw)
      qed (use m o in \<open>simp_all only: hw\<close>, simp)
    qed (use o ip in simp_all)
  next
    case False
    have "acq c i s (\<lambda>s1. rel c i s1 (\<lambda>s2. Inr (goto c (WtScan (Suc i) True) s2))) = Some r"
      using r False by (simp add: wait_step_def acq_def)
    from this g show ?thesis
    proof (rule acq_rel_safe [where f = "\<lambda>s. s"])
      fix m m' assume m: "good m'" "owned m' = own s"
      have "sched_inv (goto c (WtScan (Suc i) True) (s\<lparr>hw := m'\<rparr>))"
      proof (rule sched_inv_move [OF inv m(1), where L' = "own s c"])
        fix x k kids' j assume x: "cur s c = Some x" and b: "WtScan (Suc i) True \<in> {WtScan k kids', WtKid k kids'}"
          and j: "x \<noteq> init_proc" "parent_of s j = Some x" "state_of s j = ZOMBIE"
        have "x = p" using x p(1) by simp
        then have "i \<le> j" and "j \<noteq> i" using z j False by auto
        then show "k \<le> j" using b by auto
      qed (use pD p o m in \<open>auto simp: fun_upd_idem\<close>)
      then show "safe (Inr (goto c (WtScan (Suc i) True) (s\<lparr>hw := m, hw := m'\<rparr>)))" by simp
    qed (use o ip in simp_all)
  qed
qed

lemma wait_acq_safe:
  assumes inv: "sched_inv s" and p: "cur s c = Some p" "ploc s p = WtAcq" and r: "wait_step c p w WtAcq s = Some r"
  shows "safe r"
proof -
  note pD = procD [OF inv p] and g = sched_inv_good [OF inv]
  have o: "own s c = {}" using pD(1) by auto
  have "acq c p s (\<lambda>s1. Inr (goto c (WtScan 0 False) s1)) = Some r" using r by (simp add: wait_step_def)
  from this g show ?thesis
    by (rule acq_safe, simp add: o, simp) (rule sched_inv_move [OF inv], use pD p o in auto)
qed

lemma fork_safe:
  assumes inv: "sched_inv s" and p: "cur s c = Some p" "ploc s p = FkAcq i" and r: "fork_step c p w i s = Some r"
  shows "safe r"
proof -
  note pD = procD [OF inv p] and g = sched_inv_good [OF inv]
  have o: "own s c = {}" using pD(1) by auto
  show ?thesis
  proof (cases "state_of s i = UNUSED")
    case True
    have "acq c i s (\<lambda>s1. rel c i (new_proc p w i s1) (\<lambda>s2. Inr (goto c Run s2))) = Some r"
      using r True by (simp add: fork_step_def acq_def)
    moreover have hw: "hw (new_proc p w i s1) = hw s1" "(new_proc p w i s1)\<lparr>hw := m\<rparr> = new_proc p w i (s1\<lparr>hw := m\<rparr>)" for s1 m
      by (cases s1; cases w; simp add: new_proc_def on_tab_def Let_def)+
    ultimately show ?thesis
      using g by (elim acq_rel_safe [where f = "new_proc p w i"]) (auto simp: o hw intro!: fork_inv [OF inv p True])
  next
    case False
    let ?b = "if Suc i < NPROC then FkAcq (Suc i) else Run"
    have "acq c i s (\<lambda>s1. rel c i s1 (\<lambda>s2. Inr (goto c ?b s2))) = Some r"
      using r False by (simp add: fork_step_def acq_def)
    from this g show ?thesis
    proof (rule acq_rel_safe [where f = "\<lambda>s. s"])
      fix m m' assume m: "good m'" "owned m' = own s"
      have "sched_inv (goto c ?b (s\<lparr>hw := m'\<rparr>))"
        by (rule sched_inv_move [OF inv m(1), where L' = "own s c"]) (use pD p o m in \<open>auto simp: fun_upd_idem split: if_splits\<close>)
      then show "safe (Inr (goto c ?b (s\<lparr>hw := m, hw := m'\<rparr>)))" by simp
    qed (simp_all add: o)
  qed
qed

subsection \<open>Every step\<close>

lemma code_safe:
  assumes inv: "sched_inv s" and nord: "\<not> ordinary (at_loc s c)" and r: "code_step c w s = Some r"
  shows "safe r \<or> r = Inl (Panic ''sched locks'') \<and> (\<exists>p l. cur s c = Some p \<and> ploc s p = Sched (KSleep l) \<and> own s c \<noteq> {p})"
proof (cases "cur s c")
  case None
  then have at: "at_loc s c = sloc s c" by (simp add: at_loc_def)
  show ?thesis
  proof (cases "\<exists>x ch i. sloc s c = WkAcq x ch i")
    case True
    then obtain x ch i where x: "at_loc s c = WkAcq x ch i" using at by auto
    then have "wakeup_step c x ch i s = Some r" using r None by (simp add: code_step_def)
    then show ?thesis using wakeup_safe [OF inv x] by blast
  next
    case False
    then have "scheduler_step c (sloc s c) s = Some r"
      using r None at by (cases "sloc s c") (auto simp: code_step_def)
    then show ?thesis using False nord at by (intro disjI1 scheduler_safe [OF inv None]) auto
  qed
next
  case (Some p)
  then have at: "at_loc s c = ploc s p" by (simp add: at_loc_def)
  have st: "proc_step c p w (ploc s p) s = Some r" using r Some procD(5) [OF inv Some refl] at by (simp add: code_step_def)
  have h: "hok (Some p) (ploc s p) (own s c)" by (rule procD(1) [OF inv Some refl])
  show ?thesis
  proof (cases "ploc s p")
    case (WkAcq x ch i)
    then show ?thesis using st at by (intro disjI1 wakeup_safe [OF inv, of c x ch i]) (simp_all add: proc_step_def)
  next
    case (Sched k)
    then show ?thesis using st sched_safe [OF inv Some Sched] Some by (auto simp: proc_step_def split: if_splits)
  next
    case (SchedRet ie k)
    then show ?thesis using st sched_return_safe [OF inv Some] by (simp add: proc_step_def)
  next
    case Forkret
    then show ?thesis using st forkret_safe [OF inv Some] by (simp add: proc_step_def)
  qed (use st h nord at in \<open>auto simp: proc_step_def intro: yield_safe [OF inv Some] kill_safe [OF inv Some] fork_safe [OF inv Some]
      wait_acq_safe [OF inv Some] wait_scan_safe [OF inv Some] wait_kid_safe [OF inv Some]
      sleep_safe [OF inv Some] exit_safe [OF inv Some]\<close>)
qed

lemma goto_same: "goto c (at_loc s c) (s\<lparr>hw := m\<rparr>) = s\<lparr>hw := m\<rparr>"
  by (cases s) (auto simp: goto_def at_loc_def split: option.split)

lemma ordinary_at:
  assumes "ordinary a"
  shows "st_at a = RUNNING" "a \<noteq> SBack i" "a \<noteq> WtScan i kids" "a \<noteq> WtKid i kids" "a \<noteq> SlpSet ch l" "a \<noteq> WkAcq r ch i"
    "a \<noteq> Sched KExit" "hok t a L \<Longrightarrow> L' \<inter> {..<NPROC} = {} \<Longrightarrow> hok t a L'" "hok t a L \<Longrightarrow> L \<inter> {..<NPROC} = {}"
  using assms by (cases t; cases a; auto)+

text \<open>Ordinary code that stays where it is.\<close>

lemma stay_inv:
  assumes inv: "sched_inv s" and o: "ordinary (at_loc s c)" and hw: "good m" "owned m = (own s)(c := L')" "L' \<inter> {..<NPROC} = {}"
  shows "sched_inv (s\<lparr>hw := m\<rparr>)"
proof -
  have "sched_inv (goto c (at_loc s c) (s\<lparr>hw := m\<rparr>))"
    by (rule sched_inv_move [OF inv hw(1,2) ordinary_at(8) [OF o threadD(1) [OF inv] hw(3)]])
      (use ordinary_at(1-7) [OF o] threadD(3) [OF inv, of c] in auto)
  then show ?thesis by (simp only: goto_same)
qed

text \<open>Ordinary code of a process that calls a function, with no lock or with one lock.\<close>

lemma call_enter_inv:
  assumes inv: "sched_inv s" and o: "ordinary (at_loc s c)" and ok: "hok (cur s c) a (own s c)"
    and a: "st_at a = RUNNING" "\<And>i. a \<noteq> SBack i" "\<And>ch l. a \<noteq> SlpSet ch l" "\<And>i kids. a \<noteq> WtScan i kids" "\<And>i kids. a \<noteq> WtKid i kids"
      "\<And>r ch i. a = WkAcq r ch i \<Longrightarrow> i = 0"
    and bs: "\<And>p. cur s c = Some p \<Longrightarrow> base_ok (parent_of s) p (base a)"
  shows "sched_inv (goto c a s)"
proof -
  have "sched_inv (goto c a (s\<lparr>hw := hw s\<rparr>))"
    by (rule sched_inv_move [OF inv sched_inv_good [OF inv], where L' = "own s c"])
      (use ordinary_at(1,2) [OF o] ok a bs in \<open>auto simp: fun_upd_idem\<close>)
  then show ?thesis by simp
qed

lemma call_safe:
  assumes inv: "sched_inv s" and may: "may_call c f s" and r: "call_step c f s = Some r"
    and init: "\<And>st. f = CExit st \<Longrightarrow> cproc s c \<noteq> Some init_proc"
  shows "safe r"
proof -
  note g = sched_inv_good [OF inv] and t = threadD [OF inv, of c]
  have o: "ordinary (at_loc s c)" using may by (auto simp: may_call_def Let_def)
  note oa = ordinary_at [OF o]
  have tb: "cur s c = Some p \<Longrightarrow> base_ok (parent_of s) p (base (at_loc s c))" for p using t(3) oa(7) by simp
  have own: "own s c \<inter> {..<NPROC} = {}" using oa(9) [OF t(1)] .
  have noff: "noff (harts (hw s) c) = 0 \<Longrightarrow> own s c = {}" using good_noff_0 [OF g] by simp
  have run: "at_loc s c = Run \<Longrightarrow> \<exists>p. cur s c = Some p" using t(1) by (cases "cur s c") auto
  have cp: "cproc s c = Some p \<Longrightarrow> at_loc s c = Run \<Longrightarrow> cur s c = Some p" for p using run procD(5) [OF inv] by fastforce
  show ?thesis
  proof (cases f)
    case (CAcquire l)
    have l: "l \<notin> own s c" "NPROC \<le> l" using may CAcquire good_holding [OF g] by (auto simp: may_call_def Let_def)
    have "acq c l s Inr = Some r" using r CAcquire by (simp add: call_step_def)
    from this g l(1) show ?thesis
      by (rule acq_safe, simp) (rule stay_inv [OF inv o, where L' = "insert l (own s c)"], use l own in auto)
  next
    case (CRelease l)
    have l: "l \<in> own s c" using may CRelease good_holding [OF g] by (auto simp: may_call_def Let_def)
    have e: "r = rel c l s Inr" using r CRelease by (simp add: call_step_def)
    show ?thesis
      unfolding e by (rule rel_safe [OF g l], simp) (rule stay_inv [OF inv o, where L' = "own s c - {l}"], use own in auto)
  next
    case (CIntr b)
    have n: "own s c = {}" using may CIntr noff by (auto simp: may_call_def Let_def)
    have e: "r = Inr (set_intr c b s)" using r CIntr by (simp add: call_step_def)
    show ?thesis
      unfolding e safe_Inr set_intr_def
      by (rule stay_inv [OF inv o, where L' = "{}"]) (use n g in \<open>auto simp: good_intr fun_upd_idem\<close>)
  next
    case CReturn
    have n: "own s c = {}" "at_loc s c \<noteq> Run" using may CReturn noff by (auto simp: may_call_def Let_def)
    then obtain x where x: "at_loc s c = Hdl x" using o by (cases "at_loc s c") auto
    then have e: "r = Inr (goto c x (set_intr c True s))" using r CReturn by (simp add: call_step_def)
    have h: "hok (cur s c) x {}" using t(1) x by simp
    then have "st_at x = RUNNING" "\<And>i. x \<noteq> SBack i" "\<And>ch l. x \<noteq> SlpSet ch l" "\<And>i kids. x \<noteq> WtScan i kids" "\<And>i kids. x \<noteq> WtKid i kids"
      by (cases "cur s c"; cases x; auto)+
    then show ?thesis
      unfolding e safe_Inr set_intr_def
      by (intro sched_inv_move [OF inv, where L' = "{}"]) (use n g x h tb in \<open>auto simp: good_intr fun_upd_idem\<close>)
  next
    case (CWakeup ch)
    then show ?thesis using r t(1) tb o own by (auto simp: call_step_def Let_def intro!: call_enter_inv [OF inv o])
  next
    case CYield
    have n: "own s c = {}" "cproc s c \<noteq> None" using may CYield noff by (auto simp: may_call_def Let_def split: option.splits)
    have "cur s c \<noteq> None"
    proof
      assume c: "cur s c = None"
      then have "cproc s c = (case sloc s c of SBack i \<Rightarrow> Some i | _ \<Rightarrow> None)" "at_loc s c = sloc s c"
        using inv run_invD(7) by (auto simp: sched_inv_def at_loc_def)
      then show False using n o oa(2) by (auto split: loc.splits)
    qed
    then show ?thesis using r t(1) tb o n CYield by (auto simp: call_step_def Let_def intro!: call_enter_inv [OF inv o])
  next
    case (CSleep ch l)
    have a: "at_loc s c = Run" "l \<in> own s c" "NPROC \<le> l" "\<forall>q. ch \<noteq> ProcChan q"
      using may CSleep proc_chan.simps(1) good_holding [OF g] by (auto simp: may_call_def Let_def)
    then show ?thesis using r own run CSleep by (auto simp: call_step_def Let_def intro!: call_enter_inv [OF inv o])
  next
    case (CExit st)
    have a: "at_loc s c = Run" "own s c = {}" "cproc s c \<noteq> Some init_proc" using may CExit noff init by (auto simp: may_call_def Let_def)
    then have "cur s c \<noteq> Some init_proc" using procD(5) [OF inv, of c init_proc] by auto
    then show ?thesis using r a run CExit by (auto simp: call_step_def Let_def intro!: call_enter_inv [OF inv o] gr0I)
  qed (use may r run noff in \<open>auto simp: may_call_def call_step_def Let_def intro!: call_enter_inv [OF inv o]\<close>)
qed

lemma call_panics:
  assumes inv: "sched_inv s" and may: "may_call c f s" and r: "call_step c f s = Some (Inl e)"
  shows "e = Panic ''init exiting'' \<and> (\<exists>st. f = CExit st) \<and> cproc s c = Some init_proc"
proof (rule ccontr)
  assume n: "\<not> ?thesis"
  have "cproc s c \<noteq> Some init_proc" if "f = CExit st" for st using n r that by (auto simp: call_step_def)
  then show False using call_safe [OF inv may r] by (simp add: safe_def)
qed

lemma call_step_inv: "sched_inv s \<Longrightarrow> may_call c f s \<Longrightarrow> call_step c f s = Some (Inr s') \<Longrightarrow> sched_inv s'"
  using call_safe [of s c f "Inr s'"] by (fastforce simp: call_step_def)

lemma irq_inv:
  assumes inv: "sched_inv s" and i: "intr (harts (hw s) c)"
  shows "sched_inv (goto c (Hdl (at_loc s c)) (set_intr c False s))"
proof -
  note g = sched_inv_good [OF inv] and t = threadD [OF inv, of c]
  have o: "own s c = {}" using goodD(4) [OF g, of _ c] i by blast
  then have st: "st_at (at_loc s c) = RUNNING" "\<And>i. at_loc s c \<noteq> SBack i"
    using t(1) by (cases "cur s c"; cases "at_loc s c" rule: st_at.cases; auto)+
  moreover have tb: "cur s c = Some p \<Longrightarrow> base_ok (parent_of s) p (base (at_loc s c))" for p
    using t(3) [of p] st(1) by (cases "at_loc s c = Sched KExit") auto
  ultimately show ?thesis
    unfolding set_intr_def
    by (intro sched_inv_move [OF inv, where L' = "{}"]) (use o g t(1) tb in \<open>auto simp: good_intr fun_upd_idem\<close>)
qed

lemma free_entry_fields: "sp_state (free_entry x) = UNUSED" "sp_parent (free_entry x) = None"
  by (simp_all add: free_entry_def)

lemma start_inv:
  assumes "sched_start s"
  shows "sched_inv s"
proof -
  have o: "own s c = {}" for c using assms by (auto simp: sched_start_def owned_def)
  have u: "sp_state (tab s p) = UNUSED" "sp_parent (tab s p) = None" if "p \<noteq> init_proc" for p
  proof -
    have "tab s p = free_entry (tab s p)" using assms that by (simp add: sched_start_def)
    then show "sp_state (tab s p) = UNUSED" "sp_parent (tab s p) = None" by (metis free_entry_fields)+
  qed
  have g: "good (hw s)" using assms o by (auto simp: good_def sched_start_def)
  have c: "cur s c = None" "sloc s c = SLoop" "cproc s c = None" for c using assms by (auto simp: sched_start_def)
  have z: "tab s 0 = \<lparr>sp_state = RUNNABLE, sp_parent = None, sp_chan = NoChan, sp_killed = False, sp_xstate = 0, sp_pid = 1\<rparr>"
    "ploc s 0 = Forkret" "next_pid s = 2" using assms by (auto simp: sched_start_def)
  have st: "state_of s p = (if p = 0 then RUNNABLE else UNUSED)" "parent_of s p = None" for p using u [of p] z by (cases "p = 0"; simp)+
  have "run_inv s" unfolding run_inv_def using g o by (simp add: at_loc_def c runs_def st z)
  moreover have "tree_inv s" unfolding tree_inv_def by (auto simp: st z alive_def)
  moreover have "wait_inv s" unfolding wait_inv_def by (simp add: st)
  moreover have "wake_inv s" unfolding wake_inv_def by (simp add: at_loc_def c)
  ultimately show ?thesis by (simp add: sched_inv_def)
qed

lemma reach_inv: "sched_reach s \<Longrightarrow> sched_inv s"
proof (induction rule: sched_reach.induct)
  case (start s)
  then show ?case by (rule start_inv)
next
  case (step s s')
  from step.hyps(2) show ?case
  proof cases
    case (irq c)
    then show ?thesis using irq_inv [OF step.IH] by simp
  next
    case (call c f)
    then show ?thesis using call_step_inv [OF step.IH, of c f s'] by simp
  next
    case (code c w)
    then show ?thesis using code_safe [OF step.IH, of c w "Inr s'"] by simp
  qed
qed

end
