(* ===== verification/Scheduling.thy ===== *)
theory Scheduling
  imports SchedInv
begin

text \<open>
  What the scheduler promises: where it can panic and where not, a process is executed by one hart at a time, a
  \<open>wakeup\<close> under the lock of the condition misses no sleeper, and a process does not sleep in
  \<open>wait\<close> while it has an exited child. \<open>exec_run\<close> runs a given interleaving, for concrete runs.
\<close>

section \<open>Concrete runs\<close>

datatype act = Code nat outcome | Call nat call | Irq nat

fun exec_act :: "act \<Rightarrow> sch \<Rightarrow> sch option" where
  "exec_act (Code c w) s =
     (if ordinary (at_loc s c) then None else case code_step c w s of Some (Inr s') \<Rightarrow> Some s' | _ \<Rightarrow> None)"
| "exec_act (Call c f) s =
     (if may_call c f s then case call_step c f s of Some (Inr s') \<Rightarrow> Some s' | _ \<Rightarrow> None else None)"
| "exec_act (Irq c) s =
     (if intr (harts (hw s) c) then Some (goto c (Hdl (at_loc s c)) (set_intr c False s)) else None)"

fun exec_run :: "act list \<Rightarrow> sch \<Rightarrow> sch option" where
  "exec_run [] s = Some s"
| "exec_run (a # as) s = (case exec_act a s of None \<Rightarrow> None | Some s' \<Rightarrow> exec_run as s')"

lemma exec_act_step: "exec_act a s = Some s' \<Longrightarrow> sched_step s s'"
  by (cases a) (auto split: if_splits option.splits sum.splits intro: sched_step.intros)

lemma exec_run_reach: "exec_run as s = Some s' \<Longrightarrow> sched_reach s \<Longrightarrow> sched_reach s'"
proof (induction as arbitrary: s)
  case (Cons a as)
  then obtain t where t: "exec_act a s = Some t" "exec_run as t = Some s'" by (auto split: option.splits)
  show ?case using Cons.IH [OF t(2) sched_reach.step [OF Cons.prems(2) exec_act_step [OF t(1)]]] .
qed simp

definition ex_boot :: sch where
  "ex_boot = \<lparr>tab = (\<lambda>p. \<lparr>sp_state = (if p = 0 then RUNNABLE else UNUSED), sp_parent = None, sp_chan = NoChan,
       sp_killed = False, sp_xstate = 0, sp_pid = (if p = 0 then 1 else 0)\<rparr>),
     next_pid = 2,
     hw = \<lparr>harts = (\<lambda>_. \<lparr>noff = 0, intena = False, intr = False\<rparr>), locks = (\<lambda>_. \<lparr>locked = False, lk_name = [], lk_cpu = None\<rparr>)\<rparr>,
     cproc = (\<lambda>_. None), cur = (\<lambda>_. None), sloc = (\<lambda>_. SLoop), ploc = (\<lambda>_. Forkret)\<rparr>"

lemma ex_boot_reach: "sched_reach ex_boot"
  by (rule sched_reach.start) (simp add: sched_start_def ex_boot_def free_entry_def)

definition after :: "act list \<Rightarrow> sch" where
  "after as = (case exec_run as ex_boot of Some s \<Rightarrow> s | None \<Rightarrow> ex_boot)"

lemma after_reach: "sched_reach (after as)"
  using exec_run_reach [OF _ ex_boot_reach] by (auto simp: after_def ex_boot_reach split: option.split)

text \<open>The first process runs, takes lock 64 and calls \<open>wakeup\<close> on a channel.\<close>

definition ex_wake_acts :: "act list" where
  "ex_wake_acts = [Code 0 Done, Code 0 Done, Code 0 Done, Call 0 (CAcquire 64), Call 0 (CWakeup (AddrChan 8))]"

definition ex_waking :: sch where
  "ex_waking = after ex_wake_acts"

lemma ex_waking_reach: "sched_reach ex_waking"
  unfolding ex_waking_def by (rule after_reach)

lemma ex_waking_at: "cur ex_waking 0 = Some 0" "at_loc ex_waking 0 = WkAcq Run (AddrChan 8) 0" "holding 0 64 (hw ex_waking)"
  by code_simp+

definition ex_woke :: sch where
  "ex_woke = (case code_step 0 Done ex_waking of Some (Inr s) \<Rightarrow> s | _ \<Rightarrow> ex_waking)"

lemma ex_woke_step: "code_step 0 Done ex_waking = Some (Inr ex_woke)"
proof -
  have "case code_step 0 Done ex_waking of Some (Inr s) \<Rightarrow> True | _ \<Rightarrow> False" by code_simp
  then show ?thesis by (auto simp: ex_woke_def split: option.splits sum.splits)
qed








section \<open>Properties\<close>





text \<open>Property C14. A process is executed by at most one hart, so its kernel stack is never shared.
  A process that a hart executes while \<open>p->lock\<close> is free is \<open>RUNNING\<close>, and a process that is
  \<open>RUNNING\<close> is executed by a hart.\<close>

theorem process_on_one_hart:
  assumes "sched_reach s"
  shows "(cur s c = Some p \<and> cur s d = Some p \<longrightarrow> c = d) \<and>
    (cur s c = Some p \<and> \<not> locked (locks (hw s) p) \<longrightarrow> state_of s p = RUNNING \<and> cproc s c = Some p) \<and>
    (state_of s p = RUNNING \<longrightarrow> (\<exists>c. cur s c = Some p))"
proof (intro conjI impI)
  note inv = reach_inv [OF assms]
  have r: "run_inv s" using inv by (simp add: sched_inv_def)
  show "c = d" if "cur s c = Some p \<and> cur s d = Some p" using run_invD(8) [OF r] that by blast
  show "\<exists>c. cur s c = Some p" if "state_of s p = RUNNING" using run_invD(9) [OF r, of p] that by (auto simp: runs_def)
  assume c: "cur s c = Some p \<and> \<not> locked (locks (hw s) p)"
  then have "p \<notin> own s c" using goodD(1) [OF run_invD(1) [OF r]] by (auto simp: owned_def)
  then show "state_of s p = RUNNING" using c procD(1,2) [OF inv, of c p] st_at_held [of "ploc s p" p "own s c"] by (auto simp: sleeper_locks_def)
  show "cproc s c = Some p" using c procD(5) [OF inv] by blast
qed

theorem process_on_one_hart_witness:
  "sched_reach ex_waking \<and> cur ex_waking 0 = Some 0 \<and> \<not> locked (locks (hw ex_waking) 0) \<and> state_of ex_waking 0 = RUNNING"
proof -
  have "\<not> locked (locks (hw ex_waking) 0)" by code_simp
  then show ?thesis using process_on_one_hart [OF ex_waking_reach, of 0 0 0] ex_waking_reach ex_waking_at(1) by blast
qed

text \<open>Property C4. No wakeup is lost. A hart that calls \<open>wakeup(ch)\<close> with the lock \<open>l\<close> that
  protects the condition has, after its round for process \<open>i\<close>, left no process up to \<open>i\<close> that has
  called \<open>sleep(ch, l)\<close> and released \<open>l\<close>: not one that sleeps, and not one on the way
  to sleep. After the last round this is every process.\<close>

theorem wakeup_misses_none:
  assumes "sched_reach s" and at: "at_loc s c = WkAcq r ch i" and "holding c l (hw s)" and st: "code_step c w s = Some (Inr s')"
    and "j \<le> i"
  shows "\<not> committed s' j ch l"
proof -
  note inv = reach_inv [OF assms(1)] and g = sched_inv_good [OF inv]
  have l: "l \<in> own s c" using good_holding [OF g] assms(3) by blast
  have "wakeup_step c r ch i s = Some (Inr s')"
    using st at procD(5) [OF inv, of c] by (cases "cur s c") (auto simp: code_step_def proc_step_def)
  then obtain m b where "s' = goto c b (on_tab i (woken ch) (s\<lparr>hw := m\<rparr>))" and "\<And>d. i \<notin> own s d"
    and "\<And>ch l. b \<noteq> SlpSet ch l" "\<And>k. b \<noteq> Sched k" "\<And>ie k. b \<noteq> SchedRet ie k"
    using wakeup_step_eq [OF inv at] by (metis sum.inject(2))
  then show ?thesis using woken_not_committed [OF inv at, of j l b m] l assms(5) by simp
qed

theorem wakeup_misses_none_witness:
  "at_loc ex_waking 0 = WkAcq Run (AddrChan 8) 0 \<and> code_step 0 Done ex_waking = Some (Inr ex_woke) \<and> \<not> committed ex_woke 0 (AddrChan 8) 64"
  using wakeup_misses_none [OF ex_waking_reach ex_waking_at(2,3) ex_woke_step] ex_waking_at ex_woke_step by simp

text \<open>Property C13. A process other than the first that sleeps in \<open>wait\<close> has no child that has
  exited, although \<open>wait\<close> and \<open>exit\<close> read \<open>parent\<close> without the lock of the child: the exiting child
  holds the lock of its parent from before it wakes it up until it is a \<open>ZOMBIE\<close>. (The first
  process may miss the wakeup for a child it inherits, as a comment in \<open>exit\<close> says.)\<close>

theorem wait_misses_no_child:
  assumes "sched_reach s" and "p \<noteq> init_proc"
  shows "\<not> (state_of s p = SLEEPING \<and> sp_chan (tab s p) = ProcChan p \<and> parent_of s j = Some p \<and> state_of s j = ZOMBIE)"
  using wait_invD(1) [OF reach_inv [OF assms(1)] assms(2)] by blast

theorem wait_misses_no_child_witness:
  "sched_reach ex_waking \<and>
   \<not> (state_of ex_waking 1 = SLEEPING \<and> sp_chan (tab ex_waking 1) = ProcChan 1 \<and> parent_of ex_waking 2 = Some 1 \<and>
      state_of ex_waking 2 = ZOMBIE)"
  using wait_misses_no_child [OF ex_waking_reach, of 1 2] ex_waking_reach by simp

lemma kill_step_tab:
  assumes "code_step c w s = Some (Inr s')" and "cur s c = Some p" and "cproc s c = Some p" and "ploc s p = KlAcq pid i"
    and "pid_of s i = pid"
  shows "tab s' i = (tab s i)\<lparr>sp_killed := True, sp_state := (if state_of s i = SLEEPING then RUNNABLE else state_of s i)\<rparr>"
    and "ploc s' p = Run"
proof -
  have "kill_step c pid i s = Some (Inr s')" using assms(1-4) by (simp add: code_step_def proc_step_def at_loc_def)
  then obtain m m' where "s' = goto c Run ((on_tab i (\<lambda>x. x\<lparr>sp_killed := True,
      sp_state := (if sp_state x = SLEEPING then RUNNABLE else sp_state x)\<rparr>) (s\<lparr>hw := m\<rparr>))\<lparr>hw := m'\<rparr>)"
    using assms(5) by (auto simp: kill_step_def acq_def rel_def bindR_eq_Inr)
  then show "tab s' i = (tab s i)\<lparr>sp_killed := True, sp_state := (if state_of s i = SLEEPING then RUNNABLE else state_of s i)\<rparr>"
    and "ploc s' p = Run" using assms(2) by (simp_all add: goto_simps)
qed

lemma fork_step_tab:
  assumes "code_step c Done s = Some (Inr s')" and "cur s c = Some p" and "cproc s c = Some p" and "ploc s p = FkAcq i"
    and "state_of s i = UNUSED"
  shows "tab s' i = (tab s i)\<lparr>sp_pid := next_pid s, sp_parent := Some p, sp_state := RUNNABLE\<rparr>"
proof -
  have "fork_step c p Done i s = Some (Inr s')" using assms(1-4) by (simp add: code_step_def proc_step_def at_loc_def)
  then obtain m m' where "s' = goto c Run ((new_proc p Done i (s\<lparr>hw := m\<rparr>))\<lparr>hw := m'\<rparr>)"
    using assms(5) by (auto simp: fork_step_def acq_def rel_def bindR_eq_Inr)
  then show ?thesis by (simp add: new_proc_def on_tab_def Let_def)
qed

text \<open>The first process calls \<open>kill(0)\<close>, and its scan has passed its own entry.\<close>

definition ex_killer :: sch where
  "ex_killer = after [Code 0 Done, Code 0 Done, Code 0 Done, Call 0 (CKill 0), Code 0 Done]"

lemma ex_killer_reach: "sched_reach ex_killer"
  unfolding ex_killer_def by (rule after_reach)

text \<open>Property C40. \<open>kill(0)\<close> succeeds and kills a process that does not exist yet: in the round for an
  unused entry of the table, whose \<open>pid\<close> is 0, it sets the entry's \<open>killed\<close> and returns. \<open>allocproc\<close>
  does not clear the flag: in any later state with the entry as \<open>kill\<close> left it, a \<open>fork\<close> that takes
  the entry makes a child that is runnable and killed before it first runs.\<close>

theorem kill_zero_kills_next_child:
  assumes "sched_reach s" and "cur s c = Some p" and "ploc s p = KlAcq 0 i" and "state_of s i = UNUSED" and "pid_of s i = 0"
    and "code_step c w s = Some (Inr s')"
  shows "ploc s' p = Run \<and> state_of s' i = UNUSED \<and> sp_killed (tab s' i) \<and>
    (\<forall>t d q t'. sched_reach t \<and> tab t i = tab s' i \<and> cur t d = Some q \<and> ploc t q = FkAcq i \<and> code_step d Done t = Some (Inr t') \<longrightarrow>
       state_of t' i = RUNNABLE \<and> parent_of t' i = Some q \<and> sp_killed (tab t' i))"
proof -
  have "cproc s c = Some p" using procD(5) [OF reach_inv [OF assms(1)] assms(2)] by simp
  note k = kill_step_tab [OF assms(6,2) this assms(3,5)]
  have "state_of t' i = RUNNABLE \<and> parent_of t' i = Some q \<and> sp_killed (tab t' i)"
    if "sched_reach t" "tab t i = tab s' i" "cur t d = Some q" "ploc t q = FkAcq i" "code_step d Done t = Some (Inr t')" for t d q t'
  proof -
    have "cproc t d = Some q" using procD(5) [OF reach_inv [OF that(1)] that(3)] by simp
    from fork_step_tab [OF that(5,3) this that(4)] show ?thesis using that(2) k(1) assms(4) by simp
  qed
  then show ?thesis using k assms(4) by auto
qed

theorem kill_zero_kills_next_child_witness:
  "\<exists>s'. code_step 0 Done ex_killer = Some (Inr s') \<and> state_of s' 1 = UNUSED \<and> sp_killed (tab s' 1)"
proof -
  have "cur ex_killer 0 = Some 0 \<and> ploc ex_killer 0 = KlAcq 0 1 \<and> state_of ex_killer 1 = UNUSED \<and> pid_of ex_killer 1 = 0" by code_simp
  moreover have "case code_step 0 Done ex_killer of Some (Inr s) \<Rightarrow> True | _ \<Rightarrow> False" by code_simp
  then obtain s' where "code_step 0 Done ex_killer = Some (Inr s')" by (auto split: option.splits sum.splits)
  ultimately show ?thesis using kill_zero_kills_next_child [OF ex_killer_reach, of 0 0 1 Done s'] by auto
qed

end
