(* ===== verification/Grep.thy ===== *)
theory Grep
  imports CString
begin

text \<open>
  \<open>user/grep.c\<close>: the matcher for \<open>^ . * $\<close> and the loop that reads a file through a buffer of
  1024 bytes. A C string is the list of its bytes without the NUL. \<open>read\<close> returns some of the
  bytes that are left, as many as the list of \<open>sizes\<close> says for each call, at least one while
  there are any and the buffer has room.

  \<open>strchr\<close> stops at a NUL, so the search sees of the buffer only what comes before the first NUL
  byte of the file, \<open>visible\<close>.

  The matcher is compared with the language of the expression, and the loop with the list of the
  lines of the input.
\<close>

section \<open>Definitions\<close>

abbreviation (input) dot :: byte where "dot \<equiv> 46"
abbreviation (input) star :: byte where "star \<equiv> 42"
abbreviation (input) dollar :: byte where "dollar \<equiv> 36"
abbreviation (input) caret :: byte where "caret \<equiv> 94"
abbreviation (input) nl :: byte where "nl \<equiv> 10"

text \<open>\<open>matchhere\<close> and \<open>matchstar\<close>; the text of \<open>matchstar\<close> gets shorter, its expression stays.\<close>

function matchhere :: "byte list \<Rightarrow> byte list \<Rightarrow> bool"
and matchstar :: "byte \<Rightarrow> byte list \<Rightarrow> byte list \<Rightarrow> bool" where
  "matchhere re text =
     (case re of
        [] \<Rightarrow> True
      | r # re1 \<Rightarrow>
          if re1 \<noteq> [] \<and> hd re1 = star then matchstar r (tl re1) text
          else if r = dollar \<and> re1 = [] then text = []
          else case text of
                 [] \<Rightarrow> False
               | t # text1 \<Rightarrow> if r = dot \<or> r = t then matchhere re1 text1 else False)"
| "matchstar c re text =
     (if matchhere re text then True
      else case text of
             [] \<Rightarrow> False
           | t # text1 \<Rightarrow> if t = c \<or> c = dot then matchstar c re text1 else False)"
  by pat_completeness auto
termination
  by (relation "measures [\<lambda>x. case x of Inl (re, text) \<Rightarrow> length re | Inr (c, re, text) \<Rightarrow> length re + 1,
      \<lambda>x. case x of Inl (re, text) \<Rightarrow> length text | Inr (c, re, text) \<Rightarrow> length text]") (auto simp: neq_Nil_conv)

declare matchhere.simps [simp del] matchstar.simps [simp del]

text \<open>The loop of \<open>match\<close> over the suffixes of the text, the empty one included.\<close>

fun match_loop :: "byte list \<Rightarrow> byte list \<Rightarrow> bool" where
  "match_loop re text =
     (if matchhere re text then True
      else case text of [] \<Rightarrow> False | t # text1 \<Rightarrow> match_loop re text1)"

declare match_loop.simps [simp del]

definition match :: "byte list \<Rightarrow> byte list \<Rightarrow> bool" where
  "match re text =
     (case re of
        [] \<Rightarrow> match_loop re text
      | r # re1 \<Rightarrow> if r = caret then matchhere re1 text else match_loop re text)"

text \<open>What a C string that starts at \<open>p\<close> shows of the bytes there.\<close>

definition visible :: "byte list \<Rightarrow> byte list" where
  "visible p = takeWhile (\<lambda>c. c \<noteq> 0) p"

text \<open>The inner loop of \<open>grep\<close>: \<open>strchr\<close> finds the end of the line if it comes before a NUL, and a
  line that matches is written with its newline. The result is the output and what is left from \<open>p\<close> on.\<close>

function grep_lines :: "byte list \<Rightarrow> byte list \<Rightarrow> byte list \<times> byte list" where
  "grep_lines pattern p =
     (if nl \<in> set (visible p)
      then let line = takeWhile (\<lambda>c. c \<noteq> nl) p; rest = drop (length line + 1) p;
               (out, left) = grep_lines pattern rest
           in ((if match pattern line then line @ [nl] else []) @ out, left)
      else ([], p))"
  by pat_completeness auto
termination
  by (relation "measure (\<lambda>(pattern, p). length p)") (auto simp: visible_def dest!: set_takeWhileD dest: length_pos_if_in_set)

declare grep_lines.simps [simp del]

text \<open>\<open>read(fd, buf+m, sizeof(buf)-m-1)\<close> with \<open>input\<close> left, when the kernel would give \<open>k\<close> bytes.\<close>

definition read_chunk :: "nat \<Rightarrow> nat \<Rightarrow> byte list \<Rightarrow> byte list" where
  "read_chunk k n input = take (min n (max 1 k)) input"

text \<open>\<open>grep\<close>; \<open>buf\<close> has the \<open>m\<close> bytes kept from the rounds before.\<close>

function grep :: "byte list \<Rightarrow> nat list \<Rightarrow> byte list \<Rightarrow> byte list \<Rightarrow> byte list" where
  "grep pattern sizes buf input =
     (let n = read_chunk (case sizes of [] \<Rightarrow> 1 | k # _ \<Rightarrow> k) (1024 - length buf - 1) input
      in if n = [] then []
         else let (out, left) = grep_lines pattern (buf @ n)
              in out @ grep pattern (drop 1 sizes) left (drop (length n) input))"
  by pat_completeness auto
termination
  by (relation "measure (\<lambda>(pattern, sizes, buf, input). length input)") (auto simp: read_chunk_def)

declare grep.simps [simp del]

section \<open>The language of an expression\<close>

text \<open>An expression is a list of items, and may end in \<open>$\<close>.\<close>

datatype item = One byte | Many byte

fun items :: "byte list \<Rightarrow> item list" where
  "items [] = []"
| "items [r] = (if r = dollar then [] else [One r])"
| "items (r # r' # re) = (if r' = star then Many r # items re else One r # items (r' # re))"

fun anchored :: "byte list \<Rightarrow> bool" where
  "anchored [] = False"
| "anchored [r] = (r = dollar)"
| "anchored (r # r' # re) = (if r' = star then anchored re else anchored (r' # re))"

definition covers :: "byte \<Rightarrow> byte \<Rightarrow> bool" where
  "covers r t \<longleftrightarrow> r = dot \<or> r = t"

text \<open>The strings that a list of items stands for.\<close>

fun lang :: "item list \<Rightarrow> byte list set" where
  "lang [] = {[]}"
| "lang (One r # is) = {t # u | t u. covers r t \<and> u \<in> lang is}"
| "lang (Many r # is) = {v @ u | v u. (\<forall>t \<in> set v. covers r t) \<and> u \<in> lang is}"

definition here :: "byte list \<Rightarrow> byte list \<Rightarrow> bool" where
  "here re text \<longleftrightarrow> (\<exists>u v. text = u @ v \<and> u \<in> lang (items re) \<and> (anchored re \<longrightarrow> v = []))"

lemma here_Nil: "here [] text"
  by (simp add: here_def)

lemma here_dollar: "here [dollar] text \<longleftrightarrow> text = []"
  by (simp add: here_def)

lemma here_one:
  assumes "\<not> (re1 \<noteq> [] \<and> hd re1 = star)" and "\<not> (r = dollar \<and> re1 = [])"
  shows "here (r # re1) text \<longleftrightarrow> (\<exists>t text1. text = t # text1 \<and> covers r t \<and> here re1 text1)"
proof -
  have "items (r # re1) = One r # items re1" "anchored (r # re1) = anchored re1"
    using assms by (cases re1; auto)+
  then have "here (r # re1) text \<longleftrightarrow>
      (\<exists>u v. text = u @ v \<and> (\<exists>t w. u = t # w \<and> covers r t \<and> w \<in> lang (items re1)) \<and> (anchored re1 \<longrightarrow> v = []))"
    by (simp add: here_def)
  also have "\<dots> \<longleftrightarrow> (\<exists>t w v. text = t # (w @ v) \<and> covers r t \<and> w \<in> lang (items re1) \<and> (anchored re1 \<longrightarrow> v = []))"
    by (metis append_Cons)
  finally show ?thesis by (auto simp: here_def)
qed

lemma here_many:
  "here (r # star # re) text \<longleftrightarrow> (\<exists>x y. text = x @ y \<and> (\<forall>t \<in> set x. covers r t) \<and> here re y)"
proof
  assume "here (r # star # re) text"
  then obtain u v where u: "text = u @ v" "u \<in> lang (items (r # star # re))" "anchored (r # star # re) \<longrightarrow> v = []"
    unfolding here_def by blast
  then obtain x w where "u = x @ w" "\<forall>t \<in> set x. covers r t" "w \<in> lang (items re)" by auto
  with u show "\<exists>x y. text = x @ y \<and> (\<forall>t \<in> set x. covers r t) \<and> here re y"
    unfolding here_def by (intro exI [of _ x] exI [of _ "w @ v"]) auto
next
  assume "\<exists>x y. text = x @ y \<and> (\<forall>t \<in> set x. covers r t) \<and> here re y"
  then obtain x w v where "text = x @ w @ v" "\<forall>t \<in> set x. covers r t" "w \<in> lang (items re)" "anchored re \<longrightarrow> v = []"
    unfolding here_def by blast
  then show "here (r # star # re) text"
    unfolding here_def by (intro exI [of _ "x @ w"] exI [of _ v]) auto
qed

lemma many_step:
  "(\<exists>v w. text = v @ w \<and> (\<forall>t \<in> set v. covers r t) \<and> P w) \<longleftrightarrow>
   P text \<or> (\<exists>t text1. text = t # text1 \<and> covers r t \<and> (\<exists>v w. text1 = v @ w \<and> (\<forall>t \<in> set v. covers r t) \<and> P w))"
proof
  assume "\<exists>v w. text = v @ w \<and> (\<forall>t \<in> set v. covers r t) \<and> P w"
  then obtain v w where "text = v @ w" "\<forall>t \<in> set v. covers r t" "P w" by blast
  then show "P text \<or> (\<exists>t text1. text = t # text1 \<and> covers r t \<and> (\<exists>v w. text1 = v @ w \<and> (\<forall>t \<in> set v. covers r t) \<and> P w))"
    by (cases v) auto
next
  assume "P text \<or> (\<exists>t text1. text = t # text1 \<and> covers r t \<and> (\<exists>v w. text1 = v @ w \<and> (\<forall>t \<in> set v. covers r t) \<and> P w))"
  then show "\<exists>v w. text = v @ w \<and> (\<forall>t \<in> set v. covers r t) \<and> P w"
  proof (elim disjE exE conjE)
    assume "P text"
    then show ?thesis by (intro exI [of _ "[]"] exI [of _ "text"]) simp
  next
    fix t text1 v w assume "text = t # text1" "covers r t" "text1 = v @ w" "\<forall>t \<in> set v. covers r t" "P w"
    then show ?thesis by (intro exI [of _ "t # v"] exI [of _ w]) auto
  qed
qed

lemma matchhere_here:
  "matchhere re text \<longleftrightarrow> here re text"
  "matchstar c re text \<longleftrightarrow> (\<exists>v w. text = v @ w \<and> (\<forall>t \<in> set v. covers c t) \<and> here re w)"
proof (induction re "text" and c re "text" rule: matchhere_matchstar.induct)
  case (1 re "text")
  show ?case
  proof (cases re)
    case Nil
    then show ?thesis by (simp add: matchhere.simps here_Nil)
  next
    case (Cons r re1)
    consider (many) "re1 \<noteq> [] \<and> hd re1 = star" | (dollar) "\<not> (re1 \<noteq> [] \<and> hd re1 = star)" "r = dollar \<and> re1 = []"
      | (one) "\<not> (re1 \<noteq> [] \<and> hd re1 = star)" "\<not> (r = dollar \<and> re1 = [])" by blast
    then show ?thesis
    proof cases
      case many
      then obtain re2 where re2: "re1 = star # re2" by (cases re1) auto
      then show ?thesis using many Cons 1(1) [OF Cons] by (subst matchhere.simps) (simp add: here_many)
    next
      case dollar
      then show ?thesis using Cons by (subst matchhere.simps) (auto simp: here_dollar)
    next
      case one
      then show ?thesis
        using Cons 1(2) [OF Cons] here_one [OF one] by (subst matchhere.simps) (auto simp: covers_def split: list.split)
    qed
  qed
next
  case (2 c re "text")
  have "(\<exists>v w. text = v @ w \<and> (\<forall>t \<in> set v. covers c t) \<and> here re w) \<longleftrightarrow>
      here re text \<or> (\<exists>t text1. text = t # text1 \<and> covers c t \<and> matchstar c re text1 \<and> \<not> matchhere re text)"
    (is "?L \<longleftrightarrow> ?R")
  proof (cases "matchhere re text")
    case True
    then have "here re text" using 2(1) by simp
    then show ?thesis using many_step [of "text" c "here re"] by blast
  next
    case False
    then have "matchstar c re text1 \<longleftrightarrow> (\<exists>v w. text1 = v @ w \<and> (\<forall>t \<in> set v. covers c t) \<and> here re w)"
      if "text = t # text1" "covers c t" for t text1
    proof -
      have "t = c \<or> c = dot" using that(2) by (auto simp: covers_def)
      then show ?thesis by (rule 2(2) [OF False that(1)])
    qed
    then have "(\<exists>t text1. text = t # text1 \<and> covers c t \<and> (\<exists>v w. text1 = v @ w \<and> (\<forall>t \<in> set v. covers c t) \<and> here re w)) \<longleftrightarrow>
        (\<exists>t text1. text = t # text1 \<and> covers c t \<and> matchstar c re text1 \<and> \<not> matchhere re text)"
      using False by (cases "text") auto
    then show ?thesis by (subst many_step) (rule disj_cong [OF refl])
  qed
  then show ?case
    using 2(1) by (subst matchstar.simps) (auto simp: covers_def split: list.split)
qed

lemma match_loop_here: "match_loop re text \<longleftrightarrow> (\<exists>pre w. text = pre @ w \<and> here re w)"
proof (induction re "text" rule: match_loop.induct)
  case (1 re "text")
  have "match_loop re text \<longleftrightarrow> here re text \<or> (\<exists>t text1. text = t # text1 \<and> (\<exists>pre w. text1 = pre @ w \<and> here re w))"
    using 1 by (subst match_loop.simps) (auto simp: matchhere_here split: list.split)
  also have "\<dots> \<longleftrightarrow> (\<exists>pre w. text = pre @ w \<and> here re w)"
    using many_step [of "text" dot "here re"] by (simp add: covers_def)
  finally show ?case .
qed

section \<open>The lines of the input\<close>

text \<open>The complete lines, without their newlines, and what follows the last newline.\<close>

function lines :: "byte list \<Rightarrow> byte list list" where
  "lines p = (if nl \<in> set p
      then takeWhile (\<lambda>c. c \<noteq> nl) p # lines (drop (length (takeWhile (\<lambda>c. c \<noteq> nl) p) + 1) p) else [])"
  by pat_completeness auto
termination
  by (relation "measure length") (auto dest: length_pos_if_in_set)

declare lines.simps [simp del]

definition last_part :: "byte list \<Rightarrow> byte list" where
  "last_part p = rev (takeWhile (\<lambda>c. c \<noteq> nl) (rev p))"

definition selected :: "byte list \<Rightarrow> byte list \<Rightarrow> byte list" where
  "selected pattern p = concat (map (\<lambda>l. l @ [nl]) (filter (match pattern) (lines p)))"

lemma first_line:
  assumes "nl \<notin> set l"
  shows "takeWhile (\<lambda>c. c \<noteq> nl) (l @ nl # q) = l"
  using assms by (induction l) auto

lemma lines_simps:
  "nl \<notin> set p \<Longrightarrow> lines p = []" "nl \<notin> set l \<Longrightarrow> lines (l @ nl # q) = l # lines q"
  "nl \<notin> set p \<Longrightarrow> last_part p = p" "last_part (l @ nl # q) = last_part q"
proof -
  show "nl \<notin> set p \<Longrightarrow> lines p = []" by (subst lines.simps) simp
  show "nl \<notin> set l \<Longrightarrow> lines (l @ nl # q) = l # lines q" by (subst lines.simps) (simp add: first_line)
  show "last_part p = p" if "nl \<notin> set p"
  proof -
    have "takeWhile (\<lambda>c. c \<noteq> nl) (rev p) = rev p" unfolding takeWhile_eq_all_conv using that by auto
    from this show ?thesis unfolding last_part_def by (elim ssubst) simp
  qed
  show "last_part (l @ nl # q) = last_part q" by (simp add: last_part_def takeWhile_tail)
qed

text \<open>A list is without newline or a line and the rest.\<close>

lemma line_cases:
  obtains "nl \<notin> set p" | l q where "p = l @ nl # q" and "nl \<notin> set l"
  using split_list_first [of nl p] by blast

lemma line_induct [case_names plain line]:
  assumes "\<And>p. nl \<notin> set p \<Longrightarrow> P p" and "\<And>l q. nl \<notin> set l \<Longrightarrow> P q \<Longrightarrow> P (l @ nl # q)"
  shows "P p"
proof (induction "length p" arbitrary: p rule: less_induct)
  case less
  show ?case using less assms by (cases p rule: line_cases) auto
qed

lemma visible_simps:
  "0 \<notin> set p \<Longrightarrow> visible p = p" "0 \<notin> set p \<Longrightarrow> visible (p @ q) = p @ visible q" "0 \<in> set p \<Longrightarrow> visible (p @ q) = visible p"
  "0 \<notin> set (visible p)"
proof -
  show plain: "visible (p @ q) = p @ visible q" if "0 \<notin> set p" for p q
    using that unfolding visible_def by (induction p) auto
  show "visible p = p" if "0 \<notin> set p" using plain [OF that, of "[]"] by (simp add: visible_def)
  show "visible (p @ q) = visible p" if "0 \<in> set p" using that unfolding visible_def by (induction p) auto
  show "0 \<notin> set (visible p)" unfolding visible_def by (auto dest: set_takeWhileD)
qed

lemma visible_rest: "visible p @ dropWhile (\<lambda>c. c \<noteq> 0) p = p"
  by (simp add: visible_def)

lemma grep_lines_simps:
  "nl \<notin> set (visible p) \<Longrightarrow> grep_lines pattern p = ([], p)"
  "nl \<notin> set l \<Longrightarrow> 0 \<notin> set l \<Longrightarrow> grep_lines pattern (l @ nl # q) =
     (let (out, left) = grep_lines pattern q in ((if match pattern l then l @ [nl] else []) @ out, left))"
proof -
  show "nl \<notin> set (visible p) \<Longrightarrow> grep_lines pattern p = ([], p)" by (subst grep_lines.simps) simp
  assume l: "nl \<notin> set l" "0 \<notin> set l"
  moreover have "visible (nl # q) = nl # visible q" by (simp add: visible_def)
  ultimately have "nl \<in> set (visible (l @ nl # q))" by (simp add: visible_simps(2))
  then show "grep_lines pattern (l @ nl # q) =
     (let (out, left) = grep_lines pattern q in ((if match pattern l then l @ [nl] else []) @ out, left))"
    using l(1) by (subst grep_lines.simps) (simp add: first_line)
qed

text \<open>The inner loop on bytes \<open>p\<close> without NUL, followed by nothing or by a NUL.\<close>

lemma grep_lines_eq:
  "0 \<notin> set p \<Longrightarrow> q = [] \<or> hd q = 0 \<Longrightarrow> grep_lines pattern (p @ q) = (selected pattern p, last_part p @ q)"
proof (induction p rule: line_induct)
  case (plain p)
  moreover from plain(3) have "visible q = []" by (cases q) (auto simp: visible_def)
  ultimately have "visible (p @ q) = p" by (simp add: visible_simps(2))
  with plain show ?case by (simp add: grep_lines_simps(1) selected_def lines_simps)
next
  case (line l r)
  then show ?case by (simp add: grep_lines_simps(2) selected_def lines_simps)
qed

lemma last_part_plain: "nl \<notin> set (last_part p)"
  by (induction p rule: line_induct) (simp_all add: lines_simps)

lemma selected_append: "selected pattern (p @ q) = selected pattern p @ selected pattern (last_part p @ q)"
  by (induction p rule: line_induct) (simp_all add: selected_def lines_simps)

text \<open>No line is longer than the buffer.\<close>

definition fits_buf :: "byte list \<Rightarrow> bool" where
  "fits_buf p \<longleftrightarrow> (\<forall>l \<in> set (lines p). length l < 1023) \<and> length (last_part p) < 1023"

lemma fits_line: "nl \<notin> set l \<Longrightarrow> fits_buf (l @ nl # q) \<longleftrightarrow> length l < 1023 \<and> fits_buf q"
  by (simp add: fits_buf_def lines_simps(2,4))

lemma fits_append: "fits_buf (p @ q) \<Longrightarrow> fits_buf (last_part p @ q)"
proof (induction p rule: line_induct)
  case (plain p)
  then show ?case by (simp add: lines_simps(3))
next
  case (line l r)
  then show ?case by (simp add: lines_simps(4) fits_line)
qed

lemma fits_buf_head: "fits_buf (p @ q) \<Longrightarrow> nl \<notin> set p \<Longrightarrow> length p < 1023"
proof (cases q rule: line_cases)
  case 1
  assume "fits_buf (p @ q)" "nl \<notin> set p"
  with 1 show ?thesis by (simp add: fits_buf_def lines_simps)
next
  case (2 l r)
  assume "fits_buf (p @ q)" "nl \<notin> set p"
  with 2 have "length (p @ l) < 1023" using lines_simps(2) [of "p @ l" r] by (simp add: fits_buf_def)
  then show ?thesis by simp
qed

lemma chunk_eq: "input = read_chunk k n input @ drop (length (read_chunk k n input)) input"
proof -
  have "take j input @ drop (length (take j input)) input = input" for j
    by (cases "j \<le> length input") (simp_all add: min_def)
  then show ?thesis by (simp only: read_chunk_def)
qed

text \<open>A NUL in the buffer hides what follows it for good.\<close>

lemma grep_behind_nul:
  assumes "0 \<in> set buf" and "nl \<notin> set (visible buf)"
  shows "grep pattern sizes buf input = []"
  using assms
proof (induction pattern sizes buf input rule: grep.induct)
  case (1 pattern sizes buf input)
  let ?n = "read_chunk (case sizes of [] \<Rightarrow> 1 | k # _ \<Rightarrow> k) (1024 - length buf - 1) input"
  have v: "visible (buf @ ?n) = visible buf" using 1(2) by (rule visible_simps(3))
  then have eq: "grep_lines pattern (buf @ ?n) = ([], buf @ ?n)" using 1(3) by (simp add: grep_lines_simps(1))
  then have "?n \<noteq> [] \<Longrightarrow> grep pattern (drop 1 sizes) (buf @ ?n) (drop (length ?n) input) = []"
    using 1(1) [OF refl _ eq [symmetric] refl] 1(2,3) v by auto
  then show ?case using eq by (subst grep.simps) (simp add: Let_def)
qed

lemma grep_selected:
  assumes "nl \<notin> set buf" and "0 \<notin> set buf" and "fits_buf (visible (buf @ input))"
  shows "grep pattern sizes buf input = selected pattern (visible (buf @ input))"
  using assms
proof (induction pattern sizes buf input rule: grep.induct)
  case (1 pattern sizes buf input)
  define n where "n = read_chunk (case sizes of [] \<Rightarrow> 1 | k # _ \<Rightarrow> k) (1024 - length buf - 1) input"
  define rest where "rest = drop (length n) input"
  define z where "z = dropWhile (\<lambda>c. c \<noteq> 0) n"
  define p where "p = buf @ visible n"
  have vis: "visible (buf @ q) = buf @ visible q" for q using 1(3) by (rule visible_simps(2))
  have room: "length buf < 1023" using fits_buf_head 1(2,4) unfolding vis by blast
  have in_eq: "input = n @ rest" unfolding n_def rest_def by (rule chunk_eq)
  have bn: "buf @ n = p @ z" by (simp add: p_def z_def visible_rest)
  have z: "z = [] \<or> hd z = 0" using hd_dropWhile [of "\<lambda>c. c \<noteq> 0" n] unfolding z_def by blast
  have p: "0 \<notin> set p" using 1(3) visible_simps(4) [of n] by (simp add: p_def)
  then have lp: "0 \<notin> set (last_part p)" by (auto simp: last_part_def dest!: set_takeWhileD)
  have all: "visible (buf @ input) = p @ visible (z @ rest)"
    using visible_simps(2) [OF p, of "z @ rest"] unfolding in_eq append.assoc [symmetric] bn .
  have eq: "grep_lines pattern (buf @ n) = (selected pattern p, last_part p @ z)"
    unfolding bn by (rule grep_lines_eq [OF p z])
  have step: "grep pattern sizes buf input =
      (if n = [] then [] else selected pattern p @ grep pattern (drop 1 sizes) (last_part p @ z) rest)"
    unfolding grep.simps [of pattern sizes buf input] n_def [symmetric] Let_def eq by (simp add: rest_def)
  show ?case
  proof (cases "n = []")
    case True
    then have "input = []" using room by (auto simp: read_chunk_def n_def)
    then show ?thesis using 1(2,3) True step by (simp add: selected_def lines_simps visible_simps)
  next
    case False
    have "grep pattern (drop 1 sizes) (last_part p @ z) rest = selected pattern (last_part p @ visible (z @ rest))"
    proof (cases "z = []")
      case True
      have "fits_buf (last_part p @ visible rest)" using fits_append [of p "visible rest"] 1(4) all True by simp
      then show ?thesis
        using 1(1) [OF n_def False eq [symmetric]] True last_part_plain lp by (simp add: visible_simps(2) rest_def)
    next
      case nz: False
      then have "0 \<in> set z" "visible z = []" using z by (cases z; auto simp: visible_def)+
      then show ?thesis
        using grep_behind_nul [of "last_part p @ z"] last_part_plain lp
        by (simp add: visible_simps(2,3) selected_def lines_simps)
    qed
    then show ?thesis using False step all selected_append [of pattern p "visible (z @ rest)"] by simp
  qed
qed

section \<open>Properties\<close>

definition body :: "byte list \<Rightarrow> byte list" where
  "body re = (if re \<noteq> [] \<and> hd re = caret then tl re else re)"

text \<open>Property C18. \<open>match(re, text)\<close> holds exactly when the text has a substring in the language of
  the expression, at the start of the text if the expression begins with \<open>^\<close> and at its end
  if it ends with \<open>$\<close>. (Both recursive functions terminate: they are total.)\<close>

theorem match_correct:
  "match re text \<longleftrightarrow>
     (\<exists>pre u post. text = pre @ u @ post \<and> u \<in> lang (items (body re)) \<and>
        (re \<noteq> [] \<and> hd re = caret \<longrightarrow> pre = []) \<and> (anchored (body re) \<longrightarrow> post = []))"
proof (cases "re \<noteq> [] \<and> hd re = caret")
  case True
  then have "match re text \<longleftrightarrow> here (tl re) text"
    by (cases re) (auto simp: match_def matchhere_here)
  then show ?thesis using True by (simp add: body_def here_def)
next
  case False
  then have "match re text \<longleftrightarrow> (\<exists>pre w. text = pre @ w \<and> here re w)"
    by (cases re) (auto simp: match_def match_loop_here)
  then show ?thesis unfolding here_def body_def using False by auto
qed

theorem match_correct_witness:
  "match [97, 46, 42, 99, 36] [120, 97, 98, 98, 99] \<longleftrightarrow>
     (\<exists>pre u post. [120, 97, 98, 98, 99] = pre @ u @ post \<and> u \<in> lang (items (body [97, 46, 42, 99, 36])) \<and>
        ([97, 46, 42, 99, 36 :: byte] \<noteq> [] \<and> hd [97, 46, 42, 99, 36] = caret \<longrightarrow> pre = []) \<and>
        (anchored (body [97, 46, 42, 99, 36]) \<longrightarrow> post = []))"
  by (rule match_correct)

text \<open>Property C36. However \<open>read\<close> cuts the input into pieces, \<open>grep\<close> writes, in order, the complete
  lines that match among those before the first NUL byte of the input, when none of them has more
  than 1022 bytes. A NUL ends the search, and what follows the last newline is not searched.\<close>

theorem grep_correct:
  assumes "fits_buf (visible input)"
  shows "grep pattern sizes [] input = concat (map (\<lambda>l. l @ [nl]) (filter (match pattern) (lines (visible input))))"
  using grep_selected [of "[]" input pattern sizes] assms by (simp add: selected_def)

theorem grep_correct_witness:
  "fits_buf (visible [97, 98, nl, 99, nl, 98, 0, 98, nl]) \<and>
   grep [98] [2, 1, 5] [] [97, 98, nl, 99, nl, 98, 0, 98, nl] = [97, 98, nl]"
proof -
  let ?v = "visible [97, 98, nl, 99, nl, 98, 0, 98, nl]"
  have l: "lines ?v = [[97, 98], [99]]" and p: "last_part ?v = [98]" by code_simp+
  then have "fits_buf ?v" by (simp add: fits_buf_def)
  moreover have "filter (match [98]) [[97, 98], [99]] = [[97, 98]]" by code_simp
  ultimately show ?thesis using grep_correct [of "[97, 98, nl, 99, nl, 98, 0, 98, nl]" "[98]" "[2, 1, 5]"] l by simp
qed

text \<open>Property C37. A line of 1023 bytes or more ends the search without a message: the buffer is
  full, \<open>read\<close> is asked for 0 bytes and returns 0, and what follows is not searched.\<close>

theorem grep_stops_at_long_line:
  assumes "length buf \<le> 1023" and "nl \<notin> set (buf @ take (1023 - length buf) input)" and "length buf + length input \<ge> 1023"
  shows "grep pattern sizes buf input = []"
  using assms
proof (induction pattern sizes buf input rule: grep.induct)
  case (1 pattern sizes buf input)
  let ?n = "read_chunk (case sizes of [] \<Rightarrow> 1 | k # _ \<Rightarrow> k) (1024 - length buf - 1) input"
  show ?case
  proof (cases "?n = []")
    case True
    then show ?thesis by (subst grep.simps) simp
  next
    case False
    obtain j where j: "?n = take j input" "j \<le> 1023 - length buf" by (auto simp: read_chunk_def)
    have jl: "j \<le> length input" using j(2) 1(4) by simp
    have pre: "buf @ take (1023 - length buf) input = (buf @ ?n) @ take (1023 - length (buf @ ?n)) (drop (length ?n) input)"
    proof -
      have "length ?n = j" unfolding j(1) using jl by simp
      moreover have "take (1023 - length buf) input = take j input @ take (1023 - length buf - j) (drop j input)"
        using take_add [of j "1023 - length buf - j" input] le_add_diff_inverse [OF j(2)] by (simp only:)
      ultimately show ?thesis unfolding j(1) by simp
    qed
    then have plain: "nl \<notin> set (buf @ ?n)" and rest: "nl \<notin> set ((buf @ ?n) @ take (1023 - length (buf @ ?n)) (drop (length ?n) input))"
      using 1(3) by auto
    have eq: "grep_lines pattern (buf @ ?n) = ([], buf @ ?n)"
      by (rule grep_lines_simps(1)) (use plain in \<open>auto simp: visible_def dest: set_takeWhileD\<close>)
    have "grep pattern (drop 1 sizes) (buf @ ?n) (drop (length ?n) input) = []"
      by (rule 1(1) [OF refl False _ _ _ rest]) (use eq j jl 1(2,4) in auto)
    then show ?thesis using False eq by (subst grep.simps) simp
  qed
qed

theorem grep_stops_at_long_line_witness:
  "grep [98] [] [] (replicate 1023 97 @ [nl, 98, nl]) = [] \<and> lines [nl, 98, nl] = [[], [98]]"
proof -
  have "lines [nl, 98, nl] = [[], [98]]" by code_simp
  then show ?thesis using grep_stops_at_long_line [of "[]" "replicate 1023 97 @ [nl, 98, nl]" "[98]" "[]"] by simp
qed

end
