(* ===== verification/Shell.thy ===== *)
theory Shell
  imports Prelude
begin

text \<open>
  The parser of the shell, \<open>user/sh.c\<close>. The line is a list of bytes without its NUL, and a
  pointer into it (\<open>s\<close>, \<open>q\<close>, \<open>eq\<close>) is an offset; \<open>es\<close> is its length, where \<open>*s\<close> is 0. A
  command is the tree the constructors build, with the strings as pairs of offsets. \<open>panic\<close>
  ends the child that parses. The arguments of an \<open>execcmd\<close> are collected while redirections
  are wrapped around it, since the code keeps a pointer to the inner node.

  The parser functions are mutually recursive and call loops; all take fuel, and the value
  \<open>Inl Diverges\<close> when it runs out. \<open>parsecmd\<close> gives them fuel that always suffices.
\<close>

section \<open>Definitions\<close>

type_synonym str = "nat \<times> nat"

datatype cmd =
    EXEC "str list"
  | REDIR cmd str int nat
  | PIPE cmd cmd
  | LIST cmd cmd
  | BACK cmd

abbreviation (input) MAXARGS :: nat where "MAXARGS \<equiv> 10"
abbreviation (input) O_RDONLY' :: int where "O_RDONLY' \<equiv> 0"
abbreviation (input) O_WRITE :: int where "O_WRITE \<equiv> 0x601"
abbreviation (input) O_APPEND :: int where "O_APPEND \<equiv> 0x201"

definition whitespace :: "byte list" where
  "whitespace = [32, 9, 13, 10, 11]"

definition symbols :: "byte list" where
  "symbols = [60, 124, 62, 38, 59, 40, 41]"

text \<open>\<open>*s\<close>\<close>

definition ch_at :: "byte list \<Rightarrow> nat \<Rightarrow> byte" where
  "ch_at buf s = (if s < length buf then buf ! s else 0)"

text \<open>\<open>while(s < es && strchr(whitespace, *s)) s++;\<close> and the same for the bytes of a word.\<close>

definition skip :: "byte list \<Rightarrow> nat \<Rightarrow> nat" where
  "skip buf s = s + length (takeWhile (\<lambda>c. c \<in> set whitespace) (drop s buf))"

definition word_end :: "byte list \<Rightarrow> nat \<Rightarrow> nat" where
  "word_end buf s = s + length (takeWhile (\<lambda>c. c \<notin> set whitespace \<and> c \<notin> set symbols) (drop s buf))"

text \<open>The token, its start and end, and the new \<open>*ps\<close>. The token is 0 at the end, \<open>'a'\<close> (97) for
  a word, \<open>'+'\<close> (43) for \<open>>>\<close>, and else the symbol.\<close>

definition gettoken :: "byte list \<Rightarrow> nat \<Rightarrow> byte \<times> str \<times> nat" where
  "gettoken buf s0 =
     (let s = skip buf s0; c = ch_at buf s;
          (ret, e) = (if c = 0 then (0, s)
                      else if c \<in> {124, 40, 41, 59, 38, 60} then (c, s + 1)
                      else if c = 62 then if ch_at buf (s + 1) = 62 then (43, s + 2) else (c, s + 1)
                      else (97, word_end buf s))
      in (ret, (s, e), skip buf e))"

definition peek :: "byte list \<Rightarrow> nat \<Rightarrow> byte list \<Rightarrow> bool \<times> nat" where
  "peek buf s0 toks = (let s = skip buf s0; c = ch_at buf s in (c \<noteq> 0 \<and> c \<in> set toks, s))"

text \<open>\<open>parseredirs\<close>: the redirections from \<open>s\<close> on, in order, and the new \<open>*ps\<close>.\<close>

type_synonym redir = "str \<times> int \<times> nat"

fun parseredirs :: "nat \<Rightarrow> byte list \<Rightarrow> nat \<Rightarrow> (redir list \<times> nat) res" where
  "parseredirs 0 buf s = Inl Diverges"
| "parseredirs (Suc f) buf s =
     (case peek buf s [60, 62] of
        (False, s1) \<Rightarrow> Inr ([], s1)
      | (True, s1) \<Rightarrow>
          (case gettoken buf s1 of
             (tok, _, s2) \<Rightarrow>
               (case gettoken buf s2 of
                  (tok2, q, s3) \<Rightarrow>
                    if tok2 \<noteq> 97 then Inl (Panic ''missing file for redirection'')
                    else bindR (parseredirs f buf s3) (\<lambda>(rs, s4).
                         Inr ((if tok = 60 then [(q, O_RDONLY', 0)]
                               else if tok = 62 then [(q, O_WRITE, 1)]
                               else if tok = 43 then [(q, O_APPEND, 1)] else []) @ rs, s4)))))"

definition redircmds :: "redir list \<Rightarrow> cmd \<Rightarrow> cmd" where
  "redircmds rs c = fold (\<lambda>(q, mode, fd) c. REDIR c q mode fd) rs c"

text \<open>The loop of \<open>parseexec\<close>, with the arguments and redirections so far.\<close>

fun exec_loop :: "nat \<Rightarrow> byte list \<Rightarrow> str list \<Rightarrow> redir list \<Rightarrow> nat \<Rightarrow> (cmd \<times> nat) res" where
  "exec_loop 0 buf args rs s = Inl Diverges"
| "exec_loop (Suc f) buf args rs s =
     (case peek buf s [124, 41, 38, 59] of
        (True, s1) \<Rightarrow> Inr (redircmds rs (EXEC args), s1)
      | (False, s1) \<Rightarrow>
          (case gettoken buf s1 of
             (tok, q, s2) \<Rightarrow>
               if tok = 0 then Inr (redircmds rs (EXEC args), s2)
               else if tok \<noteq> 97 then Inl (Panic ''syntax'')
               else if length args + 1 \<ge> MAXARGS then Inl (Panic ''too many args'')
               else bindR (parseredirs f buf s2) (\<lambda>(rs1, s3). exec_loop f buf (args @ [q]) (rs @ rs1) s3)))"

text \<open>\<open>while(peek(ps, es, "&"))\<close> of \<open>parseline\<close>.\<close>

fun back_loop :: "nat \<Rightarrow> byte list \<Rightarrow> cmd \<Rightarrow> nat \<Rightarrow> (cmd \<times> nat) res" where
  "back_loop 0 buf c s = Inl Diverges"
| "back_loop (Suc f) buf c s =
     (case peek buf s [38] of
        (False, s1) \<Rightarrow> Inr (c, s1)
      | (True, s1) \<Rightarrow> (case gettoken buf s1 of (_, _, s2) \<Rightarrow> back_loop f buf (BACK c) s2))"

fun parseline :: "nat \<Rightarrow> byte list \<Rightarrow> nat \<Rightarrow> (cmd \<times> nat) res"
and parsepipe :: "nat \<Rightarrow> byte list \<Rightarrow> nat \<Rightarrow> (cmd \<times> nat) res"
and parseexec :: "nat \<Rightarrow> byte list \<Rightarrow> nat \<Rightarrow> (cmd \<times> nat) res"
and parseblock :: "nat \<Rightarrow> byte list \<Rightarrow> nat \<Rightarrow> (cmd \<times> nat) res" where
  "parseline 0 buf s = Inl Diverges"
| "parseline (Suc f) buf s =
     bindR (parsepipe f buf s) (\<lambda>(c, s1).
     bindR (back_loop f buf c s1) (\<lambda>(c, s2).
     case peek buf s2 [59] of
       (False, s3) \<Rightarrow> Inr (c, s3)
     | (True, s3) \<Rightarrow>
         (case gettoken buf s3 of (_, _, s4) \<Rightarrow> bindR (parseline f buf s4) (\<lambda>(r, s5). Inr (LIST c r, s5)))))"
| "parsepipe 0 buf s = Inl Diverges"
| "parsepipe (Suc f) buf s =
     bindR (parseexec f buf s) (\<lambda>(c, s1).
     case peek buf s1 [124] of
       (False, s2) \<Rightarrow> Inr (c, s2)
     | (True, s2) \<Rightarrow>
         (case gettoken buf s2 of (_, _, s3) \<Rightarrow> bindR (parsepipe f buf s3) (\<lambda>(r, s4). Inr (PIPE c r, s4))))"
| "parseexec 0 buf s = Inl Diverges"
| "parseexec (Suc f) buf s =
     (case peek buf s [40] of
        (True, s1) \<Rightarrow> parseblock f buf s1
      | (False, s1) \<Rightarrow> bindR (parseredirs f buf s1) (\<lambda>(rs, s2). exec_loop f buf [] rs s2))"
| "parseblock 0 buf s = Inl Diverges"
| "parseblock (Suc f) buf s =
     (case peek buf s [40] of
        (False, s1) \<Rightarrow> Inl (Panic ''parseblock'')
      | (True, s1) \<Rightarrow>
          (case gettoken buf s1 of
             (_, _, s2) \<Rightarrow>
               bindR (parseline f buf s2) (\<lambda>(c, s3).
               case peek buf s3 [41] of
                 (False, s4) \<Rightarrow> Inl (Panic ''syntax - missing )'')
               | (True, s4) \<Rightarrow>
                   (case gettoken buf s4 of
                      (_, _, s5) \<Rightarrow> bindR (parseredirs f buf s5) (\<lambda>(rs, s6). Inr (redircmds rs c, s6))))))"

definition parse_fuel :: "byte list \<Rightarrow> nat" where
  "parse_fuel buf = 4 * length buf + 4"

text \<open>\<open>parsecmd\<close> up to \<open>nulterminate\<close>.\<close>

definition parsecmd :: "byte list \<Rightarrow> cmd res" where
  "parsecmd buf =
     bindR (parseline (parse_fuel buf) buf 0) (\<lambda>(c, s).
     case peek buf s [] of (_, s1) \<Rightarrow> if s1 \<noteq> length buf then Inl (Panic ''syntax'') else Inr c)"

text \<open>\<open>nulterminate\<close>, on the line with its NUL.\<close>

fun nulterminate :: "cmd \<Rightarrow> byte list \<Rightarrow> byte list" where
  "nulterminate (EXEC args) buf = fold (\<lambda>(q, e) b. b[e := 0]) args buf"
| "nulterminate (REDIR c (q, e) mode fd) buf = (nulterminate c buf)[e := 0]"
| "nulterminate (PIPE l r) buf = nulterminate r (nulterminate l buf)"
| "nulterminate (LIST l r) buf = nulterminate r (nulterminate l buf)"
| "nulterminate (BACK c) buf = nulterminate c buf"

declare parseline.simps [simp del] parsepipe.simps [simp del] parseexec.simps [simp del] parseblock.simps [simp del]

section \<open>Tokens\<close>

definition ws :: "byte \<Rightarrow> bool" where "ws c \<longleftrightarrow> c \<in> set whitespace"
definition sym :: "byte \<Rightarrow> bool" where "sym c \<longleftrightarrow> c \<in> set symbols"
definition wordc :: "byte \<Rightarrow> bool" where "wordc c \<longleftrightarrow> \<not> ws c \<and> \<not> sym c"

lemma sym_eq: "sym c \<longleftrightarrow> c \<in> {124, 40, 41, 59, 38, 60} \<or> c = 62"
  by (auto simp: sym_def symbols_def)

lemma ch_at_drop: "ch_at buf s = (case drop s buf of [] \<Rightarrow> 0 | c # _ \<Rightarrow> c)"
  by (auto simp: ch_at_def Cons_nth_drop_Suc [symmetric])

lemma drop_skip: "drop (skip buf s) buf = dropWhile ws (drop s buf)"
proof -
  have "drop (length (takeWhile P xs)) xs = dropWhile P xs" for P and xs :: "byte list"
    by (simp add: dropWhile_eq_drop)
  from this [of ws "drop s buf"] show ?thesis by (simp add: skip_def ws_def [abs_def] add.commute)
qed

lemma skip_le: "s \<le> skip buf s" "s \<le> length buf \<Longrightarrow> skip buf s \<le> length buf"
proof -
  show "s \<le> skip buf s" by (simp add: skip_def)
  show "skip buf s \<le> length buf" if "s \<le> length buf"
    using that length_takeWhile_le [of "\<lambda>c. c \<in> set whitespace" "drop s buf"] by (simp add: skip_def)
qed

lemma skip_end [simp]: "skip buf (length buf) = length buf"
  by (simp add: skip_def)

lemma skip_ch: "\<not> ws (ch_at buf (skip buf s))"
proof (cases "dropWhile ws (drop s buf)")
  case Nil
  show ?thesis unfolding ch_at_drop drop_skip Nil by (simp add: ws_def whitespace_def)
next
  case (Cons a as)
  show ?thesis using hd_dropWhile [of ws "drop s buf"] unfolding ch_at_drop drop_skip Cons by simp
qed

lemma skip_skip [simp]: "skip buf (skip buf s) = skip buf s"
proof -
  have "takeWhile ws (dropWhile ws xs) = []" for xs by (induction xs) auto
  from this [of "drop s buf"] show ?thesis
    by (subst (1) skip_def) (simp add: drop_skip ws_def [abs_def])
qed

lemma word_end_props:
  assumes "s \<le> length buf"
  shows "s \<le> word_end buf s" "word_end buf s \<le> length buf"
    "wordc (ch_at buf s) \<Longrightarrow> s < length buf \<Longrightarrow> s < word_end buf s"
    "\<And>i. s \<le> i \<Longrightarrow> i < word_end buf s \<Longrightarrow> wordc (buf ! i)"
    "word_end buf s < length buf \<Longrightarrow> \<not> wordc (buf ! word_end buf s)"
proof -
  let ?P = "\<lambda>c. c \<notin> set whitespace \<and> c \<notin> set symbols"
  have P: "?P = wordc" by (simp add: fun_eq_iff wordc_def ws_def sym_def)
  show "s \<le> word_end buf s" by (simp add: word_end_def)
  show "word_end buf s \<le> length buf" using assms length_takeWhile_le [of ?P "drop s buf"] by (simp add: word_end_def)
  show "s < word_end buf s" if "wordc (ch_at buf s)" "s < length buf"
    using that unfolding word_end_def P by (cases "drop s buf") (auto simp: ch_at_drop)
  show "wordc (buf ! i)" if "s \<le> i" "i < word_end buf s" for i
  proof -
    have l: "i - s < length (takeWhile wordc (drop s buf))" using that by (simp add: word_end_def P)
    have "wordc (takeWhile wordc (drop s buf) ! (i - s))" using set_takeWhileD [OF nth_mem [OF l]] ..
    then show ?thesis using l that(1) assms by (simp add: takeWhile_nth)
  qed
  show "\<not> wordc (buf ! word_end buf s)" if "word_end buf s < length buf"
    using that nth_length_takeWhile [of wordc "drop s buf"] assms by (simp add: word_end_def P)
qed

text \<open>A token that is not the end moves on; a word is a maximal run of word bytes.\<close>

lemma gettoken_props:
  assumes g: "gettoken buf s = (tok, (q, e), s')" and s: "s \<le> length buf" and nz: "0 \<notin> set buf"
  shows "s \<le> s'" "s' \<le> length buf" "tok \<noteq> 0 \<Longrightarrow> s < s'" "tok = 0 \<Longrightarrow> s' = length buf"
    and "tok = 97 \<Longrightarrow> q < e \<and> e \<le> length buf \<and> (\<forall>i. q \<le> i \<longrightarrow> i < e \<longrightarrow> wordc (buf ! i)) \<and> (e < length buf \<longrightarrow> \<not> wordc (buf ! e))"
proof -
  let ?s = "skip buf s"
  define c where "c = ch_at buf ?s"
  have sk: "s \<le> ?s" "?s \<le> length buf" using skip_le s by auto
  have c0: "c = 0 \<longleftrightarrow> ?s = length buf" using nz sk(2) by (auto simp: c_def ch_at_def) (metis le_neq_implies_less nth_mem)
  have nws: "\<not> ws c" using skip_ch by (simp add: c_def)
  have e: "(tok = 0 \<and> c = 0 \<and> e = ?s) \<or> (tok \<noteq> 97 \<and> tok \<noteq> 0 \<and> ?s < e \<and> e \<le> length buf) \<or> (tok = 97 \<and> \<not> sym c \<and> c \<noteq> 0 \<and> e = word_end buf ?s)"
    and q: "q = ?s" and s': "s' = skip buf e"
    using g c0 sk(2) unfolding gettoken_def c_def [symmetric] Let_def
    by (auto simp: sym_eq ch_at_def split: if_splits)
  have w: "wordc c" if "tok = 97" using that e nws by (auto simp: wordc_def)
  have el: "?s \<le> e" "e \<le> length buf" "tok \<noteq> 0 \<Longrightarrow> ?s < e"
    using e word_end_props(1,2,3) [OF sk(2)] w c0 sk(2) by (auto simp: c_def)
  show "s \<le> s'" "s' \<le> length buf" "tok \<noteq> 0 \<Longrightarrow> s < s'"
    using el sk skip_le [of e buf] by (auto simp: s')
  show "tok = 0 \<Longrightarrow> s' = length buf" using e c0 by (auto simp: s')
  show "q < e \<and> e \<le> length buf \<and> (\<forall>i. q \<le> i \<longrightarrow> i < e \<longrightarrow> wordc (buf ! i)) \<and> (e < length buf \<longrightarrow> \<not> wordc (buf ! e))" if "tok = 97"
    using that e el word_end_props(4,5) [OF sk(2)] by (auto simp: q)
qed

lemma peek_props:
  assumes "peek buf s toks = (b, s')" and "s \<le> length buf"
  shows "s \<le> s'" "s' \<le> length buf" "s' = skip buf s" "b \<longleftrightarrow> ch_at buf s' \<noteq> 0 \<and> ch_at buf s' \<in> set toks"
  using assms skip_le [of s buf] by (auto simp: peek_def Let_def)

section \<open>The parser returns\<close>

text \<open>A result that is not \<open>Diverges\<close> and leaves \<open>*ps\<close> between \<open>s\<close> and the end.\<close>

definition stops :: "byte list \<Rightarrow> nat \<Rightarrow> ('a \<times> nat) res \<Rightarrow> bool" where
  "stops buf s r \<longleftrightarrow> r \<noteq> Inl Diverges \<and> (\<forall>c s'. r = Inr (c, s') \<longrightarrow> s \<le> s' \<and> s' \<le> length buf)"

lemma stops_simps [simp]:
  "stops buf s (Inr (c, s')) \<longleftrightarrow> s \<le> s' \<and> s' \<le> length buf" "stops buf s (Inl (Panic m))"
  by (auto simp: stops_def)

lemma stops_bind:
  assumes "stops buf s r" and "\<And>c s'. r = Inr (c, s') \<Longrightarrow> s \<le> s' \<Longrightarrow> s' \<le> length buf \<Longrightarrow> stops buf s (k (c, s'))"
  shows "stops buf s (bindR r k)"
proof (cases r)
  case (Inl e)
  then show ?thesis using assms(1) by (simp add: stops_def)
next
  case (Inr x)
  then show ?thesis using assms by (cases x) (auto simp: stops_def)
qed

lemma stops_mono: "stops buf s' r \<Longrightarrow> s \<le> s' \<Longrightarrow> stops buf s r"
  by (auto simp: stops_def)

lemma redirs_stops:
  assumes "0 \<notin> set buf"
  shows "s \<le> length buf \<Longrightarrow> length buf - s < f \<Longrightarrow> stops buf s (parseredirs f buf s)"
proof (induction f arbitrary: s)
  case (Suc f)
  obtain b s1 where p: "peek buf s [60, 62] = (b, s1)" by force
  obtain tok q e s2 where g: "gettoken buf s1 = (tok, (q, e), s2)" by (cases "gettoken buf s1") auto
  obtain tok2 q2 e2 s3 where g2: "gettoken buf s2 = (tok2, (q2, e2), s3)" by (cases "gettoken buf s2") auto
  note P = peek_props [OF p Suc.prems(1)] and G = gettoken_props [OF g P(2) assms] and G2 = gettoken_props [OF g2 G(2) assms]
  have "stops buf s (parseredirs f buf s3)" if "tok2 = 97"
    using that P G G2 Suc.prems by (intro stops_mono [OF Suc.IH]) auto
  then show ?case using p g g2 P by (cases b) (auto intro!: stops_bind)
qed simp

lemma exec_stops:
  assumes "0 \<notin> set buf"
  shows "s \<le> length buf \<Longrightarrow> 2 * (length buf - s) < f \<Longrightarrow> stops buf s (exec_loop f buf args rs s)"
proof (induction f arbitrary: s args rs)
  case (Suc f)
  obtain b s1 where p: "peek buf s [124, 41, 38, 59] = (b, s1)" by force
  obtain tok q e s2 where g: "gettoken buf s1 = (tok, (q, e), s2)" by (cases "gettoken buf s1") auto
  note P = peek_props [OF p Suc.prems(1)] and G = gettoken_props [OF g P(2) assms]
  have "stops buf s (bindR (parseredirs f buf s2) (\<lambda>(rs1, s3). exec_loop f buf (args @ [(q, e)]) (rs @ rs1) s3))" if "tok = 97"
  proof (rule stops_bind)
    have s2: "s < s2" using that P(1) G(3) by auto
    then show "stops buf s (parseredirs f buf s2)"
      using G(2) Suc.prems by (intro stops_mono [OF redirs_stops [OF assms]]) auto
    fix c s3 assume r: "parseredirs f buf s2 = Inr (c, s3)" "s3 \<le> length buf"
    have f: "length buf - s2 < f" "2 * (length buf - s2) < f" using s2 G(2) Suc.prems by auto
    then have "s2 \<le> s3" using redirs_stops [OF assms G(2) f(1)] r(1) by simp
    then have "stops buf s (exec_loop f buf (args @ [(q, e)]) (rs @ c) s3)"
      using r(2) f(2) s2 by (intro stops_mono [OF Suc.IH]) auto
    then show "stops buf s (case (c, s3) of (rs1, s3) \<Rightarrow> exec_loop f buf (args @ [(q, e)]) (rs @ rs1) s3)" by simp
  qed
  then show ?case using p g P G by (cases b) auto
qed simp

lemma back_stops:
  assumes "0 \<notin> set buf"
  shows "s \<le> length buf \<Longrightarrow> length buf - s < f \<Longrightarrow> stops buf s (back_loop f buf c s)"
proof (induction f arbitrary: s c)
  case (Suc f)
  obtain b s1 where p: "peek buf s [38] = (b, s1)" by force
  obtain tok q e s2 where g: "gettoken buf s1 = (tok, (q, e), s2)" by (cases "gettoken buf s1") auto
  note P = peek_props [OF p Suc.prems(1)] and G = gettoken_props [OF g P(2) assms]
  have "b \<Longrightarrow> tok \<noteq> 0" using g P(3,4) by (auto simp: gettoken_def Let_def split: if_splits)
  then show ?case using p g P G Suc.prems by (cases b) (auto intro!: stops_mono [OF Suc.IH])
qed simp

text \<open>A token that \<open>peek\<close> has seen is not the end.\<close>

lemma peek_gettoken:
  assumes "peek buf s toks = (True, s1)" and "gettoken buf s1 = (tok, q, s2)" and "s \<le> length buf" and "0 \<notin> set buf"
  shows "s < s2" "s2 \<le> length buf"
proof -
  obtain a b where q: "q = (a, b)" by (cases q)
  note P = peek_props [OF assms(1,3)] and G = gettoken_props [OF assms(2) [unfolded q] P(2) assms(4)]
  have "tok \<noteq> 0" using assms(2) P(3,4) by (auto simp: gettoken_def Let_def split: if_splits)
  then show "s < s2" "s2 \<le> length buf" using P G by auto
qed

lemma parse_stops:
  assumes nz: "0 \<notin> set buf"
  shows "\<forall>s \<le> length buf.
      (4 * (length buf - s) + 4 \<le> f \<longrightarrow> stops buf s (parseline f buf s)) \<and>
      (4 * (length buf - s) + 3 \<le> f \<longrightarrow> stops buf s (parsepipe f buf s)) \<and>
      (4 * (length buf - s) + 2 \<le> f \<longrightarrow> stops buf s (parseexec f buf s)) \<and>
      (4 * (length buf - s) + 1 \<le> f \<longrightarrow> stops buf s (parseblock f buf s))"
proof (induction f)
  case (Suc f)
  have L: "stops buf s (parseline f buf s)" if "s \<le> length buf" "4 * (length buf - s) + 4 \<le> f" for s using Suc.IH that by blast
  have Pi: "stops buf s (parsepipe f buf s)" if "s \<le> length buf" "4 * (length buf - s) + 3 \<le> f" for s using Suc.IH that by blast
  have E: "stops buf s (parseexec f buf s)" if "s \<le> length buf" "4 * (length buf - s) + 2 \<le> f" for s using Suc.IH that by blast
  have B: "stops buf s (parseblock f buf s)" if "s \<le> length buf" "4 * (length buf - s) + 1 \<le> f" for s using Suc.IH that by blast
  note R = redirs_stops [OF nz] and X = exec_stops [OF nz] and K = back_stops [OF nz] and T = peek_gettoken [OF _ _ _ nz]
  show ?case
  proof (intro allI impI conjI)
    fix s assume s: "s \<le> length buf" "4 * (length buf - s) + 4 \<le> Suc f"
    show "stops buf s (parseline (Suc f) buf s)"
      unfolding parseline.simps
    proof (rule stops_bind, rule Pi, goal_cases)
      case (3 c s1)
      then show ?case
      proof (simp, intro stops_bind)
        show "stops buf s (back_loop f buf c s1)" using 3 s by (intro stops_mono [OF K]) auto
        fix c s2 assume s2: "s \<le> s2" "s2 \<le> length buf"
        obtain b s3 where p: "peek buf s2 [59] = (b, s3)" by force
        obtain tok q s4 where g: "gettoken buf s3 = (tok, q, s4)" by (cases "gettoken buf s3") auto
        have "stops buf s (parseline f buf s4)" if b
          using T [where toks = "[59]", OF _ g s2(2)] p that s2 s by (intro stops_mono [OF L]) auto
        then show "stops buf s (case (c, s2) of (c, s2) \<Rightarrow> case peek buf s2 [59] of (True, s3) \<Rightarrow>
            (case gettoken buf s3 of (_, _, s4) \<Rightarrow> bindR (parseline f buf s4) (\<lambda>(r, s5). Inr (LIST c r, s5))) | (False, s3) \<Rightarrow> Inr (c, s3))"
          using p g peek_props(1,2) [OF p s2(2)] s2 by (cases b) (auto intro!: stops_bind)
      qed
    qed (use s in auto)
  next
    fix s assume s: "s \<le> length buf" "4 * (length buf - s) + 3 \<le> Suc f"
    show "stops buf s (parsepipe (Suc f) buf s)"
      unfolding parsepipe.simps
    proof (rule stops_bind, rule E, goal_cases)
      case (3 c s1)
      obtain b s2 where p: "peek buf s1 [124] = (b, s2)" by force
      obtain tok q s3 where g: "gettoken buf s2 = (tok, q, s3)" by (cases "gettoken buf s2") auto
      have "stops buf s (parsepipe f buf s3)" if b
        using T [where toks = "[124]", OF _ g, of s1] p that 3 s by (intro stops_mono [OF Pi]) auto
      then show ?case using p g peek_props(1,2) [OF p] 3 by (cases b) (auto intro!: stops_bind)
    qed (use s in auto)
  next
    fix s assume s: "s \<le> length buf" "4 * (length buf - s) + 2 \<le> Suc f"
    obtain b s1 where p: "peek buf s [40] = (b, s1)" by force
    note P = peek_props(1,2) [OF p s(1)]
    have r: "stops buf s1 (parseredirs f buf s1)" using P s by (intro R) auto
    have "stops buf s (parseblock f buf s1)" using P s by (intro stops_mono [OF B]) auto
    moreover have "stops buf s (bindR (parseredirs f buf s1) (\<lambda>(rs, s2). exec_loop f buf [] rs s2))"
    proof (rule stops_bind)
      show "stops buf s (parseredirs f buf s1)" using r P by (intro stops_mono [OF r])
      fix rs s2 assume "s \<le> s2" "s2 \<le> length buf"
      then have "stops buf s (exec_loop f buf [] rs s2)" using s by (intro stops_mono [OF X]) auto
      then show "stops buf s (case (rs, s2) of (rs, s2) \<Rightarrow> exec_loop f buf [] rs s2)" by simp
    qed
    ultimately show "stops buf s (parseexec (Suc f) buf s)"
      using p by (cases b) (simp_all add: parseexec.simps)
  next
    fix s assume s: "s \<le> length buf" "4 * (length buf - s) + 1 \<le> Suc f"
    obtain b s1 where p: "peek buf s [40] = (b, s1)" by force
    obtain tok q s2 where g: "gettoken buf s1 = (tok, q, s2)" by (cases "gettoken buf s1") auto
    show "stops buf s (parseblock (Suc f) buf s)"
    proof (cases b)
      case True
      have s2: "s < s2" "s2 \<le> length buf" using T [where toks = "[40]", OF _ g s(1)] p True by auto
      have "stops buf s (parseline f buf s2)" using s2 s by (intro stops_mono [OF L]) auto
      moreover have "stops buf s (case peek buf s3 [41] of (True, s4) \<Rightarrow> (case gettoken buf s4 of
          (_, _, s5) \<Rightarrow> bindR (parseredirs f buf s5) (\<lambda>(rs, s6). Inr (redircmds rs c, s6))) | (False, s4) \<Rightarrow> Inl (Panic ''syntax - missing )''))"
        if "s \<le> s3" "s3 \<le> length buf" for c s3
      proof -
        obtain b' s4 where p': "peek buf s3 [41] = (b', s4)" by force
        obtain tok' q' s5 where g': "gettoken buf s4 = (tok', q', s5)" by (cases "gettoken buf s4") auto
        have "stops buf s (parseredirs f buf s5)" if b'
          using T [where toks = "[41]", OF _ g' \<open>s3 \<le> length buf\<close>] p' that \<open>s \<le> s3\<close> s by (intro stops_mono [OF R]) auto
        then show ?thesis using p' g' by (cases b') (auto intro!: stops_bind)
      qed
      ultimately show ?thesis using p g True by (simp add: parseblock.simps) (auto intro!: stops_bind)
    qed (use p in \<open>simp add: parseblock.simps\<close>)
  qed
qed simp

section \<open>Strings of a command\<close>

fun strs :: "cmd \<Rightarrow> str list" where
  "strs (EXEC args) = args"
| "strs (REDIR c q mode fd) = strs c @ [q]"
| "strs (PIPE l r) = strs l @ strs r"
| "strs (LIST l r) = strs l @ strs r"
| "strs (BACK c) = strs c"

text \<open>A string is a maximal run of word bytes of the line.\<close>

definition str_ok :: "byte list \<Rightarrow> str \<Rightarrow> bool" where
  "str_ok buf = (\<lambda>(q, e). q < e \<and> e \<le> length buf \<and> (\<forall>i. q \<le> i \<longrightarrow> i < e \<longrightarrow> wordc (buf ! i)) \<and> (e < length buf \<longrightarrow> \<not> wordc (buf ! e)))"

definition yields :: "byte list \<Rightarrow> ('a \<Rightarrow> bool) \<Rightarrow> ('a \<times> nat) res \<Rightarrow> bool" where
  "yields buf T r \<longleftrightarrow> (\<forall>c s'. r = Inr (c, s') \<longrightarrow> s' \<le> length buf \<and> T c)"

lemma yields_simps [simp]: "yields buf T (Inr (c, s')) \<longleftrightarrow> s' \<le> length buf \<and> T c" "yields buf T (Inl e)"
  by (auto simp: yields_def)

lemma yields_bind:
  "yields buf T r \<Longrightarrow> (\<And>c s'. s' \<le> length buf \<Longrightarrow> T c \<Longrightarrow> yields buf T' (k (c, s'))) \<Longrightarrow> yields buf T' (bindR r k)"
  by (cases r) (auto simp: yields_def)

definition cmd_ok :: "byte list \<Rightarrow> cmd \<Rightarrow> bool" where
  "cmd_ok buf c \<longleftrightarrow> (\<forall>x \<in> set (strs c). str_ok buf x)"

definition redirs_ok :: "byte list \<Rightarrow> redir list \<Rightarrow> bool" where
  "redirs_ok buf rs \<longleftrightarrow> (\<forall>(q, m, fd) \<in> set rs. str_ok buf q)"

lemma redirs_ok_simps [simp]:
  "redirs_ok buf []" "redirs_ok buf ((q, m, fd) # rs) \<longleftrightarrow> str_ok buf q \<and> redirs_ok buf rs"
  "redirs_ok buf (rs @ rs') \<longleftrightarrow> redirs_ok buf rs \<and> redirs_ok buf rs'"
  by (auto simp: redirs_ok_def)

lemma redircmds_ok: "cmd_ok buf c \<Longrightarrow> redirs_ok buf rs \<Longrightarrow> cmd_ok buf (redircmds rs c)"
proof (induction rs arbitrary: c)
  case (Cons r rs)
  obtain q m fd where r: "r = (q, m, fd)" by (cases r)
  then have "cmd_ok buf (REDIR c q m fd)" "redirs_ok buf rs" using Cons.prems by (auto simp: cmd_ok_def redirs_ok_def)
  then show ?case using Cons.IH r by (simp add: redircmds_def)
qed (simp add: redircmds_def)

lemma gettoken_le: "gettoken buf s = (tok, q, s') \<Longrightarrow> s \<le> length buf \<Longrightarrow> 0 \<notin> set buf \<Longrightarrow> s' \<le> length buf"
  using gettoken_props(2) by (cases q) blast

lemma gettoken_word: "gettoken buf s = (97, q, s') \<Longrightarrow> s \<le> length buf \<Longrightarrow> 0 \<notin> set buf \<Longrightarrow> str_ok buf q"
  using gettoken_props(5) [of buf s 97] by (cases q) (simp add: str_ok_def)

lemma redirs_yields:
  assumes nz: "0 \<notin> set buf"
  shows "s \<le> length buf \<Longrightarrow> yields buf (redirs_ok buf) (parseredirs f buf s)"
proof (induction f arbitrary: s)
  case (Suc f)
  obtain b s1 where p: "peek buf s [60, 62] = (b, s1)" by force
  obtain tok q s2 where g: "gettoken buf s1 = (tok, q, s2)" by (cases "gettoken buf s1") auto
  obtain tok2 q2 s3 where g2: "gettoken buf s2 = (tok2, q2, s3)" by (cases "gettoken buf s2") auto
  have s1: "s1 \<le> length buf" using peek_props(2) [OF p Suc.prems] .
  then have s2: "s2 \<le> length buf" and s3: "s3 \<le> length buf" using gettoken_le g g2 nz by blast+
  have "str_ok buf q2" if "tok2 = 97" using gettoken_word [OF _ s2 nz] g2 that by simp
  then show ?case
    using p g g2 s1 by (cases b) (auto intro!: yields_bind [OF Suc.IH [OF s3]] Suc.IH [OF s3])
qed simp

lemma exec_yields:
  assumes nz: "0 \<notin> set buf"
  shows "s \<le> length buf \<Longrightarrow> list_all (str_ok buf) args \<Longrightarrow> redirs_ok buf rs \<Longrightarrow> yields buf (cmd_ok buf) (exec_loop f buf args rs s)"
proof (induction f arbitrary: s args rs)
  case (Suc f)
  obtain b s1 where p: "peek buf s [124, 41, 38, 59] = (b, s1)" by force
  obtain tok q s2 where g: "gettoken buf s1 = (tok, q, s2)" by (cases "gettoken buf s1") auto
  have s1: "s1 \<le> length buf" using peek_props(2) [OF p Suc.prems(1)] .
  then have s2: "s2 \<le> length buf" using gettoken_le g nz by blast
  have "cmd_ok buf (redircmds rs (EXEC args))"
    using Suc.prems by (intro redircmds_ok) (auto simp: cmd_ok_def list_all_iff)
  moreover have "str_ok buf q" if "tok = 97" using gettoken_word [OF _ s1 nz] g that by simp
  ultimately show ?case
    using p g s1 s2 Suc.prems
    by (cases b) (auto intro!: yields_bind [OF redirs_yields [OF nz s2]] Suc.IH)
qed simp

lemma back_yields:
  assumes nz: "0 \<notin> set buf"
  shows "s \<le> length buf \<Longrightarrow> cmd_ok buf c \<Longrightarrow> yields buf (cmd_ok buf) (back_loop f buf c s)"
proof (induction f arbitrary: s c)
  case (Suc f)
  obtain b s1 where p: "peek buf s [38] = (b, s1)" by force
  obtain tok q s2 where g: "gettoken buf s1 = (tok, q, s2)" by (cases "gettoken buf s1") auto
  have s1: "s1 \<le> length buf" using peek_props(2) [OF p Suc.prems(1)] .
  then have s2: "s2 \<le> length buf" using gettoken_le g nz by blast
  show ?case using p g s1 Suc.prems Suc.IH [OF s2, of "BACK c"] by (cases b) (auto simp: cmd_ok_def)
qed simp

lemma parse_yields:
  assumes nz: "0 \<notin> set buf"
  shows "\<forall>s \<le> length buf. yields buf (cmd_ok buf) (parseline f buf s) \<and> yields buf (cmd_ok buf) (parsepipe f buf s) \<and>
    yields buf (cmd_ok buf) (parseexec f buf s) \<and> yields buf (cmd_ok buf) (parseblock f buf s)"
proof (induction f)
  case 0
  show ?case by (simp add: parseline.simps parsepipe.simps parseexec.simps parseblock.simps)
next
  case (Suc f)
  note IH = Suc.IH [rule_format, THEN conjunct1] Suc.IH [rule_format, THEN conjunct2, THEN conjunct1]
    Suc.IH [rule_format, THEN conjunct2, THEN conjunct2, THEN conjunct1] Suc.IH [rule_format, THEN conjunct2, THEN conjunct2, THEN conjunct2]
  have after: "yields buf (cmd_ok buf) (case peek buf s toks of (True, s1) \<Rightarrow> (case gettoken buf s1 of (_, _, s2) \<Rightarrow> k s2) | (False, s1) \<Rightarrow> k' s1)"
    if "s \<le> length buf" "\<And>s. s \<le> length buf \<Longrightarrow> yields buf (cmd_ok buf) (k s)" "\<And>s. s \<le> length buf \<Longrightarrow> yields buf (cmd_ok buf) (k' s)"
    for s toks k k'
  proof -
    obtain b s1 where p: "peek buf s toks = (b, s1)" by force
    obtain tok q s2 where g: "gettoken buf s1 = (tok, q, s2)" by (cases "gettoken buf s1") auto
    have s1: "s1 \<le> length buf" using peek_props(2) [OF p that(1)] .
    then have "s2 \<le> length buf" using gettoken_le g nz by blast
    then show ?thesis using p g s1 that(2,3) by (cases b) auto
  qed
  show ?case
  proof (intro allI impI conjI)
    fix s assume s: "s \<le> length buf"
    show "yields buf (cmd_ok buf) (parseline (Suc f) buf s)"
      unfolding parseline.simps
      by (rule yields_bind [OF IH(2) [OF s]], simp, rule yields_bind [OF back_yields [OF nz]], assumption, assumption, simp, rule after, assumption)
         (auto intro!: yields_bind [OF IH(1)] simp: cmd_ok_def)
    show "yields buf (cmd_ok buf) (parsepipe (Suc f) buf s)"
      unfolding parsepipe.simps
      by (rule yields_bind [OF IH(3) [OF s]], simp, rule after, assumption)
         (auto intro!: yields_bind [OF IH(2)] simp: cmd_ok_def)
    obtain b s1 where p: "peek buf s [40] = (b, s1)" by force
    have s1: "s1 \<le> length buf" using peek_props(2) [OF p s] .
    show "yields buf (cmd_ok buf) (parseexec (Suc f) buf s)"
      using p IH(4) [OF s1] by (cases b) (auto simp: parseexec.simps intro!: yields_bind [OF redirs_yields [OF nz s1]] exec_yields [OF nz])
    show "yields buf (cmd_ok buf) (parseblock (Suc f) buf s)"
      unfolding parseblock.simps
      by (rule after [OF s], rule yields_bind [OF IH(1)], assumption, simp, rule after, assumption)
         (auto intro!: yields_bind [OF redirs_yields [OF nz]] redircmds_ok)
  qed
qed

definition cut :: "str list \<Rightarrow> byte list \<Rightarrow> byte list" where
  "cut xs b = fold (\<lambda>(q, e) b. b[e := 0]) xs b"

lemma nulterminate_cut: "nulterminate c b = cut (strs c) b"
  by (induction c b rule: nulterminate.induct) (simp_all add: cut_def)

lemma length_cut [simp]: "length (cut xs b) = length b"
  unfolding cut_def by (induction xs arbitrary: b) auto

lemma nth_cut: "i < length b \<Longrightarrow> cut xs b ! i = (if i \<in> snd ` set xs then 0 else b ! i)"
proof (induction xs arbitrary: b)
  case (Cons x xs)
  obtain q e where x: "x = (q, e)" by (cases x)
  have "cut (x # xs) b = cut xs (b[e := 0])" by (simp add: cut_def x)
  then show ?case using Cons.IH [of "b[e := 0]"] Cons.prems x by (auto simp: nth_list_update)
qed (simp add: cut_def)

text \<open>The C string at \<open>q\<close>.\<close>

definition c_string :: "byte list \<Rightarrow> nat \<Rightarrow> byte list" where
  "c_string b q = takeWhile (\<lambda>x. x \<noteq> 0) (drop q b)"

lemma c_string_eqI:
  assumes "e < length b" and "q \<le> e" and "b ! e = 0" and "\<And>i. q \<le> i \<Longrightarrow> i < e \<Longrightarrow> b ! i \<noteq> 0"
  shows "c_string b q = take (e - q) (drop q b)"
proof -
  define t where "t = take (e - q) (drop q b)"
  have "drop q b = t @ drop e b"
    unfolding t_def using append_take_drop_id [of "e - q" "drop q b"] assms(2) by simp
  also have "drop e b = 0 # drop (Suc e) b" using Cons_nth_drop_Suc [OF assms(1)] assms(3) by simp
  finally have d: "drop q b = t @ 0 # drop (Suc e) b" .
  have "\<forall>x \<in> set t. x \<noteq> 0" using assms(1,2,4) by (auto simp: t_def set_conv_nth)
  then have "takeWhile (\<lambda>x. x \<noteq> 0) (t @ 0 # drop (Suc e) b) = t" by (simp add: takeWhile_append2)
  then have "c_string b q = t" unfolding c_string_def d .
  then show ?thesis by (simp only: t_def)
qed

lemma cut_string:
  assumes ok: "\<And>x. x \<in> set xs \<Longrightarrow> str_ok buf x" and q: "(q, e) \<in> set xs" and nz: "0 \<notin> set buf"
  shows "c_string (cut xs (buf @ [0])) q = take (e - q) (drop q buf)"
proof -
  let ?b = "cut xs (buf @ [0])"
  have e: "q < e" "e \<le> length buf" and w: "\<And>i. q \<le> i \<Longrightarrow> i < e \<Longrightarrow> wordc (buf ! i)" using ok [OF q] by (auto simp: str_ok_def)
  have keep: "?b ! i = buf ! i" if "q \<le> i" "i < e" for i
  proof -
    have "i \<notin> snd ` set xs"
    proof
      assume "i \<in> snd ` set xs"
      then obtain q' where "(q', i) \<in> set xs" by force
      then have "\<not> wordc (buf ! i)" using ok [of "(q', i)"] that e by (auto simp: str_ok_def)
      then show False using w that by blast
    qed
    then show ?thesis using that e by (simp add: nth_cut nth_append)
  qed
  have end0: "?b ! e = 0" using q e by (force simp: nth_cut)
  have "c_string ?b q = take (e - q) (drop q ?b)"
  proof (rule c_string_eqI)
    show "?b ! i \<noteq> 0" if "q \<le> i" "i < e" for i
      using keep [OF that] nz that e by (metis dual_order.strict_trans1 nth_mem)
  qed (use e end0 in auto)
  also have "\<dots> = take (e - q) (drop q buf)"
    using keep e by (intro nth_equalityI) auto
  finally show ?thesis .
qed

section \<open>Properties\<close>

text \<open>Property C19. The parser always returns: on any line without NUL, the recursion of \<open>parseline\<close> ends
  within the fuel that \<open>parsecmd\<close> gives it, and within any larger fuel.\<close>

theorem parsecmd_returns:
  assumes "0 \<notin> set buf" and "parse_fuel buf \<le> f"
  shows "parseline f buf 0 \<noteq> Inl Diverges \<and> parsecmd buf \<noteq> Inl Diverges"
proof -
  have st: "stops buf 0 (parseline f buf 0)" if "parse_fuel buf \<le> f" for f
    using parse_stops [OF assms(1), of f] that by (simp add: parse_fuel_def)
  then have "parsecmd buf \<noteq> Inl Diverges"
    by (auto simp: parsecmd_def stops_def bindR_eq_Inl split: prod.splits if_splits)
  then show ?thesis using st [OF assms(2)] by (simp add: stops_def)
qed

theorem parsecmd_returns_witness:
  "parse_fuel [40, 97, 59, 40] \<le> 100 \<and> parseline 100 [40, 97, 59, 40] 0 \<noteq> Inl Diverges \<and> parsecmd [40, 97, 59, 40] \<noteq> Inl Diverges"
  using parsecmd_returns [of "[40, 97, 59, 40]" 100] by (simp add: parse_fuel_def)

text \<open>Property C38. After \<open>nulterminate\<close>, every argument and file name of the command, read as a C
  string from its start, is the word that stands there in the line: no NUL it writes falls
  into another word.\<close>

theorem nulterminate_correct:
  assumes "0 \<notin> set buf" and "parsecmd buf = Inr c" and "(q, e) \<in> set (strs c)"
  shows "c_string (nulterminate c (buf @ [0])) q = take (e - q) (drop q buf) \<and> q < e \<and> e \<le> length buf"
proof -
  have "yields buf (cmd_ok buf) (parseline (parse_fuel buf) buf 0)" using parse_yields [OF assms(1)] by simp
  moreover obtain c' s where pl: "parseline (parse_fuel buf) buf 0 = Inr (c', s)"
    using assms(2) by (cases "parseline (parse_fuel buf) buf 0") (auto simp: parsecmd_def)
  moreover have "c' = c" using assms(2) by (cases "peek buf s []") (auto simp: parsecmd_def pl split: if_splits)
  ultimately have "\<And>x. x \<in> set (strs c) \<Longrightarrow> str_ok buf x" by (simp add: cmd_ok_def)
  then show ?thesis
    using cut_string [OF _ assms(3,1)] assms(3) unfolding nulterminate_cut by (force simp: str_ok_def)
qed

text \<open>The line \<open>ls|wc>f\<close>.\<close>

lemma ex_line: "parsecmd [108, 115, 124, 119, 99, 62, 102] = Inr (PIPE (EXEC [(0, 2)]) (REDIR (EXEC [(3, 5)]) (6, 7) O_WRITE 1))"
  by code_simp

theorem nulterminate_correct_witness:
  "c_string (nulterminate (PIPE (EXEC [(0, 2)]) (REDIR (EXEC [(3, 5)]) (6, 7) O_WRITE 1)) ([108, 115, 124, 119, 99, 62, 102] @ [0])) 3 = [119, 99]"
  using nulterminate_correct [OF _ ex_line, of 3 5] by simp

end
