(* ===== verification/Spec2Isabelle.thy ===== *)
theory Spec2Isabelle
  imports UserMem Spinlock Pipe Sleeplock Trap BlockTx BlockAlloc BlockMap FileData FileOps Directory Scheduling Grep Shell
begin

text \<open>
  A verification development for the xv6 operating system for RISC-V of this repository
  (\<open>src/kernel\<close>, and parts of \<open>src/user\<close>).

  \<^bold>\<open>The program.\<close> xv6 is a Unix-like kernel in C. From the bottom: a page allocator and Sv39
  page tables give memory to the kernel and to processes; spin locks and sleep locks protect
  shared data on a machine with several harts; a buffer cache, a write-ahead log and a file
  system turn a disk of 1024-byte blocks into files and directories; pipes, the console and open
  files give processes one interface to all of these; processes are created, scheduled, put to
  sleep and ended in \<open>proc.c\<close>; traps and system calls connect them to user programs.

  \<^bold>\<open>How the code is modelled.\<close> A C function is a HOL function from its arguments and the kernel
  state to its result and the new state. The state is a record that grows from layer to layer:
  \<open>kmem\<close> (memory and the free list), \<open>vm\<close>, \<open>bio\<close>, \<open>log\<close>, \<open>fs\<close>, \<open>uart\<close>, \<open>cons\<close>,
  \<open>ftab\<close>, \<open>ptab\<close>, \<open>sysst\<close>, \<open>execst\<close>, \<open>trapst\<close>, so a function of a lower layer applies
  unchanged to the state of a higher one. Integers are words of their width where the code lets
  them wrap. A function that may panic, sleep or leave C's defined behaviour returns in
  \<open>error + 'a\<close>: \<open>Panic\<close> with the message, \<open>Sleeps\<close>, \<open>Undefined\<close>, and \<open>Diverges\<close> for a
  call that does not return. Memory is one map from 64-bit addresses to bytes: the free list, the
  page tables, trap frames and user data live in it, and may alias.

  \<^bold>\<open>Concurrency.\<close> Theory \<open>Spinlock\<close> interleaves the harts at their accesses to a lock word and
  shows mutual exclusion; on the strength of it a critical section is one step elsewhere. The
  theories \<open>Sleeplock\<close>, \<open>Pipe\<close>, and the transactions of \<open>Transact\<close>, are step relations
  whose steps are such sections, with reachability and invariants by rule induction. Theory
  \<open>Sched\<close> runs the scheduler and the process functions on any number of harts, with interrupts, a
  step reaching to the next lock or context switch.

  \<^bold>\<open>The theories.\<close>
  \<^item> \<open>Prelude\<close>: results, errors, words, lists. \<open>Memory\<close>: bytes, loads and stores.
    \<open>CString\<close>: \<open>kernel/string.c\<close>.
  \<^item> \<open>Riscv\<close>: address macros of \<open>kernel/riscv.h\<close> and \<open>kernel/memlayout.h\<close>. \<open>Kalloc\<close>:
    \<open>kernel/kalloc.c\<close>, refined to a list of free pages. \<open>Vm\<close>: the functions of
    \<open>kernel/vm.c\<close>; \<open>PageTable\<close>: page tables as trees, \<open>walk\<close>, \<open>mappages\<close> and
    \<open>walkaddr\<close> against the map from virtual addresses to entries; \<open>UserMem\<close>: \<open>copyout\<close>
    and \<open>copyin\<close> against a byte-wise reference.
  \<^item> \<open>Spinlock\<close>, \<open>Sleeplock\<close>, \<open>Pipe\<close>: \<open>kernel/spinlock.c\<close>, \<open>kernel/sleeplock.c\<close>,
    \<open>kernel/pipe.c\<close>, with mutual exclusion, delivery of the writers' bytes to the readers'
    buffers in order, and that no process sleeps while it could run but for one case, a killed
    writer that returns without a wakeup.
  \<^item> \<open>Bio\<close> and \<open>BufCache\<close>: \<open>kernel/bio.c\<close>; the 30 buffers on their list are refined to the
    contents of blocks and the set of blocks held. \<open>Layout\<close>: the structures of
    \<open>kernel/fs.h\<close> in the bytes of a block.
  \<^item> \<open>Log\<close> and \<open>Transact\<close>: \<open>kernel/log.c\<close>. The disk records its writes, and a crash is a
    prefix of them; recovery gives the state before or after the transaction.
  \<^item> \<open>Fs\<close>: the functions of \<open>kernel/fs.c\<close>. \<open>BlockTx\<close> is the contract between the log and
    the file system, a locale with its interpretation; \<open>BlockAlloc\<close>, \<open>BlockMap\<close>,
    \<open>FileData\<close>, \<open>FileOps\<close> and \<open>Directory\<close> show block allocation, the block map of an
    inode, reads and writes of file contents, and directories, each against its abstract
    meaning: the set of free blocks, the bytes of the file, the map from names to inode numbers.
  \<^item> \<open>Uart\<close>, \<open>Console\<close>: \<open>kernel/uart.c\<close>, \<open>kernel/console.c\<close>, refined to queues and to a
    line editor.
  \<^item> \<open>File\<close>, \<open>Proc\<close>, \<open>Syscall\<close>, \<open>Exec\<close>, \<open>Trap\<close>: \<open>kernel/file.c\<close>, \<open>kernel/proc.c\<close>,
    \<open>kernel/syscall.c\<close>, \<open>kernel/sysfile.c\<close>, \<open>kernel/exec.c\<close>, \<open>kernel/sysproc.c\<close> and
    \<open>kernel/trap.c\<close>.
  \<^item> \<open>Sched\<close>, \<open>SchedInv\<close>, \<open>Scheduling\<close>: the scheduler, \<open>sched\<close>, \<open>yield\<close>, \<open>sleep\<close>, \<open>wakeup\<close>, \<open>kill\<close>,
    \<open>exit\<close>, \<open>wait\<close> and \<open>fork\<close> of \<open>kernel/proc.c\<close> as steps of the harts; the invariants of these steps;
    and what follows: where they panic, that a process runs on one hart, and that \<open>wakeup\<close> and
    \<open>exit\<close> miss no sleeper. \<open>may_call\<close> says how the rest of the kernel is assumed to call them; a
    caller that sleeps with two locks, as \<open>consolewrite\<close> does, is within it and panics.
  \<^item> \<open>Grep\<close>, \<open>Shell\<close>: the matcher and the line loop of \<open>user/grep.c\<close> against the language of the
    expression and the lines of the input; the parser of \<open>user/sh.c\<close>, that it always returns, and
    the strings that \<open>nulterminate\<close> leaves.

  \<^bold>\<open>Bounds and fuel.\<close> Table sizes are those of \<open>kernel/param.h\<close>. Loops over arrays recurse on
  the number of entries left; loops over virtual addresses and over copies are total, by a
  measure, because \<open>walk\<close> panics past \<open>MAXVA\<close> and every round of a copy moves a byte. The
  recursions of \<open>freewalk\<close> and of the spin loop are \<open>partial_function (option)\<close>; a call that
  would not return is \<open>None\<close>. The parser of the shell has fuel, four times the length of the line
  and four, and is shown never to run out of it.

  \<^bold>\<open>Not modelled.\<close> Assembly (\<open>entry.S\<close>, \<open>trampoline.S\<close>, \<open>kernelvec.S\<close>, \<open>swtch.S\<close>), the set-up of
  the machine (\<open>start.c\<close>, \<open>main.c\<close>, \<open>plic.c\<close>) and the memory ordering of fences act on the hardware
  below the model. The disk driver \<open>virtio_disk.c\<close> is represented by its contract: \<open>virtio_disk_rw\<close> of
  theory \<open>Bio\<close> is one atomic transfer between a buffer and a disk that does not fail. In the
  functions that are not step relations a \<open>wakeup\<close> changes nothing, as no sleeper is part of their
  state. \<open>printf.c\<close> only prints. Of the user programs, the library, \<open>main\<close> functions and the
  execution of a parsed command are left out; \<open>mkfs.c\<close> runs on the host; test programs
  (\<open>usertests.c\<close>, \<open>grind.c\<close> and the like) exercise the kernel and are no part of it.
\<close>

end
